(* ===== verification/Kernel_Prelude.thy ===== *)
theory Kernel_Prelude
  imports Main "HOL-Library.Word" "HOL-Library.Monad_Syntax"
begin

text \<open>
  Shared vocabulary of the development.

  \<^item> Machine types: \<open>u64\<close> is C's \<open>unsigned long\<close>, \<open>size_t\<close> and \<open>ptr_t\<close> on amd64, \<open>u32\<close> and
    \<open>u8\<close> are \<open>uint32_t\<close> and \<open>uint8_t\<close>; arithmetic on them wraps.
  \<^item> Results: a C function that returns normally is \<open>Some\<close> of its result and of the state it
    leaves; \<open>None\<close> stands for every way of not returning: \<open>fatal()\<close>, a failed \<open>assert\<close>, a
    dereference of \<open>NULL\<close>, an access outside an array, or a loop that does not end.
    Status codes are values of the datatype \<open>status\<close>.
  \<^item> The macros of \<open>lib/utility.h\<close> that the components use.
  \<^item> Generic facts on words, on \<open>List.find\<close> and on option-valued code.
\<close>

unbundle bit_operations_syntax

type_synonym u8 = "8 word"
type_synonym u32 = "32 word"
type_synonym u64 = "64 word"
type_synonym i32 = "32 word"

section \<open>Status codes\<close>

datatype status =
    STATUS_SUCCESS | STATUS_NOT_IMPLEMENTED | STATUS_NOT_SUPPORTED | STATUS_WOULD_BLOCK
  | STATUS_INTERRUPTED | STATUS_TIMED_OUT | STATUS_INVALID_SYSCALL | STATUS_INVALID_ARG
  | STATUS_INVALID_HANDLE | STATUS_INVALID_ADDR | STATUS_INVALID_REQUEST | STATUS_INVALID_EVENT
  | STATUS_OVERFLOW | STATUS_NO_MEMORY | STATUS_NO_HANDLES | STATUS_PROCESS_LIMIT
  | STATUS_THREAD_LIMIT | STATUS_READ_ONLY | STATUS_PERM_DENIED | STATUS_ACCESS_DENIED
  | STATUS_NOT_DIR | STATUS_NOT_REGULAR | STATUS_NOT_SYMLINK | STATUS_NOT_MOUNT
  | STATUS_NOT_FOUND | STATUS_NOT_EMPTY | STATUS_ALREADY_EXISTS | STATUS_TOO_SMALL
  | STATUS_TOO_LARGE | STATUS_TOO_LONG | STATUS_DIR_FULL | STATUS_UNKNOWN_FS
  | STATUS_CORRUPT_FS | STATUS_FS_FULL | STATUS_SYMLINK_LIMIT | STATUS_IN_USE
  | STATUS_DEVICE_ERROR | STATUS_STILL_RUNNING | STATUS_UNKNOWN_IMAGE | STATUS_MALFORMED_IMAGE
  | STATUS_MISSING_LIBRARY | STATUS_MISSING_SYMBOL | STATUS_TRY_AGAIN | STATUS_DIFFERENT_FS
  | STATUS_IS_DIR | STATUS_CONN_HUNGUP

section \<open>Macros of lib/utility.h\<close>

definition round_up :: "'a::{minus,plus,modulo,zero} \<Rightarrow> 'a \<Rightarrow> 'a" where
  "round_up val nearest =
     (if val mod nearest \<noteq> 0 then val - val mod nearest + nearest else val)"

definition round_down :: "'a::{minus,modulo,zero} \<Rightarrow> 'a \<Rightarrow> 'a" where
  "round_down val nearest =
     (if val mod nearest \<noteq> 0 then val - val mod nearest else val)"

definition is_pow2 :: "u64 \<Rightarrow> bool" where
  "is_pow2 val \<longleftrightarrow> val \<noteq> 0 \<and> val AND (val - 1) = 0"

text \<open>\<open>checksum_range\<close>: the bytes of the range add up to 0 modulo 256.\<close>

primrec checksum_loop :: "u8 list \<Rightarrow> u8 \<Rightarrow> u8" where
  "checksum_loop [] checksum = checksum"
| "checksum_loop (b # bs) checksum = checksum_loop bs (checksum + b)"

definition checksum_range :: "u8 list \<Rightarrow> bool" where
  "checksum_range bytes = (checksum_loop bytes 0 = 0)"

section \<open>Collections and generic lemmas\<close>

named_theorems kernel_step \<open>unfolding of one step of option-valued kernel code\<close>
named_theorems kernel_inv \<open>preservation of component invariants\<close>

lemma bind_Some_iff [simp]:
  "(Option.bind x f = Some y) = (\<exists>a. x = Some a \<and> f a = Some y)"
  by (cases x) auto

lemma bind_None_iff:
  "(Option.bind x f = None) = (x = None \<or> (\<exists>a. x = Some a \<and> f a = None))"
  by (cases x) auto

lemma round_up_nat:
  fixes n k :: nat
  assumes "0 < k"
  shows "n \<le> round_up n k" and "round_up n k < n + k" and "k dvd round_up n k"
proof -
  have le: "n mod k \<le> n" and lt: "n mod k < k" using assms by auto
  then show "n \<le> round_up n k" and "round_up n k < n + k"
    by (auto simp: round_up_def)
  have "k dvd (n - n mod k) + k"
    by (intro dvd_add dvd_minus_mod) simp
  then show "k dvd round_up n k"
    by (auto simp: round_up_def)
qed

lemma uint_of_nat_less:
  "n < 2 ^ LENGTH('a) \<Longrightarrow> uint (of_nat n :: 'a::len word) = int n"
  by (simp add: uint_nat unat_of_nat)

lemma find_append:
  "List.find P (xs @ ys) = (case List.find P xs of Some x \<Rightarrow> Some x | None \<Rightarrow> List.find P ys)"
  by (induction xs) auto

lemma find_Some_upt_iff:
  "List.find P [0..<n] = Some i \<longleftrightarrow> i < n \<and> P i \<and> (\<forall>j<i. \<not> P j)"
  by (auto simp: find_Some_iff)

lemma find_upt_shift:
  "List.find P [m..<m + n] = map_option ((+) m) (List.find (\<lambda>i. P (m + i)) [0..<n])"
  by (induction n) (auto simp: find_append split: option.splits)

lemma find_upt_split:
  assumes "m \<le> n"
  shows "List.find P [0..<n] =
    (case List.find P [0..<m] of Some i \<Rightarrow> Some i
     | None \<Rightarrow> map_option ((+) m) (List.find (\<lambda>i. P (m + i)) [0..<n - m]))"
proof -
  have "[0..<n] = [0..<m] @ [m..<m + (n - m)]"
    using assms upt_add_eq_append [of 0 m "n - m"] by simp
  then show ?thesis
    by (simp only: find_append find_upt_shift)
qed

lemma find_upt_bounded:
  "n \<le> m \<Longrightarrow> List.find (\<lambda>i. P i \<and> i < n) [0..<m] = List.find P [0..<n]"
proof -
  assume "n \<le> m"
  have "List.find (\<lambda>i. P i \<and> i < n) [0..<m] = Some i \<longleftrightarrow> List.find P [0..<n] = Some i" for i
    using \<open>n \<le> m\<close> by (auto simp: find_Some_upt_iff)
  then show ?thesis
    by (metis not_None_eq)
qed

lemma find_cong_upt:
  "(\<And>i. i < n \<Longrightarrow> P i = Q i) \<Longrightarrow> List.find P [0..<n] = List.find Q [0..<n]"
  by (rule find_cong) auto

lemma checksum_loop_eq: "checksum_loop bs c = c + sum_list bs"
  by (induction bs arbitrary: c) (auto simp: add.assoc)

end
