(* ===== verification/Bitmap.thy ===== *)
theory Bitmap
  imports Kernel_Prelude
begin

text \<open>
  Model of \<open>lib/bitmap.c\<close> and of the bit instructions of \<open>arch/amd64/include/arch/bitops.h\<close> it uses.
  A bitmap is the array of \<open>unsigned long\<close> the code indexes: a list of 64-bit words. The
  operations that scan a bitmap keep the word-by-word loops of the source, with the mask on the
  last partial word; the lemmas show that they agree with a bit-by-bit reference
  (\<open>List.find\<close> over bit numbers). The locale \<open>bitset\<close> states what a client relies on.
\<close>

section \<open>Bit instructions\<close>

definition set_bit_insn :: "u64 \<Rightarrow> nat \<Rightarrow> u64" where
  "set_bit_insn v b = v OR push_bit b 1"

definition clear_bit_insn :: "u64 \<Rightarrow> nat \<Rightarrow> u64" where
  "clear_bit_insn v b = v AND NOT (push_bit b 1)"

text \<open>\<open>bsf\<close> and \<open>bsr\<close> leave their destination undefined on a zero operand.\<close>

definition ffs :: "u64 \<Rightarrow> nat option" where
  "ffs v = List.find (bit v) [0..<64]"

definition ffz :: "u64 \<Rightarrow> nat option" where
  "ffz v = ffs (NOT v)"

definition fls :: "u64 \<Rightarrow> nat option" where
  "fls v = List.find (bit v) (rev [0..<64])"

definition highbit_native :: "u64 \<Rightarrow> nat option" where
  "highbit_native v = (if v = 0 then Some 0 else map_option Suc (fls v))"

section \<open>Operations\<close>

abbreviation ulong_bits :: nat where "ulong_bits \<equiv> 64"

definition BITMAP_BYTES :: "nat \<Rightarrow> nat" where
  "BITMAP_BYTES nbits = round_up nbits 8 div 8"

text \<open>\<open>memset(p, 0, n)\<close> on an array of little-endian words.\<close>

fun memset_zero :: "u64 list \<Rightarrow> nat \<Rightarrow> u64 list option" where
  "memset_zero ws 0 = Some ws"
| "memset_zero [] (Suc n) = None"
| "memset_zero (w # ws) (Suc n) =
     (if Suc n < 8 then Some (push_bit (8 * Suc n) (drop_bit (8 * Suc n) w) # ws)
      else map_option (Cons 0) (memset_zero ws (Suc n - 8)))"

definition bitmap_zero :: "u64 list \<Rightarrow> nat \<Rightarrow> u64 list option" where
  "bitmap_zero bitmap nbits = memset_zero bitmap (BITMAP_BYTES nbits)"

text \<open>
  \<open>kmalloc\<close> is a parameter: it maps a size in bytes to \<open>None\<close> (the \<open>NULL\<close> pointer) or to the
  words of the block it returns, whose contents are arbitrary.
\<close>

definition bitmap_alloc :: "(nat \<Rightarrow> u64 list option) \<Rightarrow> nat \<Rightarrow> u64 list option option" where
  "bitmap_alloc kmalloc nbits =
     (case kmalloc (BITMAP_BYTES nbits) of
        None \<Rightarrow> Some None
      | Some bitmap \<Rightarrow> map_option Some (bitmap_zero bitmap nbits))"

definition bitmap_set :: "u64 list \<Rightarrow> nat \<Rightarrow> u64 list option" where
  "bitmap_set bitmap b =
     (if b div ulong_bits < length bitmap
      then Some (bitmap[b div ulong_bits := set_bit_insn (bitmap ! (b div ulong_bits)) (b mod ulong_bits)])
      else None)"

definition bitmap_clear :: "u64 list \<Rightarrow> nat \<Rightarrow> u64 list option" where
  "bitmap_clear bitmap b =
     (if b div ulong_bits < length bitmap
      then Some (bitmap[b div ulong_bits := clear_bit_insn (bitmap ! (b div ulong_bits)) (b mod ulong_bits)])
      else None)"

definition bitmap_test :: "u64 list \<Rightarrow> nat \<Rightarrow> bool option" where
  "bitmap_test bitmap b =
     (if b div ulong_bits < length bitmap
      then Some ((bitmap ! (b div ulong_bits)) AND push_bit (b mod ulong_bits) 1 \<noteq> 0)
      else None)"

fun bitmap_ffs_loop :: "u64 list \<Rightarrow> nat \<Rightarrow> int \<Rightarrow> int option" where
  "bitmap_ffs_loop bitmap nbits result =
     (if nbits \<ge> ulong_bits then
        (case bitmap of
           [] \<Rightarrow> None
         | v # bitmap' \<Rightarrow>
             if v \<noteq> 0 then map_option (\<lambda>i. result + int i) (ffs v)
             else bitmap_ffs_loop bitmap' (nbits - ulong_bits) (result + int ulong_bits))
      else if nbits \<noteq> 0 then
        (case bitmap of
           [] \<Rightarrow> None
         | w # _ \<Rightarrow>
             let v = w AND drop_bit (ulong_bits - nbits) (- 1) in
             if v \<noteq> 0 then map_option (\<lambda>i. result + int i) (ffs v) else Some (- 1))
      else Some (- 1))"

definition bitmap_ffs :: "u64 list \<Rightarrow> nat \<Rightarrow> int option" where
  "bitmap_ffs bitmap nbits = bitmap_ffs_loop bitmap nbits 0"

fun bitmap_ffz_loop :: "u64 list \<Rightarrow> nat \<Rightarrow> int \<Rightarrow> int option" where
  "bitmap_ffz_loop bitmap nbits result =
     (if nbits \<ge> ulong_bits then
        (case bitmap of
           [] \<Rightarrow> None
         | v # bitmap' \<Rightarrow>
             if v \<noteq> - 1 then map_option (\<lambda>i. result + int i) (ffz v)
             else bitmap_ffz_loop bitmap' (nbits - ulong_bits) (result + int ulong_bits))
      else if nbits \<noteq> 0 then
        (case bitmap of
           [] \<Rightarrow> None
         | w # _ \<Rightarrow>
             let v = w OR push_bit nbits (- 1) in
             if v \<noteq> - 1 then map_option (\<lambda>i. result + int i) (ffz v) else Some (- 1))
      else Some (- 1))"

definition bitmap_ffz :: "u64 list \<Rightarrow> nat \<Rightarrow> int option" where
  "bitmap_ffz bitmap nbits = bitmap_ffz_loop bitmap nbits 0"

text \<open>The shift \<open>~0UL << current\<close> is only defined for a count below the width.\<close>

fun bitmap_next_loop :: "u64 list \<Rightarrow> nat \<Rightarrow> nat \<Rightarrow> int \<Rightarrow> int option" where
  "bitmap_next_loop bitmap nbits current result =
     (if nbits \<ge> ulong_bits then
        (case bitmap of
           [] \<Rightarrow> None
         | w # bitmap' \<Rightarrow>
             if current < ulong_bits then
               (let v = w AND push_bit current (- 1) in
                if v \<noteq> 0 then map_option (\<lambda>i. result + int i) (ffs v)
                else bitmap_next_loop bitmap' (nbits - ulong_bits) 0 (result + int ulong_bits))
             else bitmap_next_loop bitmap' (nbits - ulong_bits) (current - ulong_bits)
                    (result + int ulong_bits))
      else if nbits \<noteq> 0 then
        (case bitmap of
           [] \<Rightarrow> None
         | w # _ \<Rightarrow>
             if current \<ge> ulong_bits then None
             else
               (let v = w AND drop_bit (ulong_bits - nbits) (- 1) AND push_bit current (- 1) in
                if v \<noteq> 0 then map_option (\<lambda>i. result + int i) (ffs v) else Some (- 1)))
      else Some (- 1))"

definition bitmap_next :: "u64 list \<Rightarrow> nat \<Rightarrow> nat \<Rightarrow> int option" where
  "bitmap_next bitmap nbits current =
     bitmap_next_loop bitmap nbits ((current + 1) mod 2 ^ 64) 0"

declare bitmap_ffs_loop.simps [simp del] bitmap_ffz_loop.simps [simp del]
  bitmap_next_loop.simps [simp del]

section \<open>Bits of a bitmap\<close>

definition bit_at :: "u64 list \<Rightarrow> nat \<Rightarrow> bool" where
  "bit_at bm i \<longleftrightarrow> i div 64 < length bm \<and> bit (bm ! (i div 64)) (i mod 64)"

definition bit_result :: "int \<Rightarrow> nat option \<Rightarrow> int" where
  "bit_result base r = (case r of None \<Rightarrow> - 1 | Some i \<Rightarrow> base + int i)"

lemma fls_Some: "fls v = Some i \<longleftrightarrow> bit v i \<and> (\<forall>j>i. \<not> bit v j)"
proof -
  have "List.find P (rev [0..<n]) = Some i \<longleftrightarrow> i < n \<and> P i \<and> (\<forall>j>i. j < n \<longrightarrow> \<not> P j)" for P n
    by (induction n) (auto simp: less_Suc_eq not_less dest: le_less_trans)
  from this [of "bit v" 64] show ?thesis
    unfolding fls_def using bit_imp_le_length [of v] by auto
qed

lemma fls_nonzero: "v \<noteq> 0 \<Longrightarrow> \<exists>i. fls v = Some i"
proof -
  assume "v \<noteq> 0"
  then obtain j where "bit v j" by (auto simp: bit_eq_iff)
  then have "\<exists>x\<in>set (rev [0..<64]). bit v x" using bit_imp_le_length [of v j] by auto
  then show ?thesis unfolding fls_def using find_None_iff [of "bit v" "rev [0..<64]"] by auto
qed

text \<open>The index of the highest set bit bounds the value.\<close>

lemma fls_bounds:
  assumes "fls v = Some i"
  shows "i < 64" "2 ^ i \<le> unat v" "unat v < 2 ^ Suc i"
proof -
  have b: "bit v i" "\<And>j. i < j \<Longrightarrow> \<not> bit v j" using assms by (auto simp: fls_Some)
  show i: "i < 64" using bit_imp_le_length [OF b(1)] by simp
  have nb: "bit (unat v) j = bit v j" for j using bit_imp_le_length [of v j] by (auto simp: bit_unsigned_iff)
  have "unat v div 2 ^ i \<noteq> 0" using b(1) nb [of i] by (metis bit_iff_odd even_zero)
  then show "2 ^ i \<le> unat v" by (metis div_less not_le)
  have "take_bit (Suc i) (unat v) = unat v"
    by (rule bit_eqI) (metis bit_take_bit_iff nb b(2) not_less_eq)
  then show "unat v < 2 ^ Suc i" by (metis take_bit_nat_less_exp)
qed

lemma bit_at_Cons:
  "bit_at (v # bm) i = (if i < 64 then bit v i else bit_at bm (i - 64))"
  by (auto simp: bit_at_def nth_Cons' div_eq_0_iff le_div_geq le_mod_geq not_less)

lemma bit_at_Cons_low [simp]: "i < 64 \<Longrightarrow> bit_at (v # bm) i = bit v i"
  by (simp add: bit_at_Cons)

lemma bit_at_Cons_high [simp]: "bit_at (v # bm) (64 + i) = bit_at bm i"
  by (simp add: bit_at_Cons)

lemma bit_push_m1: "bit (push_bit n (- 1) :: u64) i \<longleftrightarrow> n \<le> i \<and> i < 64"
  by (auto simp: bit_not_iff bit_mask_iff)

lemma bit_drop_m1: "n \<le> 64 \<Longrightarrow> bit (drop_bit (64 - n) (- 1) :: u64) i \<longleftrightarrow> i < n"
  by (auto simp: bit_mask_iff)

lemma u64_eq_0_iff: "(v :: u64) = 0 \<longleftrightarrow> ffs v = None"
  by (auto simp: ffs_def find_None_iff bit_eq_iff dest: bit_imp_le_length)

lemma u64_eq_m1_iff: "(v :: u64) = - 1 \<longleftrightarrow> ffz v = None"
proof -
  have "v = - 1 \<longleftrightarrow> NOT v = 0"
    by (metis bit.compl_zero bit.double_compl)
  then show ?thesis
    by (simp add: ffz_def u64_eq_0_iff)
qed

lemma ffz_find: "ffz v = List.find (\<lambda>i. \<not> bit v i) [0..<64]"
  unfolding ffz_def ffs_def by (rule find_cong_upt) (simp add: bit_not_iff)

lemmas bit_masks = bit_and_iff bit_or_iff bit_not_iff bit_mask_iff

lemma bit_result_Some [simp]: "bit_result base (Some i) = base + int i"
  and bit_result_None [simp]: "bit_result base None = - 1"
  by (simp_all add: bit_result_def)

lemma bit_result_shift:
  "bit_result (base + int m) r = bit_result base (map_option ((+) m) r)"
  by (cases r) auto

section \<open>The scans agree with a bit-by-bit search\<close>

text \<open>
  One word of a scan: the masked word \<open>v\<close> represents the predicate \<open>P\<close> on its 64 bits. The three
  scans differ only in the predicate, so their loops share these steps.
\<close>

lemma scan_word:
  assumes "\<And>i. i < 64 \<Longrightarrow> bit v i = P i"
  shows "ffs v = List.find P [0..<64]"
  unfolding ffs_def by (rule find_cong_upt) (use assms in simp)

lemma scan_full:
  assumes "64 \<le> n" and "List.find P [0..<64] = None"
  shows "bit_result base (List.find P [0..<n])
    = bit_result (base + 64) (List.find (\<lambda>i. P (64 + i)) [0..<n - 64])"
  using assms find_upt_split [of 64 n P] bit_result_shift [of base 64] by simp

lemma scan_hit:
  assumes "64 \<le> n" and "List.find P [0..<64] = Some i"
  shows "List.find P [0..<n] = Some i"
  using assms find_upt_split [of 64 n P] by simp

lemma scan_cases [consumes 1, case_names full part zero]:
  assumes "n \<le> 64 * length (bm :: u64 list)"
  obtains v bm' where "64 \<le> n" "bm = v # bm'" | v bm' where "n < 64" "n \<noteq> 0" "bm = v # bm'"
    | "n = 0"
  using assms by (cases bm; cases "64 \<le> n") auto

lemma bitmap_ffs_loop_eq:
  "n \<le> 64 * length bm \<Longrightarrow>
   bitmap_ffs_loop bm n base = Some (bit_result base (List.find (bit_at bm) [0..<n]))"
proof (induction bm n base rule: bitmap_ffs_loop.induct)
  case (1 bm n base)
  from "1.prems" show ?case
  proof (cases rule: scan_cases)
    case (full v bm')
    have w: "ffs v = List.find (bit_at (v # bm')) [0..<64]"
      by (rule scan_word) simp
    show ?thesis
    proof (cases "ffs v")
      case None
      have "bitmap_ffs_loop bm' (n - 64) (base + 64)
          = Some (bit_result (base + 64) (List.find (bit_at bm') [0..<n - 64]))"
        using "1.IH" [of v bm'] "1.prems" full None by (simp add: u64_eq_0_iff)
      with full None w scan_full [of n "bit_at (v # bm')" base] show ?thesis
        by (simp add: bitmap_ffs_loop.simps [of "v # bm'"] u64_eq_0_iff)
    next
      case (Some i)
      with w have hit: "List.find (bit_at (v # bm')) [0..<64] = Some i" by simp
      have "List.find (bit_at (v # bm')) [0..<n] = Some i"
        by (rule scan_hit [OF full(1) hit])
      with full Some show ?thesis
        by (simp add: bitmap_ffs_loop.simps [of "v # bm'"] u64_eq_0_iff)
    qed
  next
    case (part v bm')
    have "ffs (v AND drop_bit (64 - n) (- 1)) = List.find (bit_at (v # bm')) [0..<n]"
      using scan_word [of "v AND drop_bit (64 - n) (- 1)" "\<lambda>i. bit_at (v # bm') i \<and> i < n"] part
      by (simp add: bit_masks find_upt_bounded)
    with part show ?thesis
      by (cases "List.find (bit_at (v # bm')) [0..<n]")
        (auto simp: bitmap_ffs_loop.simps [of "v # bm'"] Let_def u64_eq_0_iff)
  next
    case zero
    then show ?thesis by (simp add: bitmap_ffs_loop.simps [of bm])
  qed
qed

lemma bitmap_ffz_loop_eq:
  "n \<le> 64 * length bm \<Longrightarrow>
   bitmap_ffz_loop bm n base = Some (bit_result base (List.find (\<lambda>i. \<not> bit_at bm i) [0..<n]))"
proof (induction bm n base rule: bitmap_ffz_loop.induct)
  case (1 bm n base)
  from "1.prems" show ?case
  proof (cases rule: scan_cases)
    case (full v bm')
    have w: "ffz v = List.find (\<lambda>i. \<not> bit_at (v # bm') i) [0..<64]"
      unfolding ffz_find by (rule find_cong_upt) simp
    show ?thesis
    proof (cases "ffz v")
      case None
      have "bitmap_ffz_loop bm' (n - 64) (base + 64)
          = Some (bit_result (base + 64) (List.find (\<lambda>i. \<not> bit_at bm' i) [0..<n - 64]))"
        using "1.IH" [of v bm'] "1.prems" full None by (simp add: u64_eq_m1_iff)
      with full None w scan_full [of n "\<lambda>i. \<not> bit_at (v # bm') i" base] show ?thesis
        by (simp add: bitmap_ffz_loop.simps [of "v # bm'"] u64_eq_m1_iff)
    next
      case (Some i)
      with w have hit: "List.find (\<lambda>i. \<not> bit_at (v # bm') i) [0..<64] = Some i" by simp
      have "List.find (\<lambda>i. \<not> bit_at (v # bm') i) [0..<n] = Some i"
        by (rule scan_hit [OF full(1) hit])
      with full Some show ?thesis
        by (simp add: bitmap_ffz_loop.simps [of "v # bm'"] u64_eq_m1_iff)
    qed
  next
    case (part v bm')
    have "ffz (v OR push_bit n (- 1)) = List.find (\<lambda>i. \<not> bit_at (v # bm') i) [0..<n]"
      using scan_word [of "NOT (v OR push_bit n (- 1))" "\<lambda>i. \<not> bit_at (v # bm') i \<and> i < n"] part
      by (simp add: bit_masks find_upt_bounded ffz_def)
    with part show ?thesis
      by (cases "List.find (\<lambda>i. \<not> bit_at (v # bm') i) [0..<n]")
        (auto simp: bitmap_ffz_loop.simps [of "v # bm'"] Let_def u64_eq_m1_iff)
  next
    case zero
    then show ?thesis by (simp add: bitmap_ffz_loop.simps [of bm])
  qed
qed

lemma bitmap_next_loop_eq:
  "n \<le> 64 * length bm \<Longrightarrow> cur \<le> n \<Longrightarrow>
   bitmap_next_loop bm n cur base
     = Some (bit_result base (List.find (\<lambda>i. cur \<le> i \<and> bit_at bm i) [0..<n]))"
proof (induction bm n cur base rule: bitmap_next_loop.induct)
  case (1 bm n cur base)
  from "1.prems"(1) show ?case
  proof (cases rule: scan_cases)
    case (full v bm')
    let ?P = "\<lambda>i. cur \<le> i \<and> bit_at (v # bm') i"
    show ?thesis
    proof (cases "cur < 64")
      case True
      let ?v = "v AND push_bit cur (- 1)"
      have w: "ffs ?v = List.find ?P [0..<64]"
        by (rule scan_word) (auto simp: bit_masks)
      show ?thesis
      proof (cases "ffs ?v")
        case None
        have "bitmap_next_loop bm' (n - 64) 0 (base + 64)
            = Some (bit_result (base + 64) (List.find (bit_at bm') [0..<n - 64]))"
          using "1.IH"(1) [of v bm' ?v] "1.prems" full None True by (simp add: u64_eq_0_iff)
        with full None True w scan_full [of n ?P base] show ?thesis
          by (simp add: bitmap_next_loop.simps [of "v # bm'"] u64_eq_0_iff)
      next
        case (Some i)
        with w have hit: "List.find ?P [0..<64] = Some i" by simp
        have "List.find ?P [0..<n] = Some i"
          by (rule scan_hit [OF full(1) hit])
        with full True Some show ?thesis
          by (simp add: bitmap_next_loop.simps [of "v # bm'"] u64_eq_0_iff)
      qed
    next
      case False
      have none: "List.find ?P [0..<64] = None"
        using False by (auto simp: find_None_iff)
      have shift: "(\<lambda>i. ?P (64 + i)) = (\<lambda>i. cur - 64 \<le> i \<and> bit_at bm' i)"
        using False by (auto simp: fun_eq_iff)
      have "bitmap_next_loop bm' (n - 64) (cur - 64) (base + 64)
          = Some (bit_result (base + 64) (List.find (\<lambda>i. ?P (64 + i)) [0..<n - 64]))"
        unfolding shift using "1.IH"(2) [of v bm'] "1.prems" full False by simp
      with full False scan_full [of n ?P base, OF _ none] show ?thesis
        by (simp add: bitmap_next_loop.simps [of "v # bm'"])
    qed
  next
    case (part v bm')
    let ?P = "\<lambda>i. cur \<le> i \<and> bit_at (v # bm') i"
    have "ffs (v AND drop_bit (64 - n) (- 1) AND push_bit cur (- 1))
        = List.find (\<lambda>i. ?P i \<and> i < n) [0..<64]"
      by (rule scan_word) (use part in \<open>auto simp: bit_masks\<close>)
    also have "\<dots> = List.find ?P [0..<n]"
      by (rule find_upt_bounded) (use part in simp)
    finally have "ffs (v AND drop_bit (64 - n) (- 1) AND push_bit cur (- 1)) = List.find ?P [0..<n]" .
    with part "1.prems" show ?thesis
      by (cases "List.find ?P [0..<n]")
        (auto simp: bitmap_next_loop.simps [of "v # bm'"] Let_def u64_eq_0_iff)
  next
    case zero
    then show ?thesis by (simp add: bitmap_next_loop.simps [of bm])
  qed
qed

section \<open>Single-bit operations\<close>

lemma length_bitmap_set: "bitmap_set bm b = Some bm' \<Longrightarrow> length bm' = length bm"
  and length_bitmap_clear: "bitmap_clear bm b = Some bm' \<Longrightarrow> length bm' = length bm"
  by (auto simp: bitmap_set_def bitmap_clear_def split: if_splits)

lemma bit_at_update:
  assumes "b div 64 < length bm"
    and "\<And>i. i < 64 \<Longrightarrow> bit v i = (if i = b mod 64 then x else bit (bm ! (b div 64)) i)"
  shows "bit_at (bm[b div 64 := v]) i = (if i = b then x else bit_at bm i)"
proof (cases "i div 64 = b div 64")
  case True
  have "i = b \<longleftrightarrow> i mod 64 = b mod 64"
    using True by (metis mult_div_mod_eq)
  with True assms show ?thesis by (simp add: bit_at_def)
next
  case False
  with assms show ?thesis by (auto simp: bit_at_def nth_list_update)
qed

lemma bit_insns:
  "b < 64 \<Longrightarrow> i < 64 \<Longrightarrow> bit (set_bit_insn v b) i = (if i = b then True else bit v i)"
  "b < 64 \<Longrightarrow> i < 64 \<Longrightarrow> bit (clear_bit_insn v b) i = (if i = b then False else bit v i)"
  by (auto simp: set_bit_insn_def clear_bit_insn_def bit_masks bit_exp_iff)

lemma in_bitmap: "b < n \<Longrightarrow> n \<le> 64 * length bm \<Longrightarrow> b div 64 < length (bm :: u64 list)"
  by (simp add: less_mult_imp_div_less mult.commute)

lemma bitmap_set_bits:
  assumes "b < 64 * length bm"
  shows "\<exists>bm'. bitmap_set bm b = Some bm' \<and> length bm' = length bm
    \<and> (\<forall>i. bit_at bm' i \<longleftrightarrow> i = b \<or> bit_at bm i)"
  using in_bitmap [OF assms order_refl] bit_at_update [of b bm "set_bit_insn (bm ! (b div 64)) (b mod 64)" True]
  by (auto simp: bitmap_set_def bit_insns)

lemma bitmap_clear_bits:
  assumes "b < 64 * length bm"
  shows "\<exists>bm'. bitmap_clear bm b = Some bm' \<and> length bm' = length bm
    \<and> (\<forall>i. bit_at bm' i \<longleftrightarrow> i \<noteq> b \<and> bit_at bm i)"
  using in_bitmap [OF assms order_refl] bit_at_update [of b bm "clear_bit_insn (bm ! (b div 64)) (b mod 64)" False]
  by (auto simp: bitmap_clear_def bit_insns)

lemma word_test_bit: "(v :: u64) AND 2 ^ b \<noteq> 0 \<longleftrightarrow> bit v b"
proof -
  have "v AND 2 ^ b \<noteq> 0 \<longleftrightarrow> (\<exists>i<64. bit v i \<and> bit (2 ^ b :: u64) i)"
    by (auto simp: bit_eq_iff bit_and_iff dest: bit_imp_le_length)
  also have "\<dots> \<longleftrightarrow> bit v b"
    by (auto simp: bit_exp_iff dest: bit_imp_le_length)
  finally show ?thesis .
qed

lemma bitmap_test_bit:
  assumes "b < 64 * length bm"
  shows "bitmap_test bm b = Some (bit_at bm b)"
  using in_bitmap [OF assms order_refl] by (simp add: bitmap_test_def bit_at_def word_test_bit)

lemma memset_zero_bits:
  "n \<le> 8 * length ws \<Longrightarrow>
   \<exists>ws'. memset_zero ws n = Some ws' \<and> length ws' = length ws
     \<and> (\<forall>i. bit_at ws' i \<longleftrightarrow> 8 * n \<le> i \<and> bit_at ws i)"
proof (induction ws n rule: memset_zero.induct)
  case (3 w ws n)
  show ?case
  proof (cases "Suc n < 8")
    case True
    then show ?thesis
      by (auto simp: bit_at_Cons bit_push_bit_iff bit_drop_bit_eq)
  next
    case False
    then obtain ws' where "memset_zero ws (Suc n - 8) = Some ws'" "length ws' = length ws"
      "\<forall>i. bit_at ws' i \<longleftrightarrow> 8 * (Suc n - 8) \<le> i \<and> bit_at ws i"
      using "3.IH" "3.prems" by fastforce
    with False show ?thesis
      by (auto simp: bit_at_Cons)
  qed
qed auto

lemma BITMAP_BYTES_covers: "n \<le> 8 * BITMAP_BYTES n" "BITMAP_BYTES n \<le> (n + 7) div 8"
  using round_up_nat [of 8 n] by (auto simp: BITMAP_BYTES_def)

section \<open>The interface\<close>

text \<open>
  What a client of a bitmap relies on. \<open>room s n\<close> says that \<open>s\<close> can hold \<open>n\<close> bits, \<open>member\<close> is the
  set it represents.
\<close>

locale bitset =
  fixes room :: "'s \<Rightarrow> nat \<Rightarrow> bool"
    and member :: "'s \<Rightarrow> nat \<Rightarrow> bool"
    and test :: "'s \<Rightarrow> nat \<Rightarrow> bool option"
    and set_b :: "'s \<Rightarrow> nat \<Rightarrow> 's option"
    and clear_b :: "'s \<Rightarrow> nat \<Rightarrow> 's option"
    and first_zero :: "'s \<Rightarrow> nat \<Rightarrow> int option"
  assumes test: "room s n \<Longrightarrow> b < n \<Longrightarrow> test s b = Some (member s b)"
    and set_b: "room s n \<Longrightarrow> b < n \<Longrightarrow>
      \<exists>s'. set_b s b = Some s' \<and> room s' n \<and> (\<forall>i. member s' i \<longleftrightarrow> i = b \<or> member s i)"
    and clear_b: "room s n \<Longrightarrow> b < n \<Longrightarrow>
      \<exists>s'. clear_b s b = Some s' \<and> room s' n \<and> (\<forall>i. member s' i \<longleftrightarrow> i \<noteq> b \<and> member s i)"
    and first_zero: "room s n \<Longrightarrow>
      first_zero s n = Some (bit_result 0 (List.find (\<lambda>i. \<not> member s i) [0..<n]))"
begin

text \<open>Claiming the first free number: it is free, the least such, and taken afterwards.\<close>

lemma claim_free:
  assumes "room s n" and "\<exists>i<n. \<not> member s i"
  obtains b s' where "first_zero s n = Some (int b)" "b < n" "\<not> member s b"
    "\<forall>i<b. member s i" "set_b s b = Some s'" "room s' n" "\<forall>i. member s' i \<longleftrightarrow> i = b \<or> member s i"
proof -
  obtain b where b: "List.find (\<lambda>i. \<not> member s i) [0..<n] = Some b"
    using assms(2) by (cases "List.find (\<lambda>i. \<not> member s i) [0..<n]") (auto simp: find_None_iff)
  then have "b < n" "\<not> member s b" "\<forall>i<b. member s i"
    by (auto simp: find_Some_upt_iff)
  moreover have "first_zero s n = Some (int b)"
    using first_zero [OF assms(1)] b by simp
  moreover obtain s' where "set_b s b = Some s'" "room s' n" "\<forall>i. member s' i \<longleftrightarrow> i = b \<or> member s i"
    using set_b [OF assms(1) \<open>b < n\<close>] by auto
  ultimately show thesis by (blast intro: that)
qed

lemma claim_full:
  assumes "room s n" and "\<forall>i<n. member s i"
  shows "first_zero s n = Some (- 1)"
proof -
  have "List.find (\<lambda>i. \<not> member s i) [0..<n] = None"
    using assms(2) by (auto simp: find_None_iff)
  with first_zero [OF assms(1)] show ?thesis by simp
qed

end

definition bitmap_room :: "u64 list \<Rightarrow> nat \<Rightarrow> bool" where
  "bitmap_room bm n \<longleftrightarrow> n \<le> 64 * length bm"

interpretation bm: bitset bitmap_room bit_at bitmap_test bitmap_set bitmap_clear bitmap_ffz
proof unfold_locales
  fix s :: "u64 list" and n b :: nat
  assume r: "bitmap_room s n"
  then show "bitmap_ffz s n = Some (bit_result 0 (List.find (\<lambda>i. \<not> bit_at s i) [0..<n]))"
    by (simp add: bitmap_room_def bitmap_ffz_def bitmap_ffz_loop_eq)
  assume b: "b < n"
  with r have lt: "b < 64 * length s" by (simp add: bitmap_room_def)
  show "bitmap_test s b = Some (bit_at s b)"
    using lt by (rule bitmap_test_bit)
  show "\<exists>s'. bitmap_set s b = Some s' \<and> bitmap_room s' n \<and> (\<forall>i. bit_at s' i \<longleftrightarrow> i = b \<or> bit_at s i)"
    using bitmap_set_bits [OF lt] r by (auto simp: bitmap_room_def)
  show "\<exists>s'. bitmap_clear s b = Some s' \<and> bitmap_room s' n \<and> (\<forall>i. bit_at s' i \<longleftrightarrow> i \<noteq> b \<and> bit_at s i)"
    using bitmap_clear_bits [OF lt] r by (auto simp: bitmap_room_def)
qed

section \<open>Properties\<close>

text \<open>
  Further property. The word-at-a-time searches equal a bit-by-bit search: \<open>bitmap_ffs\<close> returns the
  lowest set bit below \<open>nbits\<close> and \<open>bitmap_ffz\<close> the lowest clear one, or -1 when there is none, and
  the bits beyond \<open>nbits\<close> in the last word never matter.
\<close>

theorem bitmap_first_bit:
  assumes "nbits \<le> 64 * length bm"
  shows "bitmap_ffs bm nbits =
      Some (case List.find (bit_at bm) [0..<nbits] of None \<Rightarrow> - 1 | Some i \<Rightarrow> int i)
    \<and> bitmap_ffz bm nbits =
      Some (case List.find (\<lambda>i. \<not> bit_at bm i) [0..<nbits] of None \<Rightarrow> - 1 | Some i \<Rightarrow> int i)"
  using bitmap_ffs_loop_eq [OF assms] bitmap_ffz_loop_eq [OF assms]
  by (simp add: bitmap_ffs_def bitmap_ffz_def bit_result_def cong: option.case_cong)

theorem bitmap_first_bit_witness:
  "bitmap_ffs [0, 12] 70 = Some 66 \<and> bitmap_ffz [- 1, 15] 70 = Some 68
   \<and> bitmap_ffz [- 1, 63] 70 = Some (- 1)"
proof -
  have "List.find (bit_at [0, 12]) [0..<70] = Some 66"
    "List.find (\<lambda>i. \<not> bit_at [- 1, 15] i) [0..<70] = Some 68"
    "List.find (\<lambda>i. \<not> bit_at [- 1, 63] i) [0..<70] = None"
    by code_simp+
  then show ?thesis
    using bitmap_first_bit [of 70 "[0, 12]"] bitmap_first_bit [of 70 "[- 1, 15]"]
      bitmap_first_bit [of 70 "[- 1, 63]"] by simp
qed

text \<open>
  Further property. \<open>bitmap_next\<close> returns the lowest set bit strictly after \<open>current\<close> and below \<open>nbits\<close>,
  or -1 when there is none.
\<close>

theorem bitmap_next_bit:
  assumes "nbits \<le> 64 * length bm" and "current < nbits" and "nbits < 2 ^ 64"
  shows "bitmap_next bm nbits current =
    Some (case List.find (\<lambda>i. current < i \<and> bit_at bm i) [0..<nbits] of None \<Rightarrow> - 1 | Some i \<Rightarrow> int i)"
proof -
  have "(current + 1) mod 2 ^ 64 = current + 1"
    using assms(2,3) by simp
  then show ?thesis
    using bitmap_next_loop_eq [of nbits bm "current + 1" 0] assms
    by (simp add: bitmap_next_def bit_result_def Suc_le_eq cong: option.case_cong)
qed

theorem bitmap_next_bit_witness:
  "bitmap_next [5, 12] 70 2 = Some 66 \<and> bitmap_next [5, 12] 70 67 = Some (- 1)"
proof -
  have "List.find (\<lambda>i. 2 < i \<and> bit_at [5, 12] i) [0..<70] = Some 66"
    "List.find (\<lambda>i. 67 < i \<and> bit_at [5, 12] i) [0..<70] = None"
    by code_simp+
  then show ?thesis
    using bitmap_next_bit [of 70 "[5, 12]" 2] bitmap_next_bit [of 70 "[5, 12]" 67] by simp
qed

end
