(* ===== verification/Spinlock.thy ===== *)
theory Spinlock
  imports Kernel_Prelude
begin

text \<open>
  Model of \<open>sync/spinlock.c\<close>. The first part is the lock as one CPU sees it: \<open>value\<close> is 1 when the
  lock is free, and taking a lock that is held does not return (\<open>fatal()\<close> on one processor, an
  endless spin when nobody else runs). The second part is the multiprocessor lock as a step
  relation: every atomic instruction of \<open>spinlock_lock_internal\<close> is one step of one CPU, and the
  CPUs interleave in any order.
\<close>

section \<open>The lock seen by one CPU\<close>

record spinlock =
  sl_value :: int
  sl_state :: bool

definition spinlock_init :: spinlock where
  "spinlock_init = \<lparr>sl_value = 1, sl_state = False\<rparr>"

definition spinlock_held :: "spinlock \<Rightarrow> bool" where
  "spinlock_held l \<longleftrightarrow> sl_value l \<noteq> 1"

definition spinlock_lock_internal :: "spinlock \<Rightarrow> spinlock option" where
  "spinlock_lock_internal l =
     (let old = sl_value l; l = l\<lparr>sl_value := old - 1\<rparr>
      in if old = 1 then Some l else None)"

text \<open>The first argument and result are the interrupt state of the CPU (\<open>True\<close>: enabled).\<close>

definition spinlock_lock :: "bool \<Rightarrow> spinlock \<Rightarrow> (bool \<times> spinlock) option" where
  "spinlock_lock irq l = do {
     let state = irq;
     l \<leftarrow> spinlock_lock_internal l;
     Some (False, l\<lparr>sl_state := state\<rparr>)}"

definition spinlock_lock_noirq :: "bool \<Rightarrow> spinlock \<Rightarrow> (bool \<times> spinlock) option" where
  "spinlock_lock_noirq irq l =
     (if irq then None
      else do {l \<leftarrow> spinlock_lock_internal l; Some (irq, l)})"

definition spinlock_unlock :: "bool \<Rightarrow> spinlock \<Rightarrow> (bool \<times> spinlock) option" where
  "spinlock_unlock irq l =
     (if \<not> spinlock_held l then None
      else let state = sl_state l in Some (state, l\<lparr>sl_value := 1\<rparr>))"

definition spinlock_unlock_noirq :: "bool \<Rightarrow> spinlock \<Rightarrow> (bool \<times> spinlock) option" where
  "spinlock_unlock_noirq irq l =
     (if \<not> spinlock_held l then None else Some (irq, l\<lparr>sl_value := 1\<rparr>))"

text \<open>
  Components that only need mutual exclusion run with interrupts enabled on entry and drop the
  interrupt state.
\<close>

definition spin_lock :: "spinlock \<Rightarrow> spinlock option" where
  "spin_lock l = map_option snd (spinlock_lock True l)"

definition spin_unlock :: "spinlock \<Rightarrow> spinlock option" where
  "spin_unlock l = map_option snd (spinlock_unlock False l)"

definition spin_free :: "spinlock \<Rightarrow> bool" where
  "spin_free l \<longleftrightarrow> sl_value l = 1"

definition spin_taken :: "spinlock \<Rightarrow> spinlock" where
  "spin_taken l = l\<lparr>sl_value := 0, sl_state := True\<rparr>"

definition spin_released :: "spinlock \<Rightarrow> spinlock" where
  "spin_released l = l\<lparr>sl_value := 1, sl_state := True\<rparr>"

lemma spin_lock_eq [kernel_step]:
  "spin_lock l = (if spin_free l then Some (spin_taken l) else None)"
  by (auto simp: spin_lock_def spinlock_lock_def spinlock_lock_internal_def Let_def
      spin_free_def spin_taken_def)

lemma spin_unlock_taken [kernel_step]: "spin_unlock (spin_taken l) = Some (spin_released l)"
  by (simp add: spin_unlock_def spinlock_unlock_def spinlock_held_def spin_taken_def
      spin_released_def Let_def)

lemma spin_free_released [simp]: "spin_free (spin_released l)"
  by (simp add: spin_free_def spin_released_def)

lemma spin_free_taken [simp]: "\<not> spin_free (spin_taken l)"
  by (simp add: spin_free_def spin_taken_def)

lemma spin_free_init [simp]: "spin_free spinlock_init"
  by (simp add: spin_free_def spinlock_init_def)

lemma spin_lock_twice: "spin_lock (spin_taken l) = None"
  by (simp add: spin_lock_eq)

text \<open>Taking and releasing the lock restores the interrupt state of the caller.\<close>

lemma spinlock_irq_roundtrip:
  "spinlock_lock irq l = Some (irq', l') \<Longrightarrow>
   irq' = False \<and> spinlock_unlock irq' l' = Some (irq, l'\<lparr>sl_value := 1\<rparr>)"
  by (auto simp: spinlock_lock_def spinlock_lock_internal_def spinlock_unlock_def spinlock_held_def
      Let_def split: if_splits)

section \<open>The lock under interleaving of CPUs\<close>

text \<open>
  Where a CPU is in \<open>spinlock_lock_internal\<close>: outside the lock, in the inner \<open>while\<close> that waits
  for \<open>value\<close> to become 1, between having seen 1 and its second \<open>atomic_dec\<close>, or inside.
\<close>

datatype spin_pc = Outside | Spin | TryDec | Inside

record spin_sys =
  sp_value :: int
  sp_pc :: "nat \<Rightarrow> spin_pc"

definition spin_start :: spin_sys where
  "spin_start = \<lparr>sp_value = 1, sp_pc = (\<lambda>_. Outside)\<rparr>"

inductive spin_step :: "nat \<Rightarrow> spin_sys \<Rightarrow> spin_sys \<Rightarrow> bool" for ncpus :: nat where
  first_dec: "c < ncpus \<Longrightarrow> sp_pc s c = Outside \<Longrightarrow>
     spin_step ncpus s (s\<lparr>sp_value := sp_value s - 1,
       sp_pc := (sp_pc s)(c := if sp_value s = 1 then Inside else Spin)\<rparr>)"
| spin_wait: "c < ncpus \<Longrightarrow> sp_pc s c = Spin \<Longrightarrow> sp_value s \<noteq> 1 \<Longrightarrow> spin_step ncpus s s"
| spin_seen: "c < ncpus \<Longrightarrow> sp_pc s c = Spin \<Longrightarrow> sp_value s = 1 \<Longrightarrow>
     spin_step ncpus s (s\<lparr>sp_pc := (sp_pc s)(c := TryDec)\<rparr>)"
| try_dec: "c < ncpus \<Longrightarrow> sp_pc s c = TryDec \<Longrightarrow>
     spin_step ncpus s (s\<lparr>sp_value := sp_value s - 1,
       sp_pc := (sp_pc s)(c := if sp_value s = 1 then Inside else Spin)\<rparr>)"
| unlock: "c < ncpus \<Longrightarrow> sp_pc s c = Inside \<Longrightarrow>
     spin_step ncpus s (s\<lparr>sp_value := 1, sp_pc := (sp_pc s)(c := Outside)\<rparr>)"

inductive_cases spin_stepE: "spin_step ncpus s t"

inductive spin_reachable :: "nat \<Rightarrow> spin_sys \<Rightarrow> bool" for ncpus :: nat where
  spin_init: "spin_reachable ncpus spin_start"
| spin_next: "spin_reachable ncpus s \<Longrightarrow> spin_step ncpus s t \<Longrightarrow> spin_reachable ncpus t"

text \<open>CPUs that have decremented \<open>value\<close> since the last release.\<close>

definition spin_counted :: "spin_sys \<Rightarrow> nat set" where
  "spin_counted s = {c. sp_pc s c = Spin \<or> sp_pc s c = Inside}"

definition spin_inv :: "nat \<Rightarrow> spin_sys \<Rightarrow> bool" where
  "spin_inv ncpus s \<longleftrightarrow>
     sp_value s \<le> 1
   \<and> (sp_value s = 1 \<longleftrightarrow> (\<forall>c. sp_pc s c \<noteq> Inside))
   \<and> (\<forall>c d. sp_pc s c = Inside \<longrightarrow> sp_pc s d = Inside \<longrightarrow> c = d)
   \<and> (\<forall>c. sp_pc s c \<noteq> Outside \<longrightarrow> c < ncpus)
   \<and> 1 - int (card (spin_counted s)) \<le> sp_value s"

lemma spin_counted_finite: "spin_inv ncpus s \<Longrightarrow> finite (spin_counted s)"
  by (rule finite_subset [of _ "{..<ncpus}"]) (auto simp: spin_inv_def spin_counted_def)

lemma spin_counted_enter:
  assumes "x = Spin \<or> x = Inside"
  shows "spin_counted (s\<lparr>sp_value := v, sp_pc := (sp_pc s)(c := x)\<rparr>) = insert c (spin_counted s)"
  using assms by (auto simp: spin_counted_def)

lemma spin_inv_dec:
  assumes inv: "spin_inv ncpus s" and c: "c < ncpus" "sp_pc s c = Outside \<or> sp_pc s c = TryDec"
  shows "spin_inv ncpus (s\<lparr>sp_value := sp_value s - 1,
    sp_pc := (sp_pc s)(c := if sp_value s = 1 then Inside else Spin)\<rparr>)"
proof -
  have new: "c \<notin> spin_counted s" using c by (auto simp: spin_counted_def)
  have "card (insert c (spin_counted s)) = Suc (card (spin_counted s))"
    using new spin_counted_finite [OF inv] by simp
  then show ?thesis
    using inv c unfolding spin_inv_def
    by (auto simp: spin_counted_enter) (metis spin_pc.distinct)+
qed

lemma spin_inv_step: "spin_inv ncpus s \<Longrightarrow> spin_step ncpus s t \<Longrightarrow> spin_inv ncpus t"
proof (erule spin_stepE)
  fix c assume "spin_inv ncpus s" "c < ncpus" "sp_pc s c = Outside"
    "t = s\<lparr>sp_value := sp_value s - 1, sp_pc := (sp_pc s)(c := if sp_value s = 1 then Inside else Spin)\<rparr>"
  then show ?thesis using spin_inv_dec by blast
next
  fix c assume "spin_inv ncpus s" "c < ncpus" "sp_pc s c = TryDec"
    "t = s\<lparr>sp_value := sp_value s - 1, sp_pc := (sp_pc s)(c := if sp_value s = 1 then Inside else Spin)\<rparr>"
  then show ?thesis using spin_inv_dec by blast
next
  fix c assume "spin_inv ncpus s" "sp_pc s c = Spin" "sp_value s = 1" "c < ncpus"
    "t = s\<lparr>sp_pc := (sp_pc s)(c := TryDec)\<rparr>"
  then show ?thesis by (auto simp: spin_inv_def)
next
  fix c assume "spin_inv ncpus s" "sp_pc s c = Inside" "c < ncpus"
    "t = s\<lparr>sp_value := 1, sp_pc := (sp_pc s)(c := Outside)\<rparr>"
  then show ?thesis by (auto simp: spin_inv_def)
qed auto

lemma spin_reachable_inv: "spin_reachable ncpus s \<Longrightarrow> spin_inv ncpus s"
proof (induction rule: spin_reachable.induct)
  case spin_init
  show ?case by (auto simp: spin_inv_def spin_start_def spin_counted_def)
next
  case (spin_next s t)
  then show ?case by (blast intro: spin_inv_step)
qed

lemma spin_value_bound: "spin_inv ncpus s \<Longrightarrow> 1 - int ncpus \<le> sp_value s"
proof -
  assume inv: "spin_inv ncpus s"
  have "spin_counted s \<subseteq> {..<ncpus}" using inv by (auto simp: spin_inv_def spin_counted_def)
  then have "card (spin_counted s) \<le> ncpus" using card_mono [of "{..<ncpus}"] by simp
  with inv show ?thesis by (simp add: spin_inv_def)
qed

section \<open>Properties\<close>

text \<open>
  Property C17. In every state that any interleaving of \<open>ncpus\<close> CPUs can reach, at most one CPU is
  inside the lock, \<open>value\<close> is 1 exactly when the lock is free, and \<open>value\<close> never falls below
  \<open>1 - ncpus\<close>: the decrements of waiting CPUs cannot wrap the counter around.
\<close>

theorem spinlock_mutual_exclusion:
  assumes "spin_reachable ncpus s"
  shows "(\<forall>c d. sp_pc s c = Inside \<and> sp_pc s d = Inside \<longrightarrow> c = d)
    \<and> (sp_value s = 1 \<longleftrightarrow> (\<forall>c. sp_pc s c \<noteq> Inside))
    \<and> 1 - int ncpus \<le> sp_value s \<and> sp_value s \<le> 1"
  using spin_reachable_inv [OF assms] spin_value_bound [of ncpus s]
  by (auto simp: spin_inv_def)

definition spin_two :: spin_sys where
  "spin_two = \<lparr>sp_value = - 1, sp_pc = (\<lambda>_. Outside)(0 := Inside, 1 := Spin)\<rparr>"

lemma spin_two_reachable: "spin_reachable 2 spin_two"
proof -
  let ?a = "\<lparr>sp_value = 0, sp_pc = (\<lambda>_. Outside)(0 := Inside)\<rparr>"
  have "spin_step 2 spin_start ?a"
    using spin_step.first_dec [of 0 2 spin_start] by (simp add: spin_start_def)
  then have a: "spin_reachable 2 ?a"
    by (rule spin_reachable.spin_next [OF spin_reachable.spin_init])
  have "spin_step 2 ?a spin_two"
    using spin_step.first_dec [of 1 2 ?a] by (simp add: spin_two_def)
  with a show ?thesis by (rule spin_reachable.spin_next)
qed

theorem spinlock_mutual_exclusion_witness:
  "sp_pc spin_two 0 = Inside \<and> sp_pc spin_two 1 \<noteq> Inside \<and> - 1 \<le> sp_value spin_two
   \<and> sp_value spin_two \<noteq> 1"
  using spinlock_mutual_exclusion [OF spin_two_reachable]
  by (simp add: spin_two_def)

text \<open>
  Further property. A CPU that waits for the lock is never locked out: whenever no CPU is inside, a
  waiting CPU that takes the next two steps is inside the lock.
\<close>

theorem spinlock_waiter_can_enter:
  assumes "spin_reachable ncpus s" and "\<forall>d. sp_pc s d \<noteq> Inside" and "sp_pc s c = Spin"
  shows "\<exists>t u. spin_step ncpus s t \<and> spin_step ncpus t u \<and> sp_pc u c = Inside"
proof -
  let ?t = "s\<lparr>sp_pc := (sp_pc s)(c := TryDec)\<rparr>"
  have v: "sp_value s = 1" and c: "c < ncpus"
    using spin_reachable_inv [OF assms(1)] assms(2,3) by (auto simp: spin_inv_def)
  have "spin_step ncpus s ?t"
    using c assms(3) v by (rule spin_step.spin_seen)
  moreover have "spin_step ncpus ?t (?t\<lparr>sp_value := sp_value ?t - 1,
      sp_pc := (sp_pc ?t)(c := if sp_value ?t = 1 then Inside else Spin)\<rparr>)"
    (is "spin_step _ _ ?u")
    using c by (intro spin_step.try_dec) simp_all
  moreover have "sp_pc ?u c = Inside"
    using v by simp
  ultimately show ?thesis by blast
qed

definition spin_one_waits :: spin_sys where
  "spin_one_waits = \<lparr>sp_value = 1, sp_pc = (\<lambda>_. Outside)(1 := Spin)\<rparr>"

lemma spin_one_waits_reachable: "spin_reachable 2 spin_one_waits"
proof -
  have "spin_step 2 spin_two (spin_two\<lparr>sp_value := 1, sp_pc := (sp_pc spin_two)(0 := Outside)\<rparr>)"
    by (rule spin_step.unlock) (simp_all add: spin_two_def)
  moreover have "spin_two\<lparr>sp_value := 1, sp_pc := (sp_pc spin_two)(0 := Outside)\<rparr> = spin_one_waits"
    by (auto simp: spin_two_def spin_one_waits_def fun_upd_twist)
  ultimately show ?thesis
    using spin_two_reachable by (auto intro: spin_reachable.spin_next)
qed

theorem spinlock_waiter_can_enter_witness:
  "\<exists>t u. spin_step 2 spin_one_waits t \<and> spin_step 2 t u \<and> sp_pc u 1 = Inside"
  by (rule spinlock_waiter_can_enter [OF spin_one_waits_reachable])
    (simp_all add: spin_one_waits_def)

end
