(* ===== verification/Id_Allocator.thy ===== *)
theory Id_Allocator
  imports Bitmap Spinlock
begin

text \<open>
  Model of \<open>lib/id_allocator.c\<close>, the allocator of small integer identifiers (process, thread and
  address space IDs): a bitmap of the IDs in use under a spinlock. It is a client of the \<open>bitset\<close>
  interface, and it refines an abstract specification that keeps only the set of IDs in use.
\<close>

section \<open>State and operations\<close>

text \<open>The bitmap pointer is \<open>None\<close> after an initialisation that ran out of memory.\<close>

record id_allocator =
  ida_lock :: spinlock
  ida_bitmap :: "u64 list option"
  ida_nbits :: nat

text \<open>C's conversions of \<open>long\<close> to \<open>int32_t\<close> and of \<open>int32_t\<close> to \<open>unsigned long\<close>.\<close>

definition i32_of_long :: "int \<Rightarrow> int" where
  "i32_of_long r = signed_take_bit 31 r"

definition ulong_of_i32 :: "int \<Rightarrow> nat" where
  "ulong_of_i32 i = nat (i mod 2 ^ 64)"

definition id_allocator_alloc :: "id_allocator \<Rightarrow> (int \<times> id_allocator) option" where
  "id_allocator_alloc alloc = do {
     lock \<leftarrow> spin_lock (ida_lock alloc);
     bitmap \<leftarrow> ida_bitmap alloc;
     r \<leftarrow> bitmap_ffz bitmap (ida_nbits alloc);
     let i = i32_of_long r;
     if i < 0 then do {
       lock \<leftarrow> spin_unlock lock;
       Some (- 1, alloc\<lparr>ida_lock := lock\<rparr>)}
     else do {
       bitmap \<leftarrow> bitmap_set bitmap (ulong_of_i32 i);
       lock \<leftarrow> spin_unlock lock;
       Some (i, alloc\<lparr>ida_lock := lock, ida_bitmap := Some bitmap\<rparr>)}}"

definition id_allocator_free :: "id_allocator \<Rightarrow> int \<Rightarrow> id_allocator option" where
  "id_allocator_free alloc i = do {
     lock \<leftarrow> spin_lock (ida_lock alloc);
     bitmap \<leftarrow> ida_bitmap alloc;
     used \<leftarrow> bitmap_test bitmap (ulong_of_i32 i);
     if \<not> used then None
     else do {
       bitmap \<leftarrow> bitmap_clear bitmap (ulong_of_i32 i);
       lock \<leftarrow> spin_unlock lock;
       Some (alloc\<lparr>ida_lock := lock, ida_bitmap := Some bitmap\<rparr>)}}"

definition id_allocator_reserve :: "id_allocator \<Rightarrow> int \<Rightarrow> id_allocator option" where
  "id_allocator_reserve alloc i = do {
     lock \<leftarrow> spin_lock (ida_lock alloc);
     bitmap \<leftarrow> ida_bitmap alloc;
     used \<leftarrow> bitmap_test bitmap (ulong_of_i32 i);
     if used then None
     else do {
       bitmap \<leftarrow> bitmap_set bitmap (ulong_of_i32 i);
       lock \<leftarrow> spin_unlock lock;
       Some (alloc\<lparr>ida_lock := lock, ida_bitmap := Some bitmap\<rparr>)}}"

text \<open>\<open>max + 1\<close> is computed in \<open>int32_t\<close>: it overflows for the largest value.\<close>

definition id_allocator_init ::
    "(nat \<Rightarrow> u64 list option) \<Rightarrow> int \<Rightarrow> (status \<times> id_allocator) option" where
  "id_allocator_init kmalloc max_id =
     (if max_id = 2 ^ 31 - 1 then None
      else do {
        let nbits = ulong_of_i32 (max_id + 1);
        bitmap \<leftarrow> bitmap_alloc kmalloc nbits;
        Some (if bitmap \<noteq> None then STATUS_SUCCESS else STATUS_NO_MEMORY,
          \<lparr>ida_lock = spinlock_init, ida_bitmap = bitmap, ida_nbits = nbits\<rparr>)})"

text \<open>\<open>id_allocator_destroy\<close> frees the bitmap; the pointer left behind is not used again.\<close>

definition id_allocator_destroy :: "id_allocator \<Rightarrow> id_allocator" where
  "id_allocator_destroy alloc = alloc\<lparr>ida_bitmap := None\<rparr>"

section \<open>Specification: the set of IDs in use\<close>

datatype ida_op = Ida_Alloc | Ida_Free int | Ida_Reserve int

definition ids_step :: "nat \<Rightarrow> ida_op \<Rightarrow> nat set \<Rightarrow> (int \<times> nat set) option" where
  "ids_step n x S =
     (case x of
        Ida_Alloc \<Rightarrow>
          Some (case List.find (\<lambda>i. i \<notin> S) [0..<n] of
                  None \<Rightarrow> (- 1, S) | Some i \<Rightarrow> (int i, insert i S))
      | Ida_Free i \<Rightarrow> if 0 \<le> i \<and> nat i < n \<and> nat i \<in> S then Some (0, S - {nat i}) else None
      | Ida_Reserve i \<Rightarrow>
          if 0 \<le> i \<and> nat i < n \<and> nat i \<notin> S then Some (0, insert (nat i) S) else None)"

primrec ids_run :: "nat \<Rightarrow> ida_op list \<Rightarrow> nat set \<Rightarrow> (int list \<times> nat set) option" where
  "ids_run n [] S = Some ([], S)"
| "ids_run n (x # xs) S = do {
     (r, S) \<leftarrow> ids_step n x S;
     (rs, S) \<leftarrow> ids_run n xs S;
     Some (r # rs, S)}"

definition ida_step :: "ida_op \<Rightarrow> id_allocator \<Rightarrow> (int \<times> id_allocator) option" where
  "ida_step x alloc =
     (case x of
        Ida_Alloc \<Rightarrow> id_allocator_alloc alloc
      | Ida_Free i \<Rightarrow> map_option (Pair 0) (id_allocator_free alloc i)
      | Ida_Reserve i \<Rightarrow> map_option (Pair 0) (id_allocator_reserve alloc i))"

primrec ida_run :: "ida_op list \<Rightarrow> id_allocator \<Rightarrow> (int list \<times> id_allocator) option" where
  "ida_run [] alloc = Some ([], alloc)"
| "ida_run (x # xs) alloc = do {
     (r, alloc) \<leftarrow> ida_step x alloc;
     (rs, alloc) \<leftarrow> ida_run xs alloc;
     Some (r # rs, alloc)}"

section \<open>Invariant and abstraction\<close>

definition ida_bits :: "id_allocator \<Rightarrow> nat \<Rightarrow> bool" where
  "ida_bits alloc i = (case ida_bitmap alloc of None \<Rightarrow> False | Some bm \<Rightarrow> bit_at bm i)"

definition ids_of :: "id_allocator \<Rightarrow> nat set" where
  "ids_of alloc = {i. i < ida_nbits alloc \<and> ida_bits alloc i}"

definition ida_inv :: "id_allocator \<Rightarrow> bool" where
  "ida_inv alloc \<longleftrightarrow> spin_free (ida_lock alloc) \<and> ida_nbits alloc \<le> 2 ^ 31
     \<and> (case ida_bitmap alloc of None \<Rightarrow> False | Some bm \<Rightarrow> bitmap_room bm (ida_nbits alloc))"

lemma ida_invE:
  assumes "ida_inv alloc"
  obtains bm where "ida_bitmap alloc = Some bm" "bitmap_room bm (ida_nbits alloc)"
    "spin_free (ida_lock alloc)" "ida_nbits alloc \<le> 2 ^ 31"
  using assms by (auto simp: ida_inv_def split: option.splits)

lemma i32_of_long_small: "- 1 \<le> r \<Longrightarrow> r < 2 ^ 31 \<Longrightarrow> i32_of_long r = r"
  by (simp add: i32_of_long_def signed_take_bit_int_eq_self)

lemma ulong_of_i32_nonneg: "0 \<le> i \<Longrightarrow> i < 2 ^ 64 \<Longrightarrow> ulong_of_i32 i = nat i"
  by (simp add: ulong_of_i32_def)

lemmas ida_unfold = id_allocator_alloc_def id_allocator_free_def id_allocator_reserve_def
  spin_lock_eq spin_unlock_taken Let_def

text \<open>One operation refines one step of the specification.\<close>

lemma ida_alloc_refines:
  assumes "ida_inv alloc"
  obtains alloc' where
    "id_allocator_alloc alloc =
       Some (case List.find (\<lambda>i. i \<notin> ids_of alloc) [0..<ida_nbits alloc] of
               None \<Rightarrow> - 1 | Some i \<Rightarrow> int i, alloc')"
    "ida_inv alloc'" "ida_nbits alloc' = ida_nbits alloc"
    "ids_of alloc' = (case List.find (\<lambda>i. i \<notin> ids_of alloc) [0..<ida_nbits alloc] of
       None \<Rightarrow> ids_of alloc | Some i \<Rightarrow> insert i (ids_of alloc))"
  using assms
proof (rule ida_invE)
  fix bm assume bm: "ida_bitmap alloc = Some bm" and room: "bitmap_room bm (ida_nbits alloc)"
    and free: "spin_free (ida_lock alloc)" and n: "ida_nbits alloc \<le> 2 ^ 31"
  have find_eq: "List.find (\<lambda>i. i \<notin> ids_of alloc) [0..<ida_nbits alloc]
      = List.find (\<lambda>i. \<not> bit_at bm i) [0..<ida_nbits alloc]"
    by (rule find_cong_upt) (simp add: ids_of_def ida_bits_def bm)
  show thesis
  proof (cases "\<exists>i < ida_nbits alloc. \<not> bit_at bm i")
    case True
    obtain b bm' where b: "bitmap_ffz bm (ida_nbits alloc) = Some (int b)" "b < ida_nbits alloc"
        "\<not> bit_at bm b" "\<forall>i<b. bit_at bm i" "bitmap_set bm b = Some bm'"
        "bitmap_room bm' (ida_nbits alloc)" "\<forall>i. bit_at bm' i \<longleftrightarrow> i = b \<or> bit_at bm i"
      using bm.claim_free [OF room True] by blast
    have conv: "i32_of_long (int b) = int b" "ulong_of_i32 (int b) = b"
      using b(2) n by (simp_all add: i32_of_long_small ulong_of_i32_nonneg)
    let ?a = "alloc\<lparr>ida_lock := spin_released (ida_lock alloc), ida_bitmap := Some bm'\<rparr>"
    have found: "List.find (\<lambda>i. i \<notin> ids_of alloc) [0..<ida_nbits alloc] = Some b"
      unfolding find_eq using b by (simp add: find_Some_upt_iff)
    have ids: "ids_of ?a = insert b (ids_of alloc)"
      using b by (auto simp: ids_of_def ida_bits_def bm)
    show thesis
      by (rule that [of ?a])
        (use b conv found ids free n in \<open>simp_all add: ida_unfold bm ida_inv_def\<close>)
  next
    case False
    then have full: "bitmap_ffz bm (ida_nbits alloc) = Some (- 1)"
      using bm.claim_full [OF room] by blast
    let ?a = "alloc\<lparr>ida_lock := spin_released (ida_lock alloc)\<rparr>"
    have none: "List.find (\<lambda>i. i \<notin> ids_of alloc) [0..<ida_nbits alloc] = None"
      unfolding find_eq using False by (auto simp: find_None_iff)
    have ids: "ids_of ?a = ids_of alloc"
      by (auto simp: ids_of_def ida_bits_def)
    show thesis
      by (rule that [of ?a])
        (use full none ids free n room in \<open>simp_all add: ida_unfold bm ida_inv_def i32_of_long_small\<close>)
  qed
qed

lemma ida_update_inv:
  assumes "ida_inv alloc" and "bitmap_room bm' (ida_nbits alloc)"
  shows "ida_inv (alloc\<lparr>ida_lock := spin_released (ida_lock alloc), ida_bitmap := Some bm'\<rparr>)"
  using assms by (auto simp: ida_inv_def split: option.splits)

lemma ida_free_refines:
  assumes inv: "ida_inv alloc" and i: "0 \<le> i" "nat i < ida_nbits alloc" "nat i \<in> ids_of alloc"
  shows "\<exists>alloc'. id_allocator_free alloc i = Some alloc' \<and> ida_inv alloc'
    \<and> ida_nbits alloc' = ida_nbits alloc \<and> ids_of alloc' = ids_of alloc - {nat i}"
proof -
  from inv obtain bm where bm: "ida_bitmap alloc = Some bm" "bitmap_room bm (ida_nbits alloc)"
    "spin_free (ida_lock alloc)" "ida_nbits alloc \<le> 2 ^ 31" by (rule ida_invE)
  have conv: "ulong_of_i32 i = nat i" using i bm(4) by (simp add: ulong_of_i32_nonneg)
  obtain bm' where bm': "bitmap_clear bm (nat i) = Some bm'" "bitmap_room bm' (ida_nbits alloc)"
    "\<forall>j. bit_at bm' j \<longleftrightarrow> j \<noteq> nat i \<and> bit_at bm j"
    using bm.clear_b [OF bm(2) i(2)] by blast
  show ?thesis
    using bm bm' conv i bm.test [OF bm(2) i(2)] ida_update_inv [OF inv bm'(2)]
    by (auto simp: ida_unfold ids_of_def ida_bits_def)
qed

lemma ida_reserve_refines:
  assumes inv: "ida_inv alloc" and i: "0 \<le> i" "nat i < ida_nbits alloc" "nat i \<notin> ids_of alloc"
  shows "\<exists>alloc'. id_allocator_reserve alloc i = Some alloc' \<and> ida_inv alloc'
    \<and> ida_nbits alloc' = ida_nbits alloc \<and> ids_of alloc' = insert (nat i) (ids_of alloc)"
proof -
  from inv obtain bm where bm: "ida_bitmap alloc = Some bm" "bitmap_room bm (ida_nbits alloc)"
    "spin_free (ida_lock alloc)" "ida_nbits alloc \<le> 2 ^ 31" by (rule ida_invE)
  have conv: "ulong_of_i32 i = nat i" using i bm(4) by (simp add: ulong_of_i32_nonneg)
  obtain bm' where bm': "bitmap_set bm (nat i) = Some bm'" "bitmap_room bm' (ida_nbits alloc)"
    "\<forall>j. bit_at bm' j \<longleftrightarrow> j = nat i \<or> bit_at bm j"
    using bm.set_b [OF bm(2) i(2)] by blast
  show ?thesis
    using bm bm' conv i bm.test [OF bm(2) i(2)] ida_update_inv [OF inv bm'(2)]
    by (auto simp: ida_unfold ids_of_def ida_bits_def)
qed

lemma ida_step_refines:
  assumes "ida_inv alloc" and "ids_step (ida_nbits alloc) x (ids_of alloc) = Some (r, S)"
  shows "\<exists>alloc'. ida_step x alloc = Some (r, alloc') \<and> ida_inv alloc'
    \<and> ida_nbits alloc' = ida_nbits alloc \<and> ids_of alloc' = S"
proof (cases x)
  case Ida_Alloc
  with assms(2) show ?thesis
    using ida_alloc_refines [OF assms(1)]
    by (cases "List.find (\<lambda>i. i \<notin> ids_of alloc) [0..<ida_nbits alloc]")
      (force simp: ids_step_def ida_step_def)+
next
  case (Ida_Free i)
  with assms(2) show ?thesis
    using ida_free_refines [OF assms(1), of i]
    by (auto simp: ids_step_def ida_step_def split: if_splits)
next
  case (Ida_Reserve i)
  with assms(2) show ?thesis
    using ida_reserve_refines [OF assms(1), of i]
    by (auto simp: ids_step_def ida_step_def split: if_splits)
qed

lemma ida_run_refines_aux:
  "ida_inv alloc \<Longrightarrow> ids_run (ida_nbits alloc) xs (ids_of alloc) = Some (rs, S) \<Longrightarrow>
   \<exists>alloc'. ida_run xs alloc = Some (rs, alloc') \<and> ida_inv alloc' \<and> ids_of alloc' = S"
proof (induction xs arbitrary: alloc rs)
  case (Cons x xs)
  from Cons.prems(2) obtain r S1 rs1 where
    s: "ids_step (ida_nbits alloc) x (ids_of alloc) = Some (r, S1)"
    "ids_run (ida_nbits alloc) xs S1 = Some (rs1, S)" "rs = r # rs1"
    by (auto split: prod.splits)
  obtain a1 where a1: "ida_step x alloc = Some (r, a1)" "ida_inv a1"
    "ida_nbits a1 = ida_nbits alloc" "ids_of a1 = S1"
    using ida_step_refines [OF Cons.prems(1) s(1)] by blast
  with Cons.IH [of a1 rs1] s show ?case by auto
qed simp

section \<open>Properties\<close>

text \<open>
  Further property. Initialisation: with an allocator \<open>kmalloc\<close> that returns blocks at least as large as
  asked for (and a byte count rounded to whole words), every maximum below the \<open>int32_t\<close> limit gives
  either \<open>STATUS_NO_MEMORY\<close> or an allocator in its invariant with \<open>max + 1\<close> IDs, all of them free,
  whatever the block held before.
\<close>

theorem id_allocator_init_ok:
  assumes "\<forall>n ws. kmalloc n = Some ws \<longrightarrow> n \<le> 8 * length ws"
    and "0 \<le> max_id" and "max_id < 2 ^ 31 - 1"
  shows "\<exists>st alloc. id_allocator_init kmalloc max_id = Some (st, alloc)
    \<and> (if kmalloc (BITMAP_BYTES (nat max_id + 1)) = None then st = STATUS_NO_MEMORY
       else st = STATUS_SUCCESS \<and> ida_inv alloc \<and> ids_of alloc = {} \<and> ida_nbits alloc = nat max_id + 1)"
proof -
  let ?n = "nat max_id + 1"
  have n: "ulong_of_i32 (max_id + 1) = ?n"
    using assms(2,3) by (simp add: ulong_of_i32_nonneg nat_add_distrib)
  show ?thesis
  proof (cases "kmalloc (BITMAP_BYTES ?n)")
    case None
    with n assms(3) show ?thesis
      by (simp add: id_allocator_init_def bitmap_alloc_def)
  next
    case (Some ws)
    then obtain ws' where ws': "memset_zero ws (BITMAP_BYTES ?n) = Some ws'" "length ws' = length ws"
      "\<forall>i. bit_at ws' i \<longleftrightarrow> 8 * BITMAP_BYTES ?n \<le> i \<and> bit_at ws i"
      using memset_zero_bits [of "BITMAP_BYTES ?n" ws] assms(1) by blast
    have "?n \<le> 64 * length ws'"
      using BITMAP_BYTES_covers(1) [of ?n] assms(1) Some ws'(2) by fastforce
    moreover have "\<not> bit_at ws' i" if "i < ?n" for i
      using that ws'(3) BITMAP_BYTES_covers(1) [of ?n] by auto
    ultimately show ?thesis
      using n Some ws' assms(2,3)
      by (auto simp: id_allocator_init_def bitmap_alloc_def bitmap_zero_def ida_inv_def
          bitmap_room_def ids_of_def ida_bits_def)
  qed
qed

text \<open>A block whose memory is all ones, to show that initialisation clears it.\<close>

definition ones_kmalloc :: "nat \<Rightarrow> u64 list option" where
  "ones_kmalloc n = Some (replicate ((n + 7) div 8) (- 1))"

theorem id_allocator_init_ok_witness:
  "\<exists>alloc. id_allocator_init ones_kmalloc 2 = Some (STATUS_SUCCESS, alloc)
    \<and> ida_inv alloc \<and> ids_of alloc = {} \<and> ida_nbits alloc = 3"
proof -
  have "\<forall>n ws. ones_kmalloc n = Some ws \<longrightarrow> n \<le> 8 * length ws"
    by (auto simp: ones_kmalloc_def)
  then show ?thesis
    using id_allocator_init_ok [of ones_kmalloc 2] by (auto simp: ones_kmalloc_def)
qed

text \<open>
  Property C18. The allocator refines the set-of-IDs specification: for every sequence of allocations,
  releases of IDs in use and reservations of free IDs, no assertion fails, every call returns what
  the specification returns (the least free ID, or -1 when all are in use), and the allocator ends
  with exactly the specified IDs in use.
\<close>

theorem id_allocator_refines_set:
  assumes "ida_inv alloc" and "ids_run (ida_nbits alloc) xs (ids_of alloc) = Some (rs, S)"
  shows "\<exists>alloc'. ida_run xs alloc = Some (rs, alloc') \<and> ida_inv alloc' \<and> ids_of alloc' = S"
  using assms by (rule ida_run_refines_aux)

definition three_ids :: id_allocator where
  "three_ids = \<lparr>ida_lock = spinlock_init, ida_bitmap = Some [0], ida_nbits = 3\<rparr>"

lemma three_ids_start: "ida_inv three_ids" "ids_of three_ids = {}"
  by (simp_all add: three_ids_def ida_inv_def bitmap_room_def ids_of_def ida_bits_def bit_at_def)

theorem id_allocator_refines_set_witness:
  "\<exists>alloc'. ida_run [Ida_Reserve 1, Ida_Alloc, Ida_Alloc, Ida_Alloc, Ida_Free 1, Ida_Alloc] three_ids
      = Some ([0, 0, 2, - 1, 0, 1], alloc')
    \<and> ida_inv alloc' \<and> ids_of alloc' = {0, 1, 2}"
proof -
  have "ids_run 3 [Ida_Reserve 1, Ida_Alloc, Ida_Alloc, Ida_Alloc, Ida_Free 1, Ida_Alloc] {}
      = Some ([0, 0, 2, - 1, 0, 1], {0, 1, 2})"
    by (auto simp: ids_step_def upt_rec)
  then have "ids_run (ida_nbits three_ids)
      [Ida_Reserve 1, Ida_Alloc, Ida_Alloc, Ida_Alloc, Ida_Free 1, Ida_Alloc] (ids_of three_ids)
      = Some ([0, 0, 2, - 1, 0, 1], {0, 1, 2})"
    by (simp only: three_ids_start(2)) (simp add: three_ids_def)
  with three_ids_start(1) show ?thesis
    by (rule id_allocator_refines_set)
qed

text \<open>
  Further property. Releasing an ID that is not in use, or reserving one that is, fails the assertion:
  the kernel stops instead of corrupting the set.
\<close>

theorem id_allocator_misuse_halts:
  assumes "ida_inv alloc" and "0 \<le> i" and "nat i < ida_nbits alloc"
  shows "(nat i \<notin> ids_of alloc \<longrightarrow> id_allocator_free alloc i = None)
    \<and> (nat i \<in> ids_of alloc \<longrightarrow> id_allocator_reserve alloc i = None)"
proof -
  from assms(1) obtain bm where bm: "ida_bitmap alloc = Some bm" "bitmap_room bm (ida_nbits alloc)"
    "ida_nbits alloc \<le> 2 ^ 31" by (rule ida_invE)
  have "ulong_of_i32 i = nat i" using assms(2,3) bm(3) by (simp add: ulong_of_i32_nonneg)
  then show ?thesis
    using bm assms(3) bm.test [OF bm(2) assms(3)]
    by (auto simp: ida_unfold ids_of_def ida_bits_def bind_None_iff)
qed

theorem id_allocator_misuse_halts_witness: "id_allocator_free three_ids 2 = None"
  using id_allocator_misuse_halts [OF three_ids_start(1), of 2] three_ids_start(2)
  by (simp add: three_ids_def)

end
