(* ===== verification/Avl_Tree.thy ===== *)
theory Avl_Tree
  imports Kernel_Prelude
begin

text \<open>
  Model of \<open>lib/avl_tree.c\<close>, the balanced tree that the kernel uses to index threads, processes,
  handles and address space regions by a 64-bit key.

  A node carries its key, its stored height and the pointer to the structure it is embedded in (\<open>'n\<close>).
  The stored height is data of its own, as in the code: it is refreshed only when
  \<open>avl_tree_subtree_height\<close> visits the node, so the root and freshly rotated nodes hold stale heights.
  A pointer to a node inside a tree is a location: the subtree below it and the path of its
  ancestors, nearest first. Following \<open>parent\<close> pops the path, so the loops that climb the tree are
  loops over locations. \<open>None\<close> is a dereferenced \<open>NULL\<close> or a failed assertion.
\<close>

section \<open>Trees and locations\<close>

datatype 'n avl =
    Tip
  | Node (avl_left: "'n avl") (avl_entry: 'n) (avl_key: u64) (avl_height: int) (avl_right: "'n avl")

text \<open>An ancestor: which child of it we are, its own fields and its other child.\<close>

datatype 'n avl_up =
    LeftOf 'n u64 int "'n avl"
  | RightOf "'n avl" 'n u64 int

type_synonym 'n avl_loc = "'n avl \<times> 'n avl_up list"

fun avl_plug :: "'n avl_up \<Rightarrow> 'n avl \<Rightarrow> 'n avl" where
  "avl_plug (LeftOf n k h r) t = Node t n k h r"
| "avl_plug (RightOf l n k h) t = Node l n k h t"

fun avl_root :: "'n avl \<Rightarrow> 'n avl_up list \<Rightarrow> 'n avl" where
  "avl_root t [] = t"
| "avl_root t (u # us) = avl_root (avl_plug u t) us"

section \<open>Heights and rotations\<close>

text \<open>Returns the height and the node with its \<open>height\<close> field refreshed.\<close>

fun avl_tree_subtree_height :: "'n avl \<Rightarrow> int \<times> 'n avl" where
  "avl_tree_subtree_height Tip = (0, Tip)"
| "avl_tree_subtree_height (Node l n k h r) =
     (let lh = (case l of Tip \<Rightarrow> 1 | Node _ _ _ h _ \<Rightarrow> h + 1);
          rh = (case r of Tip \<Rightarrow> 1 | Node _ _ _ h _ \<Rightarrow> h + 1);
          h' = (if rh > lh then rh else lh)
      in (h', Node l n k h' r))"

fun avl_tree_balance_factor :: "'n avl \<Rightarrow> (int \<times> 'n avl) option" where
  "avl_tree_balance_factor Tip = None"
| "avl_tree_balance_factor (Node l n k h r) =
     (let (rh, r) = avl_tree_subtree_height r; (lh, l) = avl_tree_subtree_height l
      in Some (rh - lh, Node l n k h r))"

text \<open>
  The rotations work on the subtree at a location; the code's updates of the parent link of the
  moved child and of \<open>tree->root\<close> are the replacement of the subtree at that location.
\<close>

fun avl_tree_rotate_left :: "'n avl \<Rightarrow> 'n avl option" where
  "avl_tree_rotate_left (Node l n k h (Node cl cn ck ch cr)) = Some (Node (Node l n k h cl) cn ck ch cr)"
| "avl_tree_rotate_left _ = None"

fun avl_tree_rotate_right :: "'n avl \<Rightarrow> 'n avl option" where
  "avl_tree_rotate_right (Node (Node cl cn ck ch cr) n k h r) = Some (Node cl cn ck ch (Node cr n k h r))"
| "avl_tree_rotate_right _ = None"

fun avl_tree_balance_node :: "'n avl \<Rightarrow> int \<Rightarrow> 'n avl option" where
  "avl_tree_balance_node Tip balance = None"
| "avl_tree_balance_node (Node l n k h r) balance =
     (if balance > 1 then do {
        (b, r) \<leftarrow> avl_tree_balance_factor r;
        r \<leftarrow> (if b < 0 then avl_tree_rotate_right r else Some r);
        avl_tree_rotate_left (Node l n k h r)}
      else if balance < - 1 then do {
        (b, l) \<leftarrow> avl_tree_balance_factor l;
        l \<leftarrow> (if b > 0 then avl_tree_rotate_left l else Some l);
        avl_tree_rotate_right (Node l n k h r)}
      else Some (Node l n k h r))"

text \<open>
  The loop that climbs from a node and rebalances (it ends both \<open>avl_tree_insert\<close> and
  \<open>avl_tree_remove\<close>). After a rotation the node's parent is the child that took its place, so the
  next iteration looks at the same subtree again. The result is the root of the whole tree.
\<close>

partial_function (option) avl_rebalance :: "'n avl \<Rightarrow> 'n avl_up list \<Rightarrow> 'n avl option" where
  "avl_rebalance t us = do {
     (balance, t) \<leftarrow> avl_tree_balance_factor t;
     if balance < - 1 \<or> balance > 1 then do {
       t \<leftarrow> avl_tree_balance_node t balance;
       avl_rebalance t us}
     else (case us of [] \<Rightarrow> Some t | u # us \<Rightarrow> avl_rebalance (avl_plug u t) us)}"

section \<open>Insertion and removal\<close>

text \<open>The descent to the insertion point; equal keys fail the assertion.\<close>

fun avl_descend :: "u64 \<Rightarrow> 'n avl \<Rightarrow> 'n avl_up list \<Rightarrow> 'n avl_up list option" where
  "avl_descend key Tip us = Some us"
| "avl_descend key (Node l n k h r) us =
     (if key = k then None
      else if key > k then avl_descend key r (RightOf l n k h # us)
      else avl_descend key l (LeftOf n k h r # us))"

definition avl_tree_insert :: "'n avl \<Rightarrow> u64 \<Rightarrow> 'n \<Rightarrow> 'n avl option" where
  "avl_tree_insert tree key node =
     (let leaf = Node Tip node key 0 Tip in
      case tree of
        Tip \<Rightarrow> Some leaf
      | Node _ _ _ _ _ \<Rightarrow> do {
          us \<leftarrow> avl_descend key tree [];
          case us of [] \<Rightarrow> None | u # us \<Rightarrow> avl_rebalance (avl_plug u leaf) us})"

text \<open>The right-most node of a left subtree, as a location below \<open>us\<close>.\<close>

fun avl_rightmost :: "'n avl \<Rightarrow> 'n avl_up list \<Rightarrow> 'n avl_loc" where
  "avl_rightmost (Node l n k h (Node l' n' k' h' r')) us =
     avl_rightmost (Node l' n' k' h' r') (RightOf l n k h # us)"
| "avl_rightmost t us = (t, us)"

text \<open>
  \<open>avl_tree_remove\<close> takes the location of the node. The right-most node \<open>child\<close> of the left subtree
  replaces it; \<open>start\<close>, where rebalancing begins, is \<open>child\<close>'s left child if it has one, else its
  parent, or \<open>child\<close> itself when it is the left child of the removed node. The path from \<open>start\<close>
  up to the replaced node is the path \<open>avl_rightmost\<close> walked, then \<open>child\<close>, then \<open>us\<close>.
\<close>

definition avl_tree_remove :: "'n avl_loc \<Rightarrow> 'n avl option" where
  "avl_tree_remove loc =
     (case loc of
        (Tip, us) \<Rightarrow> None
      | (Node l n k h r, us) \<Rightarrow>
          (case l of
             Node _ _ _ _ _ \<Rightarrow>
               (case avl_rightmost l [] of
                  (Tip, _) \<Rightarrow> None
                | (Node cl cn ck ch cr, []) \<Rightarrow> avl_rebalance (Node cl cn ck ch r) us
                | (Node cl cn ck ch cr, p # ps) \<Rightarrow>
                    let path = p # ps @ LeftOf cn ck ch r # us in
                    (case cl of
                       Node _ _ _ _ _ \<Rightarrow> avl_rebalance cl path
                     | Tip \<Rightarrow> avl_rebalance (avl_plug p Tip) (ps @ LeftOf cn ck ch r # us)))
           | Tip \<Rightarrow>
               (case r of
                  Node _ _ _ _ _ \<Rightarrow> avl_rebalance r us
                | Tip \<Rightarrow>
                    (case us of
                       [] \<Rightarrow> Some Tip
                     | u # us \<Rightarrow> avl_rebalance (avl_plug u Tip) us))))"

section \<open>Lookup and traversal\<close>

fun avl_lookup_loc :: "u64 \<Rightarrow> 'n avl \<Rightarrow> 'n avl_up list \<Rightarrow> 'n avl_loc option" where
  "avl_lookup_loc key Tip us = None"
| "avl_lookup_loc key (Node l n k h r) us =
     (if k > key then avl_lookup_loc key l (LeftOf n k h r # us)
      else if k < key then avl_lookup_loc key r (RightOf l n k h # us)
      else Some (Node l n k h r, us))"

definition avl_tree_lookup_node :: "'n avl \<Rightarrow> u64 \<Rightarrow> 'n avl_loc option" where
  "avl_tree_lookup_node tree key = avl_lookup_loc key tree []"

fun avl_leftmost :: "'n avl \<Rightarrow> 'n avl_up list \<Rightarrow> 'n avl_loc" where
  "avl_leftmost (Node (Node l' n' k' h' r') n k h r) us =
     avl_leftmost (Node l' n' k' h' r') (LeftOf n k h r # us)"
| "avl_leftmost t us = (t, us)"

definition avl_tree_first :: "'n avl \<Rightarrow> 'n avl_loc option" where
  "avl_tree_first tree = (case tree of Tip \<Rightarrow> None | Node _ _ _ _ _ \<Rightarrow> Some (avl_leftmost tree []))"

definition avl_tree_last :: "'n avl \<Rightarrow> 'n avl_loc option" where
  "avl_tree_last tree = (case tree of Tip \<Rightarrow> None | Node _ _ _ _ _ \<Rightarrow> Some (avl_rightmost tree []))"

text \<open>The climbs to the first ancestor that has us in its right (left) subtree.\<close>

fun avl_climb_right :: "'n avl \<Rightarrow> 'n avl_up list \<Rightarrow> 'n avl_loc option" where
  "avl_climb_right t [] = None"
| "avl_climb_right t (LeftOf n k h r # us) = avl_climb_right (Node t n k h r) us"
| "avl_climb_right t (RightOf l n k h # us) = Some (Node l n k h t, us)"

fun avl_climb_left :: "'n avl \<Rightarrow> 'n avl_up list \<Rightarrow> 'n avl_loc option" where
  "avl_climb_left t [] = None"
| "avl_climb_left t (RightOf l n k h # us) = avl_climb_left (Node l n k h t) us"
| "avl_climb_left t (LeftOf n k h r # us) = Some (Node t n k h r, us)"

fun avl_tree_prev :: "'n avl_loc \<Rightarrow> 'n avl_loc option" where
  "avl_tree_prev (Tip, us) = None"
| "avl_tree_prev (Node (Node l' n' k' h' r') n k h r, us) =
     Some (avl_rightmost (Node l' n' k' h' r') (LeftOf n k h r # us))"
| "avl_tree_prev (t, us) = avl_climb_right t us"

fun avl_tree_next :: "'n avl_loc \<Rightarrow> 'n avl_loc option" where
  "avl_tree_next (Tip, us) = None"
| "avl_tree_next (Node l n k h (Node l' n' k' h' r'), us) =
     Some (avl_leftmost (Node l' n' k' h' r') (RightOf l n k h # us))"
| "avl_tree_next (t, us) = avl_climb_left t us"

text \<open>The macro \<open>avl_tree_lookup\<close>: the structure that contains the node found.\<close>

definition avl_tree_lookup :: "'n avl \<Rightarrow> u64 \<Rightarrow> 'n option" where
  "avl_tree_lookup tree key = map_option (\<lambda>loc. avl_entry (fst loc)) (avl_tree_lookup_node tree key)"

text \<open>The clients' idiom: look a node up and remove it.\<close>

definition avl_remove_key :: "'n avl \<Rightarrow> u64 \<Rightarrow> 'n avl option" where
  "avl_remove_key tree key = do {
     loc \<leftarrow> avl_tree_lookup_node tree key;
     avl_tree_remove loc}"

definition avl_tree_init :: "'n avl" where
  "avl_tree_init = Tip"

definition avl_tree_empty :: "'n avl \<Rightarrow> bool" where
  "avl_tree_empty tree = (case tree of Tip \<Rightarrow> True | Node _ _ _ _ _ \<Rightarrow> False)"

section \<open>Invariant\<close>

fun inord :: "'n avl \<Rightarrow> (u64 \<times> 'n) list" where
  "inord Tip = []"
| "inord (Node l n k h r) = inord l @ (k, n) # inord r"

fun ht :: "'n avl \<Rightarrow> int" where
  "ht Tip = 0"
| "ht (Node l n k h r) = 1 + max (ht l) (ht r)"

text \<open>A subtree below the root: balanced, every stored height up to date.\<close>

fun full :: "'n avl \<Rightarrow> bool" where
  "full Tip = True"
| "full (Node l n k h r) \<longleftrightarrow>
     h = 1 + max (ht l) (ht r) \<and> \<bar>ht l - ht r\<bar> \<le> 1 \<and> full l \<and> full r"

text \<open>A whole tree: the same, but the height stored in the root may be stale.\<close>

fun avl_ok :: "'n avl \<Rightarrow> bool" where
  "avl_ok Tip = True"
| "avl_ok (Node l n k h r) \<longleftrightarrow> \<bar>ht l - ht r\<bar> \<le> 1 \<and> full l \<and> full r"

definition avl_inv :: "'n avl \<Rightarrow> bool" where
  "avl_inv t \<longleftrightarrow> avl_ok t \<and> sorted_wrt (<) (map fst (inord t))"

lemma ht_nonneg [simp]: "0 \<le> ht t"
  by (induction t) auto

lemma ht_0_iff [simp]: "ht t = 0 \<longleftrightarrow> t = Tip"
proof (cases t)
  case (Node l n k h r)
  have "0 \<le> max (ht l) (ht r)" by (simp add: max_def)
  with Node show ?thesis by simp
qed simp

lemma full_avl_ok [simp]: "full t \<Longrightarrow> avl_ok t"
  by (cases t) auto

lemma full_stored: "full (Node l n k h r) \<Longrightarrow> h = ht (Node l n k h r)"
  by simp

lemma full_height_case: "full t \<Longrightarrow> (case t of Tip \<Rightarrow> 1 | Node _ _ _ h _ \<Rightarrow> h + 1) = ht t + 1"
  by (cases t) auto

section \<open>Paths\<close>

fun sib :: "'n avl_up \<Rightarrow> 'n avl" where
  "sib (LeftOf n k h r) = r"
| "sib (RightOf l n k h) = l"

text \<open>\<open>path_ok us H\<close>: a subtree of height \<open>H\<close> in the hole makes every ancestor balanced.\<close>

fun path_ok :: "'n avl_up list \<Rightarrow> int \<Rightarrow> bool" where
  "path_ok [] H = True"
| "path_ok (u # us) H \<longleftrightarrow>
     full (sib u) \<and> \<bar>ht (sib u) - H\<bar> \<le> 1 \<and> path_ok us (1 + max H (ht (sib u)))"

fun lctx :: "'n avl_up list \<Rightarrow> (u64 \<times> 'n) list" where
  "lctx [] = []"
| "lctx (LeftOf n k h r # us) = lctx us"
| "lctx (RightOf l n k h # us) = lctx us @ inord l @ [(k, n)]"

fun rctx :: "'n avl_up list \<Rightarrow> (u64 \<times> 'n) list" where
  "rctx [] = []"
| "rctx (LeftOf n k h r # us) = (k, n) # inord r @ rctx us"
| "rctx (RightOf l n k h # us) = rctx us"

lemma inord_root: "inord (avl_root t us) = lctx us @ inord t @ rctx us"
proof (induction t us rule: avl_root.induct)
  case (2 t u us)
  then show ?case by (cases u) auto
qed simp

lemma ht_plug: "ht (avl_plug u t) = 1 + max (ht t) (ht (sib u))"
  by (cases u) auto

lemma plug_not_Tip [simp]: "avl_plug u t \<noteq> Tip"
  by (cases u) auto

lemma avl_root_path_ok: "avl_ok (avl_root t us) \<Longrightarrow> avl_ok t \<and> path_ok us (ht t)"
proof (induction t us rule: avl_root.induct)
  case (2 t u us)
  then have "avl_ok (avl_plug u t)" "path_ok us (1 + max (ht t) (ht (sib u)))"
    by (auto simp: ht_plug)
  then show ?case by (cases u) auto
qed simp

lemma avl_root_append: "avl_root t (us @ vs) = avl_root (avl_root t us) vs"
  by (induction us arbitrary: t) auto

section \<open>Rebalancing\<close>

text \<open>A node whose subtrees are fine but may differ by two levels.\<close>

fun semi :: "'n avl \<Rightarrow> bool" where
  "semi Tip = False"
| "semi (Node l n k h r) \<longleftrightarrow> avl_ok l \<and> avl_ok r \<and> \<bar>ht l - ht r\<bar> \<le> 2"

fun off :: "'n avl \<Rightarrow> bool" where
  "off Tip = False"
| "off (Node l n k h r) \<longleftrightarrow> \<bar>ht l - ht r\<bar> = 2"

text \<open>\<open>t\<close> replaces a subtree of height \<open>H\<close> after one insertion or removal below it.\<close>

definition fits :: "'n avl \<Rightarrow> int \<Rightarrow> bool" where
  "fits t H \<longleftrightarrow> semi t \<and> \<bar>ht t - H\<bar> \<le> 1 \<and> (off t \<longrightarrow> H \<le> ht t)"

lemma refresh:
  "avl_ok t \<Longrightarrow> \<exists>t'. avl_tree_subtree_height t = (ht t, t') \<and> full t' \<and> ht t' = ht t \<and> inord t' = inord t"
  by (cases t) (auto simp: full_height_case Let_def)

lemma balance_factor_semi:
  assumes "avl_ok l" "avl_ok r"
  shows "\<exists>l' r'. avl_tree_balance_factor (Node l n k h r) = Some (ht r - ht l, Node l' n k h r')
    \<and> full l' \<and> full r' \<and> ht l' = ht l \<and> ht r' = ht r \<and> inord l' = inord l \<and> inord r' = inord r"
  using refresh [OF assms(1)] refresh [OF assms(2)] by auto

definition climb :: "'n avl \<Rightarrow> 'n avl_up list \<Rightarrow> 'n avl option" where
  "climb t us = (case us of [] \<Rightarrow> Some t | u # us \<Rightarrow> avl_rebalance (avl_plug u t) us)"

lemma rebalance_balanced:
  assumes "avl_ok l" "avl_ok r" "\<bar>ht l - ht r\<bar> \<le> 1"
  shows "\<exists>t'. (\<forall>us. avl_rebalance (Node l n k h r) us = climb t' us) \<and> avl_ok t' \<and> t' \<noteq> Tip
    \<and> ht t' = ht (Node l n k h r) \<and> inord t' = inord (Node l n k h r)"
proof -
  obtain l' r' where f: "avl_tree_balance_factor (Node l n k h r) = Some (ht r - ht l, Node l' n k h r')"
    "full l'" "full r'" "ht l' = ht l" "ht r' = ht r" "inord l' = inord l" "inord r' = inord r"
    using balance_factor_semi [OF assms(1,2)] by blast
  have "\<not> (ht r - ht l < - 1 \<or> 1 < ht r - ht l)" using assms(3) by linarith
  then have "avl_rebalance (Node l n k h r) us = climb (Node l' n k h r') us" for us
    by (subst avl_rebalance.simps) (simp only: f(1) bind.bind_lunit prod.case if_False climb_def)
  with f assms show ?thesis by (intro exI [of _ "Node l' n k h r'"]) auto
qed

lemma full_NodeE:
  assumes "full t" "0 < ht t"
  obtains l n k h r where "t = Node l n k h r" "full l" "full r" "\<bar>ht l - ht r\<bar> \<le> 1"
  using assms by (cases t) auto

lemma balance_node_right:
  assumes "full l" "full r" "ht r = ht l + 2"
  shows "\<exists>L cn ck ch R. avl_tree_balance_node (Node l n k h r) (ht r - ht l) = Some (Node L cn ck ch R)
    \<and> avl_ok L \<and> avl_ok R \<and> \<bar>ht L - ht R\<bar> \<le> 1
    \<and> ht (Node L cn ck ch R) \<in> {ht r, ht r + 1} \<and> inord (Node L cn ck ch R) = inord (Node l n k h r)"
proof -
  have "0 < ht r" using assms(3) ht_nonneg [of l] by linarith
  with assms(2) obtain cl cn ck ch cr where r: "r = Node cl cn ck ch cr"
    and c: "full cl" "full cr" "\<bar>ht cl - ht cr\<bar> \<le> 1"
    by (rule full_NodeE)
  obtain cl' cr' where f: "avl_tree_balance_factor r = Some (ht cr - ht cl, Node cl' cn ck ch cr')"
    "full cl'" "full cr'" "ht cl' = ht cl" "ht cr' = ht cr" "inord cl' = inord cl" "inord cr' = inord cr"
    using balance_factor_semi [of cl cr] c r by fastforce
  note bf = f(1) [unfolded r] and [simp del] = avl_tree_balance_factor.simps
  show ?thesis
  proof (cases "ht cr < ht cl")
    case False
    then have "avl_tree_balance_node (Node l n k h r) (ht r - ht l)
        = Some (Node (Node l n k h cl') cn ck ch cr')"
      using assms(3) by (simp add: r bf)
    with False f c assms show ?thesis by (auto simp: r)
  next
    case True
    then have "0 < ht cl'" using f(4) ht_nonneg [of cr] by linarith
    with f(2) obtain a gn gk gh b where g: "cl' = Node a gn gk gh b" "full a" "full b" "\<bar>ht a - ht b\<bar> \<le> 1"
      by (rule full_NodeE)
    let ?L = "Node l n k h a" and ?R = "Node b cn ck ch cr'"
    have "avl_tree_balance_node (Node l n k h r) (ht r - ht l) = Some (Node ?L gn gk gh ?R)"
      using True assms(3) by (simp add: r bf g(1))
    moreover have "ht cl = 1 + max (ht a) (ht b)" "inord cl = inord a @ (gk, gn) # inord b"
      using f(4,6) g(1) by simp_all
    ultimately show ?thesis
      using True g f c assms by (intro exI [of _ ?L] exI [of _ gn] exI [of _ gk] exI [of _ gh] exI [of _ ?R])
        (auto simp: r)
  qed
qed

lemma balance_node_left:
  assumes "full l" "full r" "ht l = ht r + 2"
  shows "\<exists>L cn ck ch R. avl_tree_balance_node (Node l n k h r) (ht r - ht l) = Some (Node L cn ck ch R)
    \<and> avl_ok L \<and> avl_ok R \<and> \<bar>ht L - ht R\<bar> \<le> 1
    \<and> ht (Node L cn ck ch R) \<in> {ht l, ht l + 1} \<and> inord (Node L cn ck ch R) = inord (Node l n k h r)"
proof -
  have "0 < ht l" using assms(3) ht_nonneg [of r] by linarith
  with assms(1) obtain cl cn ck ch cr where l: "l = Node cl cn ck ch cr"
    and c: "full cl" "full cr" "\<bar>ht cl - ht cr\<bar> \<le> 1"
    by (rule full_NodeE)
  obtain cl' cr' where f: "avl_tree_balance_factor l = Some (ht cr - ht cl, Node cl' cn ck ch cr')"
    "full cl'" "full cr'" "ht cl' = ht cl" "ht cr' = ht cr" "inord cl' = inord cl" "inord cr' = inord cr"
    using balance_factor_semi [of cl cr] c l by fastforce
  note bf = f(1) [unfolded l] and [simp del] = avl_tree_balance_factor.simps
  show ?thesis
  proof (cases "ht cl < ht cr")
    case False
    then have "avl_tree_balance_node (Node l n k h r) (ht r - ht l)
        = Some (Node cl' cn ck ch (Node cr' n k h r))"
      using assms(3) by (simp add: l bf)
    with False f c assms show ?thesis by (auto simp: l)
  next
    case True
    then have "0 < ht cr'" using f(5) ht_nonneg [of cl] by linarith
    with f(3) obtain a gn gk gh b where g: "cr' = Node a gn gk gh b" "full a" "full b" "\<bar>ht a - ht b\<bar> \<le> 1"
      by (rule full_NodeE)
    let ?L = "Node cl' cn ck ch a" and ?R = "Node b n k h r"
    have "avl_tree_balance_node (Node l n k h r) (ht r - ht l) = Some (Node ?L gn gk gh ?R)"
      using True assms(3) by (simp add: l bf g(1))
    moreover have "ht cr = 1 + max (ht a) (ht b)" "inord cr = inord a @ (gk, gn) # inord b"
      using f(5,7) g(1) by simp_all
    ultimately show ?thesis
      using True g f c assms by (intro exI [of _ ?L] exI [of _ gn] exI [of _ gk] exI [of _ gh] exI [of _ ?R])
        (auto simp: l)
  qed
qed

lemma rebalance_local:
  assumes "semi t"
  shows "\<exists>t'. (\<forall>us. avl_rebalance t us = climb t' us) \<and> avl_ok t' \<and> t' \<noteq> Tip \<and> inord t' = inord t
    \<and> (if off t then ht t' = ht t \<or> ht t' = ht t - 1 else ht t' = ht t)"
proof -
  from assms obtain l n k h r where t: "t = Node l n k h r" and lr: "avl_ok l" "avl_ok r" "\<bar>ht l - ht r\<bar> \<le> 2"
    by (cases t) auto
  show ?thesis
  proof (cases "\<bar>ht l - ht r\<bar> \<le> 1")
    case True
    with rebalance_balanced [OF lr(1,2) True, of n k h] t show ?thesis by fastforce
  next
    case False
    obtain l' r' where f: "avl_tree_balance_factor t = Some (ht r - ht l, Node l' n k h r')"
      "full l'" "full r'" "ht l' = ht l" "ht r' = ht r" "inord l' = inord l" "inord r' = inord r"
      using balance_factor_semi [OF lr(1,2)] t by blast
    have "ht r' = ht l' + 2 \<or> ht l' = ht r' + 2" using False lr(3) f by linarith
    then obtain L cn ck ch R where
      b: "avl_tree_balance_node (Node l' n k h r') (ht r - ht l) = Some (Node L cn ck ch R)"
      "avl_ok L" "avl_ok R" "\<bar>ht L - ht R\<bar> \<le> 1" "inord (Node L cn ck ch R) = inord t"
      "ht (Node L cn ck ch R) = ht t \<or> ht (Node L cn ck ch R) = ht t - 1"
      using balance_node_right [OF f(2,3), of n k h] balance_node_left [OF f(2,3), of n k h] f t
      by (simp del: avl_tree_balance_node.simps) (elim disjE; force)
    obtain t' where t': "\<forall>us. avl_rebalance (Node L cn ck ch R) us = climb t' us" "avl_ok t'" "t' \<noteq> Tip"
      "ht t' = ht (Node L cn ck ch R)" "inord t' = inord (Node L cn ck ch R)"
      using rebalance_balanced [OF b(2,3,4)] by blast
    have "avl_rebalance t us = climb t' us" for us
      using False lr(3) t'(1) b(1) by (subst avl_rebalance.simps) (auto simp: f(1))
    moreover have "off t" using False lr(3) t by auto
    ultimately show ?thesis using t' b by auto
  qed
qed

lemma plug_fits:
  assumes "avl_ok t" "\<bar>ht t - H\<bar> \<le> 1" "full (sib u)" "\<bar>ht (sib u) - H\<bar> \<le> 1"
  shows "fits (avl_plug u t) (1 + max H (ht (sib u)))"
  using assms by (cases u) (auto simp: fits_def)

lemma rebalance_path:
  "fits t H \<Longrightarrow> path_ok us H \<Longrightarrow>
   \<exists>t'. avl_rebalance t us = Some t' \<and> avl_ok t' \<and> inord t' = inord (avl_root t us)"
proof (induction us arbitrary: t H)
  case Nil
  then show ?case using rebalance_local [of t] by (auto simp: fits_def climb_def)
next
  case (Cons u us)
  obtain t' where t': "avl_rebalance t (u # us) = climb t' (u # us)" "avl_ok t'" "inord t' = inord t"
    "\<bar>ht t' - H\<bar> \<le> 1"
    using rebalance_local [of t] Cons.prems(1) by (fastforce simp: fits_def split: if_splits)
  have "fits (avl_plug u t') (1 + max H (ht (sib u)))"
    using Cons.prems(2) t' by (intro plug_fits) auto
  from Cons.IH [OF this] Cons.prems(2) t' show ?case
    by (cases u) (auto simp: climb_def inord_root)
qed

lemma rebalance_plug:
  assumes "avl_ok t" "\<bar>ht t - H\<bar> \<le> 1" "path_ok (u # us) H"
  shows "\<exists>t'. avl_rebalance (avl_plug u t) us = Some t' \<and> avl_ok t'
    \<and> inord t' = inord (avl_root t (u # us))"
  using rebalance_path [OF plug_fits [OF assms(1,2)]] assms(3) by auto

section \<open>Insertion\<close>

lemma sorted_split_keys:
  "sorted_wrt (<) (map fst (xs @ (k, n) # ys)) \<longleftrightarrow>
   sorted_wrt (<) (map fst xs) \<and> sorted_wrt (<) (map fst ys)
   \<and> (\<forall>x \<in> set xs. fst x < k) \<and> (\<forall>y \<in> set ys. (k :: u64) < fst y)"
  by (auto simp: sorted_wrt_append dest: order.strict_trans)

lemma avl_descend_root:
  "avl_descend key t us = Some us' \<Longrightarrow> avl_root Tip us' = avl_root t us"
  by (induction key t us rule: avl_descend.induct) (auto split: if_splits)

lemma avl_descend_nonempty:
  "avl_descend key t us = Some us' \<Longrightarrow> t \<noteq> Tip \<or> us \<noteq> [] \<Longrightarrow> us' \<noteq> []"
  by (induction key t us rule: avl_descend.induct) (auto split: if_splits)

lemma avl_descend_order:
  assumes "avl_descend key t us = Some us'"
    and "\<forall>x \<in> set (lctx us). fst x < key" and "\<forall>x \<in> set (rctx us). key < fst x"
    and "sorted_wrt (<) (map fst (inord t))"
  shows "(\<forall>x \<in> set (lctx us'). fst x < key) \<and> (\<forall>x \<in> set (rctx us'). key < fst x)"
  using assms
proof (induction key t us rule: avl_descend.induct)
  case (2 key l n k h r us)
  have lr: "sorted_wrt (<) (map fst (inord l))" "sorted_wrt (<) (map fst (inord r))"
    "\<forall>x \<in> set (inord l). fst x < k" "\<forall>x \<in> set (inord r). k < fst x"
    using "2.prems"(4) unfolding inord.simps sorted_split_keys by auto
  show ?case
  proof (cases "key > k")
    case True
    then have "\<forall>x \<in> set (inord l). fst x < key" using lr(3) by (auto intro: order.strict_trans)
    with True "2.prems" lr show ?thesis by (intro "2.IH"(1)) (auto split: if_splits)
  next
    case False
    moreover from False "2.prems"(1) have "key < k" by (auto split: if_splits)
    moreover from this have "\<forall>x \<in> set (inord r). key < fst x"
      using lr(4) by (auto intro: order.strict_trans)
    ultimately show ?thesis using "2.prems" lr by (intro "2.IH"(2)) (auto split: if_splits)
  qed
qed simp

lemma avl_descend_halts_iff:
  "sorted_wrt (<) (map fst (inord t)) \<Longrightarrow> avl_descend key t us = None \<longleftrightarrow> key \<in> fst ` set (inord t)"
proof (induction key t us rule: avl_descend.induct)
  case (2 key l n k h r us)
  then show ?case
    by (auto simp: sorted_wrt_append image_iff)
qed simp

lemma avl_insert_inord:
  assumes inv: "avl_inv t" and new: "key \<notin> fst ` set (inord t)"
  shows "\<exists>t' xs ys. avl_tree_insert t key n = Some t' \<and> avl_ok t'
    \<and> inord t = xs @ ys \<and> inord t' = xs @ (key, n) # ys
    \<and> (\<forall>x \<in> set xs. fst x < key) \<and> (\<forall>y \<in> set ys. key < fst y)"
proof (cases t)
  case Tip
  then show ?thesis by (auto simp: avl_tree_insert_def)
next
  case Node
  have srt: "sorted_wrt (<) (map fst (inord t))" and ok: "avl_ok t"
    using inv by (auto simp: avl_inv_def)
  obtain us where us: "avl_descend key t [] = Some us"
    using avl_descend_halts_iff [OF srt] new by (metis not_None_eq)
  then obtain u us' where uu: "us = u # us'"
    using avl_descend_nonempty [OF us] Node by (cases us) auto
  have root: "avl_root Tip us = t" using avl_descend_root [OF us] by simp
  have "path_ok us 0" using avl_root_path_ok [of Tip us] root ok by simp
  then obtain t' where "avl_rebalance (avl_plug u (Node Tip n key 0 Tip)) us' = Some t'" "avl_ok t'"
    "inord t' = inord (avl_root (Node Tip n key 0 Tip) us)"
    using rebalance_plug [of "Node Tip n key 0 Tip" 0 u us'] uu by auto
  moreover from this have "avl_tree_insert t key n = Some t'"
    using us uu Node by (simp add: avl_tree_insert_def)
  moreover have "inord t = lctx us @ rctx us" using root inord_root [of Tip us] by simp
  moreover have "(\<forall>x \<in> set (lctx us). fst x < key) \<and> (\<forall>x \<in> set (rctx us). key < fst x)"
    using avl_descend_order [OF us _ _ srt] by simp
  ultimately show ?thesis by (auto simp: inord_root)
qed

section \<open>Removal\<close>

lemma avl_rightmost_append:
  "avl_rightmost t (us @ vs) = (fst (avl_rightmost t us), snd (avl_rightmost t us) @ vs)"
  by (induction t us rule: avl_rightmost.induct) auto

lemma avl_rightmost_node:
  "t \<noteq> Tip \<Longrightarrow> \<exists>cl cn ck ch. fst (avl_rightmost t us) = Node cl cn ck ch Tip"
  by (induction t us rule: avl_rightmost.induct) auto

lemma avl_rightmost_root:
  "avl_rightmost t us = (c, us') \<Longrightarrow> avl_root c us' = avl_root t us"
  by (induction t us rule: avl_rightmost.induct) auto

lemma avl_rightmost_rctx: "rctx (snd (avl_rightmost t us)) = rctx us"
  by (induction t us rule: avl_rightmost.induct) auto

lemma avl_rightmost_path_ok:
  "full t \<Longrightarrow> path_ok us (ht t) \<Longrightarrow> avl_rightmost t us = (c, us') \<Longrightarrow> full c \<and> path_ok us' (ht c)"
proof (induction t us rule: avl_rightmost.induct)
  case (1 l n k h l' n' k' h' r' us)
  from "1.prems"(3) show ?case
    by (intro "1.IH") (use "1.prems" in \<open>auto simp: max.commute\<close>)
qed auto

lemma lctx_append: "lctx (us @ vs) = lctx vs @ lctx us"
  by (induction us rule: lctx.induct) auto

lemma rctx_append: "rctx (us @ vs) = rctx us @ rctx vs"
  by (induction us rule: rctx.induct) auto

lemmas ctx_append = lctx_append rctx_append

text \<open>The four ways \<open>avl_tree_remove\<close> detaches a node, each leaving a subtree that fits.\<close>

lemma remove_left_child:
  assumes "avl_ok (Node (Node cl cn ck ch Tip) n k h r)"
    and "path_ok us (ht (Node (Node cl cn ck ch Tip) n k h r))"
  shows "\<exists>t'. avl_rebalance (Node cl cn ck ch r) us = Some t' \<and> avl_ok t'
    \<and> inord t' = lctx us @ inord cl @ (ck, cn) # inord r @ rctx us"
proof -
  have "0 \<le> ht cl" by simp
  then have "fits (Node cl cn ck ch r) (ht (Node (Node cl cn ck ch Tip) n k h r))"
    using assms(1) by (auto simp: fits_def)
  from rebalance_path [OF this assms(2)] show ?thesis by (simp add: inord_root)
qed

lemma remove_shift_up:
  assumes "full c" "c \<noteq> Tip" "path_ok us (1 + ht c)"
  shows "\<exists>t'. avl_rebalance c us = Some t' \<and> avl_ok t' \<and> inord t' = lctx us @ inord c @ rctx us"
proof -
  have "fits c (1 + ht c)" using assms(1,2) by (cases c) (auto simp: fits_def)
  from rebalance_path [OF this assms(3)] show ?thesis by (simp add: inord_root)
qed

lemma remove_leaf:
  assumes "path_ok (u # us) 1"
  shows "\<exists>t'. avl_rebalance (avl_plug u Tip) us = Some t' \<and> avl_ok t'
    \<and> inord t' = lctx (u # us) @ rctx (u # us)"
  using rebalance_plug [of Tip 1 u us] assms inord_root [of Tip "u # us"] by simp

lemma avl_remove_loc:
  assumes ok: "avl_ok (avl_root (Node l n k h r) us)"
  shows "\<exists>t'. avl_tree_remove (Node l n k h r, us) = Some t' \<and> avl_ok t'
    \<and> inord t' = lctx us @ inord l @ inord r @ rctx us"
proof -
  have node: "avl_ok (Node l n k h r)" and path: "path_ok us (ht (Node l n k h r))"
    using avl_root_path_ok [OF ok] by auto
  show ?thesis
  proof (cases l)
    case Tip
    show ?thesis
    proof (cases r)
      case (Node rl rn rk rh rr)
      then show ?thesis
        using remove_shift_up [of r us] node path Tip by (auto simp: avl_tree_remove_def max_def)
    next
      case r: Tip
      show ?thesis
      proof (cases us)
        case Nil
        with Tip r show ?thesis by (simp add: avl_tree_remove_def)
      next
        case (Cons u us')
        then show ?thesis
          using remove_leaf [of u us'] path Tip r by (simp add: avl_tree_remove_def)
      qed
    qed
  next
    case l: (Node ll ln lk lh lr)
    obtain cl cn ck ch ps where rm: "avl_rightmost l [] = (Node cl cn ck ch Tip, ps)"
      using avl_rightmost_node [of l "[]"] l by (metis avl.distinct(1) prod.collapse)
    have rps: "rctx ps = []"
      using avl_rightmost_rctx [of l "[]"] rm by simp
    have lin: "inord l = lctx ps @ inord cl @ [(ck, cn)]"
      using avl_rightmost_root [OF rm] inord_root [of "Node cl cn ck ch Tip" ps] rps by simp
    show ?thesis
    proof (cases ps)
      case Nil
      with avl_rightmost_root [OF rm] have "l = Node cl cn ck ch Tip" by simp
      with Nil rm node path lin show ?thesis
        using remove_left_child [of cl cn ck ch n k h r us] by (auto simp: avl_tree_remove_def)
    next
      case (Cons p ps')
      let ?up = "LeftOf cn ck ch r # us"
      have rm': "avl_rightmost l ?up = (Node cl cn ck ch Tip, ps @ ?up)"
        using avl_rightmost_append [of l "[]" ?up] rm by simp
      have "path_ok ?up (ht l)" "full l" using node path by auto
      then have c: "full cl" "path_ok (ps @ ?up) (1 + ht cl)"
        using avl_rightmost_path_ok [OF _ _ rm'] by (auto simp: max_absorb1)
      show ?thesis
      proof (cases cl)
        case Tip
        then show ?thesis
          using remove_leaf [of p "ps' @ ?up"] c Cons rm l lin rps
            lctx_append [of "p # ps'" ?up] rctx_append [of "p # ps'" ?up]
          by (simp add: avl_tree_remove_def)
      next
        case Node
        then show ?thesis
          using remove_shift_up [of cl "ps @ ?up"] c Cons rm l lin rps
            lctx_append [of "p # ps'" ?up] rctx_append [of "p # ps'" ?up]
          by (auto simp: avl_tree_remove_def)
      qed
    qed
  qed
qed

section \<open>Lookup\<close>

lemma avl_lookup_loc_root:
  "avl_lookup_loc key t us = Some (s, us') \<Longrightarrow>
   avl_root s us' = avl_root t us \<and> (\<exists>l n h r. s = Node l n key h r)"
  by (induction key t us rule: avl_lookup_loc.induct) (auto split: if_splits)

lemma map_of_sorted_mid:
  fixes xs ys :: "(u64 \<times> 'n) list"
  assumes "sorted_wrt (<) (map fst (xs @ (k, n) # ys))"
  shows "map_of (xs @ (k, n) # ys) key =
    (if k > key then map_of xs key else if k < key then map_of ys key else Some n)"
proof -
  have lt: "\<forall>x \<in> set xs. fst x < k" "\<forall>y \<in> set ys. k < fst y"
    using assms unfolding sorted_split_keys by auto
  have "map_of xs key = None" if "key \<ge> k"
    using that lt(1) by (auto simp: map_of_eq_None_iff)
  moreover have "map_of ys key = None" if "key \<le> k"
    using that lt(2) by (auto simp: map_of_eq_None_iff)
  ultimately show ?thesis
    by (auto simp: map_add_def map_of_append split: option.splits)
qed

lemma avl_lookup_loc_map:
  "sorted_wrt (<) (map fst (inord t)) \<Longrightarrow>
   map_option (avl_entry \<circ> fst) (avl_lookup_loc key t us) = map_of (inord t) key"
proof (induction key t us rule: avl_lookup_loc.induct)
  case (2 key l n k h r us)
  have lr: "sorted_wrt (<) (map fst (inord l))" "sorted_wrt (<) (map fst (inord r))"
    using "2.prems" unfolding inord.simps sorted_split_keys by auto
  show ?case
    using "2.IH"(1) [OF _ lr(1)] "2.IH"(2) [OF _ _ lr(2)]
    unfolding inord.simps map_of_sorted_mid [OF "2.prems" [unfolded inord.simps]] by simp
qed simp

section \<open>Traversal\<close>

text \<open>The nodes of a subtree in order, and the nodes after a subtree, as locations.\<close>

fun locs :: "'n avl \<Rightarrow> 'n avl_up list \<Rightarrow> 'n avl_loc list" where
  "locs Tip us = []"
| "locs (Node l n k h r) us =
     locs l (LeftOf n k h r # us) @ (Node l n k h r, us) # locs r (RightOf l n k h # us)"

fun locs_after :: "'n avl \<Rightarrow> 'n avl_up list \<Rightarrow> 'n avl_loc list" where
  "locs_after t [] = []"
| "locs_after t (LeftOf n k h r # us) =
     (Node t n k h r, us) # locs r (RightOf t n k h # us) @ locs_after (Node t n k h r) us"
| "locs_after t (RightOf l n k h # us) = locs_after (Node l n k h t) us"

fun locs_rest :: "'n avl_loc \<Rightarrow> 'n avl_loc list" where
  "locs_rest (Tip, us) = []"
| "locs_rest (Node l n k h r, us) = locs r (RightOf l n k h # us) @ locs_after (Node l n k h r) us"

definition loc_entry :: "'n avl_loc \<Rightarrow> u64 \<times> 'n" where
  "loc_entry loc = (avl_key (fst loc), avl_entry (fst loc))"

text \<open>\<open>AVL_TREE_FOREACH\<close> collecting the nodes it visits.\<close>

partial_function (option) avl_foreach :: "'n avl_loc option \<Rightarrow> (u64 \<times> 'n) list option" where
  "avl_foreach iter =
     (case iter of
        None \<Rightarrow> Some []
      | Some loc \<Rightarrow> do {
          xs \<leftarrow> avl_foreach (avl_tree_next loc);
          Some (loc_entry loc # xs)})"

lemma locs_inord: "map loc_entry (locs t us) = inord t"
  by (induction t us rule: locs.induct) (auto simp: loc_entry_def)

lemma avl_leftmost_locs:
  "t \<noteq> Tip \<Longrightarrow> locs t us @ locs_after t us = avl_leftmost t us # locs_rest (avl_leftmost t us)
    \<and> fst (avl_leftmost t us) \<noteq> Tip"
proof (induction t us rule: avl_leftmost.induct)
  case (1 l' n' k' h' r' n k h r us)
  then show ?case by simp
qed auto

lemma avl_climb_left_locs:
  "(case avl_climb_left t us of
      None \<Rightarrow> locs_after t us = []
    | Some loc \<Rightarrow> locs_after t us = loc # locs_rest loc \<and> fst loc \<noteq> Tip)"
  by (induction t us rule: avl_climb_left.induct) (auto split: option.splits)

lemma avl_tree_next_locs:
  assumes "fst loc \<noteq> Tip"
  shows "(case avl_tree_next loc of
      None \<Rightarrow> locs_rest loc = []
    | Some loc' \<Rightarrow> locs_rest loc = loc' # locs_rest loc' \<and> fst loc' \<noteq> Tip)"
proof -
  obtain l n k h r us where loc: "loc = (Node l n k h r, us)"
    using assms by (cases loc; cases "fst loc") auto
  show ?thesis
  proof (cases r)
    case Tip
    with avl_climb_left_locs [of "Node l n k h Tip" us] show ?thesis
      unfolding loc by (simp cong: option.case_cong)
  next
    case Node
    with loc avl_leftmost_locs [of r "RightOf l n k h # us"] show ?thesis by simp
  qed
qed

lemma avl_foreach_rest:
  "locs_rest loc = xs \<Longrightarrow> fst loc \<noteq> Tip \<Longrightarrow>
   avl_foreach (Some loc) = Some (map loc_entry (loc # xs))"
proof (induction xs arbitrary: loc)
  case Nil
  then have "avl_tree_next loc = None"
    using avl_tree_next_locs [of loc] by (auto split: option.splits)
  with Nil show ?case by (subst avl_foreach.simps) (simp add: avl_foreach.simps [of None])
next
  case (Cons x xs)
  then have "avl_tree_next loc = Some x" "locs_rest x = xs" "fst x \<noteq> Tip"
    using avl_tree_next_locs [of loc] by (auto split: option.splits)
  with Cons show ?case by (subst avl_foreach.simps) simp
qed

section \<open>Height\<close>

lemma avl_size_bound:
  "full t \<Longrightarrow> ht t = int m \<Longrightarrow> 2 ^ (m div 2) \<le> length (inord t) + 1"
proof (induction m arbitrary: t rule: less_induct)
  case (less m)
  show ?case
  proof (cases "m < 2")
    case True
    then show ?thesis by (cases "m = 0") auto
  next
    case False
    then obtain l n k h r where t: "t = Node l n k h r" "full l" "full r" "\<bar>ht l - ht r\<bar> \<le> 1"
      using less.prems by (metis full_NodeE of_nat_0_less_iff zero_less_iff_neq_zero not_less_iff_gr_or_eq numeral_2_eq_2 zero_less_Suc)
    define a b where "a = nat (ht l)" and "b = nat (ht r)"
    have ab: "ht l = int a" "ht r = int b" by (simp_all add: a_def b_def)
    have m: "a < m" "b < m" "m - 2 \<le> a" "m - 2 \<le> b"
      using less.prems(2) t ab False by auto
    have le: "2 ^ ((m - 2) div 2) \<le> length (inord s) + 1"
      if "m - 2 \<le> c" "2 ^ (c div 2) \<le> length (inord s) + 1" for c and s :: "'a avl"
    proof -
      have "(2 :: nat) ^ ((m - 2) div 2) \<le> 2 ^ (c div 2)"
        using that(1) by (intro power_increasing div_le_mono) auto
      with that(2) show ?thesis by (rule order.trans [rotated])
    qed
    have "2 * 2 ^ ((m - 2) div 2) \<le> length (inord t) + 1"
      using le [OF m(3) less.IH [OF m(1) t(2) ab(1)]] le [OF m(4) less.IH [OF m(2) t(3) ab(2)]] t(1)
      by simp
    moreover have "m div 2 = Suc ((m - 2) div 2)" using False by simp
    ultimately show ?thesis by simp
  qed
qed

section \<open>The interface\<close>

lemma avl_lookup_map_of:
  "avl_inv t \<Longrightarrow> avl_tree_lookup t key = map_of (inord t) key"
  using avl_lookup_loc_map [of t key "[]"]
  by (simp add: avl_tree_lookup_def avl_tree_lookup_node_def avl_inv_def comp_def)

lemma avl_lookup_None_iff: "avl_inv t \<Longrightarrow> avl_tree_lookup t key = None \<longleftrightarrow> key \<notin> fst ` set (inord t)"
  by (simp add: avl_lookup_map_of map_of_eq_None_iff)

lemma sorted_insert_keys:
  assumes "sorted_wrt (<) (map fst (xs @ ys))" "\<forall>x \<in> set xs. fst x < key" "\<forall>y \<in> set ys. key < fst y"
  shows "sorted_wrt (<) (map fst (xs @ (key :: u64, n) # ys))"
  using assms by (auto simp: sorted_wrt_append)

lemma avl_insert_new:
  assumes "avl_inv t" "avl_tree_lookup t key = None"
  shows "\<exists>t'. avl_tree_insert t key n = Some t' \<and> avl_inv t'
    \<and> avl_tree_lookup t' = (avl_tree_lookup t)(key \<mapsto> n)"
proof -
  have "key \<notin> fst ` set (inord t)" using assms by (simp add: avl_lookup_None_iff)
  then obtain t' xs ys where t': "avl_tree_insert t key n = Some t'" "avl_ok t'" "inord t = xs @ ys"
    "inord t' = xs @ (key, n) # ys" "\<forall>x \<in> set xs. fst x < key" "\<forall>y \<in> set ys. key < fst y"
    using avl_insert_inord [OF assms(1)] by blast
  have inv: "avl_inv t'"
    using t' assms(1) sorted_insert_keys [of xs ys key n] by (simp add: avl_inv_def)
  have "map_of xs key = None" using t'(5) by (auto simp: map_of_eq_None_iff)
  then have "avl_tree_lookup t' = (avl_tree_lookup t)(key \<mapsto> n)"
    using t'(3,4) by (auto simp: fun_eq_iff avl_lookup_map_of [OF inv] avl_lookup_map_of [OF assms(1)]
        map_add_def split: option.splits)
  with t'(1) inv show ?thesis by blast
qed

lemma avl_remove_present:
  assumes "avl_inv t" "avl_tree_lookup t key = Some n"
  shows "\<exists>t'. avl_remove_key t key = Some t' \<and> avl_inv t'
    \<and> avl_tree_lookup t' = (avl_tree_lookup t)(key := None)"
proof -
  obtain s us where loc: "avl_lookup_loc key t [] = Some (s, us)"
    using assms(2) by (auto simp: avl_tree_lookup_def avl_tree_lookup_node_def)
  then obtain l m h r where s: "s = Node l m key h r" and root: "avl_root s us = t"
    using avl_lookup_loc_root [OF loc] by auto
  obtain t' where t': "avl_tree_remove (s, us) = Some t'" "avl_ok t'"
    "inord t' = lctx us @ inord l @ inord r @ rctx us"
    using avl_remove_loc [of l m key h r us] assms(1) s root by (auto simp: avl_inv_def)
  have tin: "inord t = (lctx us @ inord l) @ (key, m) # (inord r @ rctx us)"
    using inord_root [of s us] root s by simp
  have srt: "sorted_wrt (<) (map fst ((lctx us @ inord l) @ (key, m) # (inord r @ rctx us)))"
    using assms(1) tin by (simp only: avl_inv_def)
  have inv: "avl_inv t'"
    using t' srt by (auto simp: avl_inv_def sorted_wrt_append)
  have "\<forall>x \<in> set (lctx us @ inord l). fst x < key" "\<forall>y \<in> set (inord r @ rctx us). key < fst y"
    using srt unfolding sorted_split_keys by auto
  then have none: "map_of (lctx us @ inord l) key = None" "map_of (inord r @ rctx us) key = None"
    by (auto simp: map_of_eq_None_iff)
  have "avl_tree_lookup t' = (avl_tree_lookup t)(key := None)"
    using none t'(3) tin by (auto simp: fun_eq_iff avl_lookup_map_of [OF inv]
        avl_lookup_map_of [OF assms(1)] map_add_def split: option.splits)
  with t'(1) inv loc show ?thesis
    by (simp add: avl_remove_key_def avl_tree_lookup_node_def)
qed

text \<open>
  What the kernel's users of a tree (thread, process and handle tables) rely on: an index from
  64-bit keys to structures.
\<close>

locale key_index =
  fixes invar :: "'t \<Rightarrow> bool"
    and empty :: 't
    and lookup :: "'t \<Rightarrow> u64 \<Rightarrow> 'n option"
    and insert :: "'t \<Rightarrow> u64 \<Rightarrow> 'n \<Rightarrow> 't option"
    and remove :: "'t \<Rightarrow> u64 \<Rightarrow> 't option"
  assumes invar_empty: "invar empty"
    and lookup_empty: "lookup empty = Map.empty"
    and insert_new: "invar t \<Longrightarrow> lookup t k = None \<Longrightarrow>
      \<exists>t'. insert t k n = Some t' \<and> invar t' \<and> lookup t' = (lookup t)(k \<mapsto> n)"
    and remove_present: "invar t \<Longrightarrow> lookup t k = Some n \<Longrightarrow>
      \<exists>t'. remove t k = Some t' \<and> invar t' \<and> lookup t' = (lookup t)(k := None)"
begin

fun insert_all :: "'t \<Rightarrow> (u64 \<times> 'n) list \<Rightarrow> 't option" where
  "insert_all t [] = Some t"
| "insert_all t ((k, n) # kns) = Option.bind (insert t k n) (\<lambda>t. insert_all t kns)"

lemma insert_all_distinct:
  "invar t \<Longrightarrow> distinct (map fst kns) \<Longrightarrow> \<forall>(k, n) \<in> set kns. lookup t k = None \<Longrightarrow>
   \<exists>t'. insert_all t kns = Some t' \<and> invar t' \<and> lookup t' = lookup t ++ map_of kns"
proof (induction kns arbitrary: t)
  case (Cons kn kns)
  obtain k n where kn: "kn = (k, n)" by (cases kn)
  obtain t1 where t1: "insert t k n = Some t1" "invar t1" "lookup t1 = (lookup t)(k \<mapsto> n)"
    using insert_new [of t k n] Cons.prems kn by auto
  have "\<forall>(k', n') \<in> set kns. lookup t1 k' = None"
    using Cons.prems(2,3) t1(3) kn by force
  then obtain t' where t': "insert_all t1 kns = Some t'" "invar t'"
    "lookup t' = lookup t1 ++ map_of kns"
    using Cons.IH [OF t1(2)] Cons.prems(2) by auto
  have "k \<notin> dom (map_of kns)" using Cons.prems(2) kn by (simp add: dom_map_of_conv_image_fst)
  then have "lookup t1 ++ map_of kns = lookup t ++ map_of ((k, n) # kns)"
    using t1(3) by (auto simp: fun_eq_iff map_add_def split: option.splits)
  with t1(1) t' show ?case unfolding kn by (auto simp del: map_of.simps)
qed simp

lemma insert_remove:
  assumes "invar t" "lookup t k = None"
  shows "\<exists>t1 t2. insert t k n = Some t1 \<and> remove t1 k = Some t2 \<and> invar t2 \<and> lookup t2 = lookup t"
proof -
  obtain t1 where t1: "insert t k n = Some t1" "invar t1" "lookup t1 = (lookup t)(k \<mapsto> n)"
    using insert_new [OF assms] by blast
  then obtain t2 where "remove t1 k = Some t2" "invar t2" "lookup t2 = (lookup t1)(k := None)"
    using remove_present [of t1 k n] by auto
  with t1 assms(2) show ?thesis by (auto simp: fun_eq_iff)
qed

end

interpretation avl: key_index avl_inv avl_tree_init avl_tree_lookup avl_tree_insert avl_remove_key
proof unfold_locales
  show "avl_inv (avl_tree_init :: 'a avl)" "avl_tree_lookup (avl_tree_init :: 'a avl) = Map.empty"
    by (auto simp: avl_tree_init_def avl_inv_def avl_tree_lookup_def avl_tree_lookup_node_def)
  fix t :: "'a avl" and k n
  assume t: "avl_inv t"
  show "avl_tree_lookup t k = None \<Longrightarrow>
      \<exists>t'. avl_tree_insert t k n = Some t' \<and> avl_inv t' \<and> avl_tree_lookup t' = (avl_tree_lookup t)(k \<mapsto> n)"
    using t by (rule avl_insert_new)
  show "avl_tree_lookup t k = Some n \<Longrightarrow>
      \<exists>t'. avl_remove_key t k = Some t' \<and> avl_inv t' \<and> avl_tree_lookup t' = (avl_tree_lookup t)(k := None)"
    using t by (rule avl_remove_present)
qed

section \<open>Properties\<close>

definition avl_example :: "nat avl" where
  "avl_example = Node (Node Tip 1 10 1 Tip) 2 20 0 (Node Tip 3 30 1 Tip)"

lemma avl_example_inv: "avl_inv avl_example"
  by (simp add: avl_example_def avl_inv_def)

text \<open>
  Property C5. Inserting a key that is not in a well-formed tree always succeeds (no \<open>NULL\<close> is
  dereferenced, the rebalancing loop ends), leaves a well-formed tree (ordered, balanced, stored
  heights right below the root), and changes the tree's map in that key alone.
\<close>

theorem avl_insert_correct:
  assumes "avl_inv t" and "avl_tree_lookup t key = None"
  shows "\<exists>t'. avl_tree_insert t key n = Some t' \<and> avl_inv t'
    \<and> avl_tree_lookup t' = (avl_tree_lookup t)(key \<mapsto> n)"
  using assms by (rule avl.insert_new)

theorem avl_insert_correct_witness:
  "\<exists>t'. avl_tree_insert avl_example 25 7 = Some t' \<and> avl_inv t'
    \<and> avl_tree_lookup t' = (avl_tree_lookup avl_example)(25 \<mapsto> 7)"
  using avl_insert_correct [OF avl_example_inv, of 25 7]
  by (simp add: avl_example_def avl_tree_lookup_def avl_tree_lookup_node_def)

text \<open>
  Property C6. Removing the node with a given key from a well-formed tree always succeeds, leaves a
  well-formed tree and deletes exactly that key.
\<close>

theorem avl_remove_correct:
  assumes "avl_inv t" and "avl_tree_lookup t key = Some n"
  shows "\<exists>t'. avl_remove_key t key = Some t' \<and> avl_inv t'
    \<and> avl_tree_lookup t' = (avl_tree_lookup t)(key := None)"
  using assms by (rule avl.remove_present)

theorem avl_remove_correct_witness:
  "\<exists>t'. avl_remove_key avl_example 20 = Some t' \<and> avl_inv t'
    \<and> avl_tree_lookup t' = (avl_tree_lookup avl_example)(20 := None)"
  using avl_remove_correct [OF avl_example_inv, of 20 2]
  by (simp add: avl_example_def avl_tree_lookup_def avl_tree_lookup_node_def)

text \<open>
  Further property. A second insertion of a key that is already in the tree fails the uniqueness
  assertion of \<open>avl_tree_insert\<close>.
\<close>

theorem avl_insert_duplicate_halts:
  assumes "avl_inv t" and "avl_tree_lookup t key = Some m"
  shows "avl_tree_insert t key n = None"
proof -
  have "key \<in> fst ` set (inord t)"
    using assms avl_lookup_None_iff [of t key] by auto
  then have "avl_descend key t [] = None" "t \<noteq> Tip"
    using assms(1) avl_descend_halts_iff [of t key "[]"] by (auto simp: avl_inv_def)
  then show ?thesis by (cases t) (simp_all add: avl_tree_insert_def)
qed

theorem avl_insert_duplicate_halts_witness: "avl_tree_insert avl_example 30 9 = None"
  by (rule avl_insert_duplicate_halts [OF avl_example_inv, of 30 3])
    (simp add: avl_example_def avl_tree_lookup_def avl_tree_lookup_node_def)

text \<open>
  Property C19. \<open>AVL_TREE_FOREACH\<close> (\<open>avl_tree_first\<close>, then \<open>avl_tree_next\<close> until \<open>NULL\<close>) ends and visits
  every node of the tree once, in order.
\<close>

theorem avl_foreach_inorder: "avl_foreach (avl_tree_first t) = Some (inord t)"
proof (cases t)
  case Tip
  then show ?thesis by (simp add: avl_tree_first_def avl_foreach.simps)
next
  case Node
  then have "t \<noteq> Tip" by simp
  from avl_leftmost_locs [OF this, of "[]"] show ?thesis
    using avl_foreach_rest [of "avl_leftmost t []"] locs_inord [of t "[]"] Node
    by (simp add: avl_tree_first_def del: locs.simps avl_leftmost.simps)
qed

text \<open>
  Further property. A well-formed tree is shallow: a tree of height \<open>m\<close> below its root has at least
  \<open>2 ^ (m div 2) - 1\<close> nodes on each side, so a search takes logarithmically many steps and the
  \<open>int\<close> heights cannot overflow.
\<close>

theorem avl_height_logarithmic:
  assumes "avl_inv (Node l n k h r)" and "s \<in> {l, r}"
  shows "2 ^ (nat (ht s) div 2) \<le> length (inord s) + 1"
  using assms avl_size_bound [of s "nat (ht s)"] by (auto simp: avl_inv_def)

theorem avl_height_logarithmic_witness:
  "2 ^ (nat (ht (Node Tip (1 :: nat) 10 1 Tip)) div 2) \<le> length (inord (Node Tip (1 :: nat) 10 1 Tip)) + 1"
  by (rule avl_height_logarithmic [OF avl_example_inv [unfolded avl_example_def]]) simp

end
