(* ===== verification/Kernel_State.thy ===== *)
theory Kernel_State
  imports Bitmap Spinlock
begin

text \<open>
  The part of the kernel's state that the scheduler, the timers, the sleep and wake functions and
  the synchronisation primitives share: threads (\<open>proc/thread.h\<close>), CPUs (\<open>cpu.h\<close>), the per-CPU
  scheduler data (\<open>proc/sched.c\<close>), timers (\<open>time.h\<close>), wait lists and spinlocks.

  \<^item> A thread, CPU or wait list is named by a number, its address. A spinlock is named by the object
    it is embedded in (\<open>lock_ref\<close>), a timer likewise (\<open>timer_ref\<close>).
  \<^item> A list of threads is the HOL list of the threads linked into it. \<open>wait_link\<close> can be in one list
    only: \<open>list_remove\<close> takes it out of whichever list holds it and \<open>list_append\<close> does so first.
  \<^item> \<open>th_frame_irq\<close> is the local variable \<open>state\<close> of the call of \<open>sched_reschedule\<close> in which a thread
    that is not running is suspended (\<open>true\<close> for a new thread, from \<open>thread_trampoline\<close>).
  \<^item> One operation at a time runs, on the CPU \<open>ks_curr_cpu\<close>, with the interrupt state \<open>ks_irq\<close>.
\<close>

section \<open>Data\<close>

datatype thread_state =
  THREAD_CREATED | THREAD_READY | THREAD_RUNNING | THREAD_SLEEPING | THREAD_DEAD

datatype lock_ref = ThreadLock nat | SchedLock nat | TimerLock nat | WaitLock nat

datatype timer_ref = SleepTimer nat | SchedTimer nat | UserTimer nat

datatype timer_mode = TIMER_ONESHOT | TIMER_PERIODIC

datatype timer_device_type = TIMER_DEVICE_PERIODIC | TIMER_DEVICE_ONESHOT

record thread =
  th_state :: thread_state
  th_flags :: u32
  th_priority :: int
  th_wired :: nat
  th_preempt_count :: nat
  th_max_prio :: int
  th_curr_prio :: int
  th_cpu :: "nat option"
  th_timeslice :: int
  th_sleep_status :: status
  th_wait_lock :: "lock_ref option"
  th_owner_priority :: int
  th_owner_kernel :: bool
  th_ipl :: u32
  th_interrupts :: "(u32 \<times> nat) list"
  th_frame_irq :: bool

record sched_queue =
  sq_bitmap :: u64
  sq_threads :: "nat list list"

record sched_cpu =
  sc_prev_thread :: "nat option"
  sc_idle_thread :: nat
  sc_active :: sched_queue
  sc_expired :: sched_queue
  sc_total :: nat

record cpu =
  cpu_thread :: nat
  cpu_should_preempt :: bool
  cpu_idle :: bool
  cpu_timers :: "timer_ref list"
  cpu_timer_enabled :: bool
  cpu_next_tick :: "int option"
  cpu_sched :: sched_cpu

record timer =
  tm_target :: int
  tm_cpu :: "nat option"
  tm_flags :: u32
  tm_mode :: timer_mode
  tm_initial :: int

record ksys =
  ks_threads :: "nat \<Rightarrow> thread"
  ks_cpus :: "nat \<Rightarrow> cpu"
  ks_timers :: "timer_ref \<Rightarrow> timer"
  ks_locks :: "lock_ref \<Rightarrow> spinlock"
  ks_waitq :: "nat \<Rightarrow> nat list"
  ks_running_cpus :: "nat list"
  ks_cpu_count :: nat
  ks_curr_cpu :: nat
  ks_irq :: bool
  ks_now :: int
  ks_timer_device :: timer_device_type
  ks_threads_running :: int
  ks_ipis :: "nat list"
  ks_dpcs :: "timer_ref list"

text \<open>Thread flags (\<open>proc/thread.h\<close>) and sleep flags (\<open>sync/sync.h\<close>).\<close>

definition THREAD_INTERRUPTIBLE :: u32 where "THREAD_INTERRUPTIBLE = 1"
definition THREAD_INTERRUPTED :: u32 where "THREAD_INTERRUPTED = 2"
definition THREAD_KILLED :: u32 where "THREAD_KILLED = 4"
definition THREAD_PREEMPTED :: u32 where "THREAD_PREEMPTED = 8"
definition THREAD_RWLOCK_WRITER :: u32 where "THREAD_RWLOCK_WRITER = 8"

definition SLEEP_INTERRUPTIBLE :: u32 where "SLEEP_INTERRUPTIBLE = 1"
definition SLEEP_ABSOLUTE :: u32 where "SLEEP_ABSOLUTE = 2"

lemmas flag_defs = THREAD_INTERRUPTIBLE_def THREAD_INTERRUPTED_def THREAD_KILLED_def
  THREAD_PREEMPTED_def THREAD_RWLOCK_WRITER_def SLEEP_INTERRUPTIBLE_def SLEEP_ABSOLUTE_def

section \<open>Access and update\<close>

abbreviation thread_of :: "ksys \<Rightarrow> nat \<Rightarrow> thread" where
  "thread_of s t \<equiv> ks_threads s t"

abbreviation cpu_of :: "ksys \<Rightarrow> nat \<Rightarrow> cpu" where
  "cpu_of s c \<equiv> ks_cpus s c"

abbreviation curr_cpu :: "ksys \<Rightarrow> cpu" where
  "curr_cpu s \<equiv> ks_cpus s (ks_curr_cpu s)"

abbreviation curr_thread :: "ksys \<Rightarrow> nat" where
  "curr_thread s \<equiv> cpu_thread (curr_cpu s)"

definition upd_thread :: "nat \<Rightarrow> (thread \<Rightarrow> thread) \<Rightarrow> ksys \<Rightarrow> ksys" where
  "upd_thread t f s = s\<lparr>ks_threads := (ks_threads s)(t := f (ks_threads s t))\<rparr>"

definition upd_cpu :: "nat \<Rightarrow> (cpu \<Rightarrow> cpu) \<Rightarrow> ksys \<Rightarrow> ksys" where
  "upd_cpu c f s = s\<lparr>ks_cpus := (ks_cpus s)(c := f (ks_cpus s c))\<rparr>"

definition upd_timer :: "timer_ref \<Rightarrow> (timer \<Rightarrow> timer) \<Rightarrow> ksys \<Rightarrow> ksys" where
  "upd_timer t f s = s\<lparr>ks_timers := (ks_timers s)(t := f (ks_timers s t))\<rparr>"

definition wait_remove :: "nat \<Rightarrow> ksys \<Rightarrow> ksys" where
  "wait_remove t s = s\<lparr>ks_waitq := (\<lambda>q. removeAll t (ks_waitq s q))\<rparr>"

definition wait_append :: "nat \<Rightarrow> nat \<Rightarrow> ksys \<Rightarrow> ksys" where
  "wait_append q t s =
     (let s = wait_remove t s in s\<lparr>ks_waitq := (ks_waitq s)(q := ks_waitq s q @ [t])\<rparr>)"

text \<open>\<open>size_t\<close> counters: \<open>++\<close> and \<open>--\<close> wrap at 64 bits.\<close>

definition size_inc :: "nat \<Rightarrow> nat" where
  "size_inc n = (n + 1) mod 2 ^ 64"

definition size_dec :: "nat \<Rightarrow> nat" where
  "size_dec n = (n + (2 ^ 64 - 1)) mod 2 ^ 64"

lemma size_dec_pos: "0 < n \<Longrightarrow> n < 2 ^ 64 \<Longrightarrow> size_dec n = n - 1"
  by (cases n) (simp_all add: size_dec_def)

lemma size_inc_less: "n + 1 < 2 ^ 64 \<Longrightarrow> size_inc n = n + 1"
  by (simp add: size_inc_def)

lemmas upd_defs = upd_thread_def upd_cpu_def upd_timer_def wait_remove_def wait_append_def

text \<open>The local interrupt state and \<open>assert\<close>.\<close>

definition local_irq_disable :: "ksys \<Rightarrow> bool \<times> ksys" where
  "local_irq_disable s = (ks_irq s, s\<lparr>ks_irq := False\<rparr>)"

definition local_irq_restore :: "bool \<Rightarrow> ksys \<Rightarrow> ksys" where
  "local_irq_restore state s = s\<lparr>ks_irq := state\<rparr>"

definition assert_k :: "bool \<Rightarrow> unit option" where
  "assert_k b = (if b then Some () else None)"

lemma assert_k_simps [simp]:
  "assert_k True = Some ()" "assert_k False = None" "assert_k b = Some u \<longleftrightarrow> b"
  by (auto simp: assert_k_def)

section \<open>Locks of the state\<close>

definition ks_lock :: "lock_ref \<Rightarrow> ksys \<Rightarrow> ksys option" where
  "ks_lock r s = do {
     (irq, l) \<leftarrow> spinlock_lock (ks_irq s) (ks_locks s r);
     Some (s\<lparr>ks_irq := irq, ks_locks := (ks_locks s)(r := l)\<rparr>)}"

definition ks_lock_noirq :: "lock_ref \<Rightarrow> ksys \<Rightarrow> ksys option" where
  "ks_lock_noirq r s = do {
     (irq, l) \<leftarrow> spinlock_lock_noirq (ks_irq s) (ks_locks s r);
     Some (s\<lparr>ks_irq := irq, ks_locks := (ks_locks s)(r := l)\<rparr>)}"

definition ks_unlock :: "lock_ref \<Rightarrow> ksys \<Rightarrow> ksys option" where
  "ks_unlock r s = do {
     (irq, l) \<leftarrow> spinlock_unlock (ks_irq s) (ks_locks s r);
     Some (s\<lparr>ks_irq := irq, ks_locks := (ks_locks s)(r := l)\<rparr>)}"

definition ks_unlock_noirq :: "lock_ref \<Rightarrow> ksys \<Rightarrow> ksys option" where
  "ks_unlock_noirq r s = do {
     (irq, l) \<leftarrow> spinlock_unlock_noirq (ks_irq s) (ks_locks s r);
     Some (s\<lparr>ks_irq := irq, ks_locks := (ks_locks s)(r := l)\<rparr>)}"

definition lock_free :: "ksys \<Rightarrow> lock_ref \<Rightarrow> bool" where
  "lock_free s r \<longleftrightarrow> sl_value (ks_locks s r) = 1"

definition locks_free :: "ksys \<Rightarrow> bool" where
  "locks_free s \<longleftrightarrow> (\<forall>r. sl_value (ks_locks s r) = 1)"

lemma ks_lock_eq [kernel_step]:
  "ks_lock r s =
     (if sl_value (ks_locks s r) = 1
      then Some (s\<lparr>ks_irq := False,
             ks_locks := (ks_locks s)(r := (ks_locks s r)\<lparr>sl_value := 0, sl_state := ks_irq s\<rparr>)\<rparr>)
      else None)"
  by (simp add: ks_lock_def spinlock_lock_def spinlock_lock_internal_def Let_def)

lemma ks_lock_noirq_eq [kernel_step]:
  "ks_lock_noirq r s =
     (if \<not> ks_irq s \<and> sl_value (ks_locks s r) = 1
      then Some (s\<lparr>ks_locks := (ks_locks s)(r := (ks_locks s r)\<lparr>sl_value := 0\<rparr>)\<rparr>)
      else None)"
  by (simp add: ks_lock_noirq_def spinlock_lock_noirq_def spinlock_lock_internal_def Let_def)

lemma ks_unlock_eq [kernel_step]:
  "ks_unlock r s =
     (if sl_value (ks_locks s r) = 1 then None
      else Some (s\<lparr>ks_irq := sl_state (ks_locks s r),
             ks_locks := (ks_locks s)(r := (ks_locks s r)\<lparr>sl_value := 1\<rparr>)\<rparr>))"
  by (simp add: ks_unlock_def spinlock_unlock_def spinlock_held_def Let_def)

lemma ks_unlock_noirq_eq [kernel_step]:
  "ks_unlock_noirq r s =
     (if sl_value (ks_locks s r) = 1 then None
      else Some (s\<lparr>ks_locks := (ks_locks s)(r := (ks_locks s r)\<lparr>sl_value := 1\<rparr>)\<rparr>))"
  by (simp add: ks_unlock_noirq_def spinlock_unlock_noirq_def spinlock_held_def)

lemma locks_freeD [simp]: "locks_free s \<Longrightarrow> sl_value (ks_locks s r) = 1"
  by (simp add: locks_free_def)

end
