(* ===== verification/Timer.thy ===== *)
theory Timer
  imports Kernel_State
begin

text \<open>
  Model of \<open>time.c\<close>: conversion of a calendar date to Unix time, and the per-CPU timer lists with
  \<open>timer_start\<close>, \<open>timer_stop\<close> and the tick handler \<open>timer_tick\<close>. A timer is linked into the list of
  the CPU it was started on, so \<open>list_empty(&timer->header)\<close> is \<open>\<not> timer_linked\<close>. What the timer
  device was last told is kept in \<open>cpu_next_tick\<close> and \<open>cpu_timer_enabled\<close>. The function of a timer
  is an argument of \<open>timer_tick\<close>; the locale \<open>timer_handler\<close> says what the tick handler relies on, and
  the sleep theory interprets it on the kernel's own timer functions. Nanosecond times are \<open>int\<close>
  (the code's 64 bits overflow after 292 years).
\<close>

section \<open>Date conversion\<close>

definition LEAPYR :: "nat \<Rightarrow> bool" where
  "LEAPYR y \<longleftrightarrow> y mod 4 = 0 \<and> (y mod 100 \<noteq> 0 \<or> y mod 400 = 0)"

definition DAYS :: "nat \<Rightarrow> nat" where
  "DAYS y = (if LEAPYR y then 366 else 365)"

definition days_before_month :: "nat list" where
  "days_before_month =
     [0, 0, 31, 31 + 28, 31 + 28 + 31, 31 + 28 + 31 + 30, 31 + 28 + 31 + 30 + 31,
      31 + 28 + 31 + 30 + 31 + 30, 31 + 28 + 31 + 30 + 31 + 30 + 31,
      31 + 28 + 31 + 30 + 31 + 30 + 31 + 31, 31 + 28 + 31 + 30 + 31 + 30 + 31 + 31 + 30,
      31 + 28 + 31 + 30 + 31 + 30 + 31 + 31 + 30 + 31,
      31 + 28 + 31 + 30 + 31 + 30 + 31 + 31 + 30 + 31 + 30]"

function time_to_unix_years :: "nat \<Rightarrow> nat \<Rightarrow> u32 \<Rightarrow> u32" where
  "time_to_unix_years i year seconds =
     (if i < year then time_to_unix_years (i + 1) year (seconds + of_nat (DAYS i * 24 * 60 * 60))
      else seconds)"
  by auto
termination by (relation "measure (\<lambda>(i, year, _). year - i)") auto

declare time_to_unix_years.simps [simp del]

text \<open>The arguments are \<open>unsigned\<close>; the sum is kept in a \<open>uint32_t\<close>.\<close>

definition time_to_unix :: "nat \<Rightarrow> nat \<Rightarrow> nat \<Rightarrow> nat \<Rightarrow> nat \<Rightarrow> nat \<Rightarrow> int option" where
  "time_to_unix year month day hour minute sec =
     (if length days_before_month \<le> month then None
      else
        let seconds = 0 :: u32;
            seconds = seconds + of_nat sec;
            seconds = seconds + of_nat minute * 60;
            seconds = seconds + of_nat hour * 60 * 60;
            seconds = seconds + (of_nat day - 1) * 24 * 60 * 60;
            seconds = seconds + of_nat (days_before_month ! month) * 24 * 60 * 60;
            seconds = (if 2 < month \<and> LEAPYR year then seconds + 24 * 60 * 60 else seconds);
            seconds = time_to_unix_years 1970 year seconds
        in Some (uint seconds * 1000000000))"

section \<open>Timer lists\<close>

definition TIMER_THREAD :: u32 where "TIMER_THREAD = 1"

definition timer_linked :: "ksys \<Rightarrow> timer_ref \<Rightarrow> bool" where
  "timer_linked s t \<longleftrightarrow>
     (case tm_cpu (ks_timers s t) of None \<Rightarrow> False | Some c \<Rightarrow> t \<in> set (cpu_timers (cpu_of s c)))"

definition timer_init :: "u32 \<Rightarrow> timer" where
  "timer_init flags =
     \<lparr>tm_target = 0, tm_cpu = None, tm_flags = flags, tm_mode = TIMER_ONESHOT, tm_initial = 0\<rparr>"

definition timer_device_prepare :: "timer_ref \<Rightarrow> ksys \<Rightarrow> ksys" where
  "timer_device_prepare t s =
     (let len = tm_target (ks_timers s t) - ks_now s
      in upd_cpu (ks_curr_cpu s)
           (\<lambda>c. c\<lparr>cpu_next_tick := Some (ks_now s + (if 0 < len then len else 1))\<rparr>) s)"

definition timer_device_enable :: "ksys \<Rightarrow> ksys" where
  "timer_device_enable s =
     (if \<not> cpu_timer_enabled (curr_cpu s)
      then upd_cpu (ks_curr_cpu s) (\<lambda>c. c\<lparr>cpu_timer_enabled := True\<rparr>) s else s)"

definition timer_device_disable :: "ksys \<Rightarrow> ksys option" where
  "timer_device_disable s = do {
     assert_k (cpu_timer_enabled (curr_cpu s));
     Some (upd_cpu (ks_curr_cpu s) (\<lambda>c. c\<lparr>cpu_timer_enabled := False\<rparr>) s)}"

text \<open>The search for the insertion point and \<open>list_add_before\<close>.\<close>

fun timer_insert :: "(timer_ref \<Rightarrow> int) \<Rightarrow> timer_ref \<Rightarrow> timer_ref list \<Rightarrow> timer_ref list" where
  "timer_insert target t [] = [t]"
| "timer_insert target t (exist # es) =
     (if target t < target exist then t # exist # es else exist # timer_insert target t es)"

definition timer_start_unsafe :: "timer_ref \<Rightarrow> ksys \<Rightarrow> ksys option" where
  "timer_start_unsafe t s = do {
     assert_k (\<not> timer_linked s t);
     let s = upd_timer t (\<lambda>x. x\<lparr>tm_target := ks_now s + tm_initial x\<rparr>) s;
     Some (upd_cpu (ks_curr_cpu s) (\<lambda>c. c\<lparr>cpu_timers :=
       timer_insert (\<lambda>x. tm_target (ks_timers s x)) t (cpu_timers c)\<rparr>) s)}"

text \<open>The \<open>switch\<close> of \<open>timer_start\<close> on the kind of timer device.\<close>

definition timer_start_device :: "timer_ref \<Rightarrow> ksys \<Rightarrow> ksys" where
  "timer_start_device t s =
     (case ks_timer_device s of
        TIMER_DEVICE_ONESHOT \<Rightarrow>
          if t = hd (cpu_timers (curr_cpu s)) then timer_device_prepare t s else s
      | TIMER_DEVICE_PERIODIC \<Rightarrow> timer_device_enable s)"

definition timer_start :: "timer_ref \<Rightarrow> int \<Rightarrow> timer_mode \<Rightarrow> ksys \<Rightarrow> ksys option" where
  "timer_start t len mode s =
     (if len \<le> 0 then Some s
      else do {
        let (state, s) = local_irq_disable s;
        let s = upd_timer t (\<lambda>x. x\<lparr>tm_cpu := Some (ks_curr_cpu s), tm_mode := mode,
                                    tm_initial := len\<rparr>) s;
        s \<leftarrow> ks_lock_noirq (TimerLock (ks_curr_cpu s)) s;
        s \<leftarrow> timer_start_unsafe t s;
        let s = timer_start_device t s;
        s \<leftarrow> ks_unlock_noirq (TimerLock (ks_curr_cpu s)) s;
        Some (local_irq_restore state s)})"

text \<open>The \<open>switch\<close> of \<open>timer_stop\<close>; the flag says that the timer was the first of the list.\<close>

definition timer_stop_device :: "bool \<Rightarrow> ksys \<Rightarrow> ksys option" where
  "timer_stop_device was_first s =
     (case ks_timer_device s of
        TIMER_DEVICE_ONESHOT \<Rightarrow>
          if was_first \<and> cpu_timers (curr_cpu s) \<noteq> []
          then Some (timer_device_prepare (hd (cpu_timers (curr_cpu s))) s) else Some s
      | TIMER_DEVICE_PERIODIC \<Rightarrow>
          if cpu_timers (curr_cpu s) = [] then timer_device_disable s else Some s)"

definition timer_stop :: "timer_ref \<Rightarrow> ksys \<Rightarrow> ksys option" where
  "timer_stop t s =
     (if timer_linked s t then do {
        c \<leftarrow> tm_cpu (ks_timers s t);
        s \<leftarrow> ks_lock (TimerLock c) s;
        let first = hd (cpu_timers (cpu_of s c));
        let s = upd_cpu c (\<lambda>x. x\<lparr>cpu_timers := removeAll t (cpu_timers x)\<rparr>) s;
        s \<leftarrow> (if c = ks_curr_cpu s then timer_stop_device (first = t) s else Some s);
        ks_unlock (TimerLock c) s}
      else Some s)"

section \<open>The tick handler\<close>

text \<open>The element after \<open>x\<close> in a list, the cached pointer of \<open>LIST_FOREACH_SAFE\<close>.\<close>

fun list_next :: "'a \<Rightarrow> 'a list \<Rightarrow> 'a option" where
  "list_next x [] = None"
| "list_next x (y # ys) = (if x = y then (case ys of [] \<Rightarrow> None | z # _ \<Rightarrow> Some z) else list_next x ys)"

text \<open>The timeout action, and the body of the loop for an expired timer.\<close>

definition timer_action ::
  "(timer_ref \<Rightarrow> ksys \<Rightarrow> (bool \<times> ksys) option) \<Rightarrow> timer_ref \<Rightarrow> bool \<Rightarrow> ksys \<Rightarrow> (bool \<times> ksys) option"
where
  "timer_action func t preempt s =
     (if tm_flags (ks_timers s t) AND TIMER_THREAD \<noteq> 0
      then Some (preempt, s\<lparr>ks_dpcs := ks_dpcs s @ [t]\<rparr>)
      else do {(p, s) \<leftarrow> func t s; Some (if p then True else preempt, s)})"

definition timer_fire ::
  "(timer_ref \<Rightarrow> ksys \<Rightarrow> (bool \<times> ksys) option) \<Rightarrow> timer_ref \<Rightarrow> bool \<times> ksys \<Rightarrow> (bool \<times> ksys) option"
where
  "timer_fire func t ps = do {
     let (preempt, s) = ps;
     let s = upd_cpu (ks_curr_cpu s) (\<lambda>c. c\<lparr>cpu_timers := removeAll t (cpu_timers c)\<rparr>) s;
     (preempt, s) \<leftarrow> timer_action func t preempt s;
     s \<leftarrow> (if tm_mode (ks_timers s t) = TIMER_PERIODIC then timer_start_unsafe t s else Some s);
     Some (preempt, s)}"

partial_function (option) timer_tick_loop ::
  "(timer_ref \<Rightarrow> ksys \<Rightarrow> (bool \<times> ksys) option) \<Rightarrow> int \<Rightarrow> timer_ref option \<Rightarrow> bool \<times> ksys \<Rightarrow>
   (bool \<times> ksys) option"
where
  "timer_tick_loop func time iter ps =
     (case iter of
        None \<Rightarrow> Some ps
      | Some t \<Rightarrow>
          let nxt = list_next t (cpu_timers (curr_cpu (snd ps)))
          in if time < tm_target (ks_timers (snd ps) t) then Some ps
             else Option.bind (timer_fire func t ps) (timer_tick_loop func time nxt))"

definition timer_tick ::
  "(timer_ref \<Rightarrow> ksys \<Rightarrow> (bool \<times> ksys) option) \<Rightarrow> ksys \<Rightarrow> (bool \<times> ksys) option" where
  "timer_tick func s = do {
     let time = ks_now s;
     assert_k (\<not> ks_irq s);
     if \<not> cpu_timer_enabled (curr_cpu s) then Some (False, s)
     else do {
       s \<leftarrow> ks_lock (TimerLock (ks_curr_cpu s)) s;
       let iter = (case cpu_timers (curr_cpu s) of [] \<Rightarrow> None | t # _ \<Rightarrow> Some t);
       (preempt, s) \<leftarrow> timer_tick_loop func time iter (False, s);
       s \<leftarrow> (case ks_timer_device s of
               TIMER_DEVICE_ONESHOT \<Rightarrow>
                 Some (if cpu_timers (curr_cpu s) \<noteq> []
                       then timer_device_prepare (hd (cpu_timers (curr_cpu s))) s else s)
             | TIMER_DEVICE_PERIODIC \<Rightarrow>
                 if cpu_timers (curr_cpu s) = [] then timer_device_disable s else Some s);
       s \<leftarrow> ks_unlock (TimerLock (ks_curr_cpu s)) s;
       Some (preempt, s)}}"

section \<open>Dates: correctness\<close>

text \<open>The calendar: the length of a month and the days from the epoch to a date.\<close>

definition month_length :: "nat \<Rightarrow> nat \<Rightarrow> nat" where
  "month_length y m =
     (if m = 2 then (if LEAPYR y then 29 else 28) else if m \<in> {4, 6, 9, 11} then 30 else 31)"

definition epoch_days :: "nat \<Rightarrow> nat \<Rightarrow> nat \<Rightarrow> nat" where
  "epoch_days y m d = (\<Sum>i\<in>{1970..<y}. DAYS i) + (\<Sum>i\<in>{1..<m}. month_length y i) + (d - 1)"

definition valid_date :: "nat \<Rightarrow> nat \<Rightarrow> nat \<Rightarrow> bool" where
  "valid_date y m d \<longleftrightarrow> 1970 \<le> y \<and> 1 \<le> m \<and> m \<le> 12 \<and> 1 \<le> d \<and> d \<le> month_length y m"

lemma time_to_unix_years_eq:
  "time_to_unix_years i year seconds
     = seconds + of_nat ((\<Sum>j\<in>{i..<year}. DAYS j) * 86400)"
proof (induction i year seconds rule: time_to_unix_years.induct)
  case (1 i year seconds)
  show ?case
  proof (cases "i < year")
    case True
    then have "(\<Sum>j\<in>{i..<year}. DAYS j) = DAYS i + (\<Sum>j\<in>{i + 1..<year}. DAYS j)"
      by (simp add: sum.atLeast_Suc_lessThan)
    with 1 True show ?thesis
      by (simp add: time_to_unix_years.simps [of i] algebra_simps)
  next
    case False
    then show ?thesis by (simp add: time_to_unix_years.simps [of i])
  qed
qed

lemma length_days_before_month: "length days_before_month = 13"
  by (simp add: days_before_month_def)

lemma month_cases:
  "1 \<le> m \<Longrightarrow> m \<le> 12 \<Longrightarrow>
   m \<in> {1::nat, 2, 3, 4, 5, 6, 7, 8, 9, 10, 11, 12}"
  by (simp, presburger)

lemma days_before_month_eq:
  "1 \<le> m \<Longrightarrow> m \<le> 12 \<Longrightarrow>
   (\<Sum>i\<in>{1..<m}. month_length y i)
     = days_before_month ! m + (if 2 < m \<and> LEAPYR y then 1 else 0)"
  by (drule month_cases, assumption)
    (auto simp: days_before_month_def month_length_def numeral_eq_Suc sum.atLeastLessThan_Suc)

lemma years_bound_leap:
  "(\<Sum>i\<in>{1970..<1970 + n}. DAYS i) + 492 \<le> 365 * n + (1969 + n) div 4"
proof (induction n)
  case (Suc n)
  have "DAYS (1970 + n) + (1969 + n) div 4 \<le> 365 + (1969 + Suc n) div 4"
  proof (cases "(1970 + n) mod 4 = 0")
    case True
    moreover have "DAYS (1970 + n) \<le> 366" by (simp add: DAYS_def)
    ultimately show ?thesis by presburger
  next
    case False
    then have "DAYS (1970 + n) = 365" by (simp add: DAYS_def LEAPYR_def)
    then show ?thesis by presburger
  qed
  with Suc show ?case
    by (simp add: sum.atLeastLessThan_Suc [of 1970 "1970 + n", simplified])
qed simp

lemma years_bound: "1970 \<le> y \<Longrightarrow> y \<le> 2105 \<Longrightarrow> (\<Sum>i\<in>{1970..<y}. DAYS i) \<le> 49309"
  using years_bound_leap [of "y - 1970"] by auto

lemma epoch_days_bound:
  assumes "valid_date y m d" and "y \<le> 2105"
  shows "epoch_days y m d < 49309 + 366"
proof -
  have "days_before_month ! m + month_length y m \<le> 365 + (if LEAPYR y \<and> m = 2 then 1 else 0)"
    using assms month_cases [of m]
    by (auto simp: valid_date_def days_before_month_def month_length_def)
  with assms days_before_month_eq [of m y] years_bound [of y] show ?thesis
    by (auto simp: epoch_days_def valid_date_def split: if_splits)
qed



section \<open>Timer lists: invariant and starting and stopping\<close>

abbreviation target_of :: "ksys \<Rightarrow> timer_ref \<Rightarrow> int" where
  "target_of s t \<equiv> tm_target (ks_timers s t)"

definition timers_ok :: "ksys \<Rightarrow> nat \<Rightarrow> bool" where
  "timers_ok s c \<longleftrightarrow>
     (let ts = cpu_timers (cpu_of s c)
      in distinct ts \<and> sorted (map (target_of s) ts)
       \<and> (\<forall>t\<in>set ts. tm_cpu (ks_timers s t) = Some c \<and> 0 < tm_initial (ks_timers s t)))"

definition timers_inv :: "ksys \<Rightarrow> bool" where
  "timers_inv s \<longleftrightarrow> (\<forall>c. timers_ok s c)"

text \<open>A one-shot device is programmed to tick by the time the first timer of the list is due.\<close>

definition timer_armed :: "ksys \<Rightarrow> bool" where
  "timer_armed s \<longleftrightarrow>
     (case cpu_timers (curr_cpu s) of
        [] \<Rightarrow> True
      | t # _ \<Rightarrow>
         (case ks_timer_device s of
            TIMER_DEVICE_PERIODIC \<Rightarrow> cpu_timer_enabled (curr_cpu s)
          | TIMER_DEVICE_ONESHOT \<Rightarrow>
             (case cpu_next_tick (curr_cpu s) of
                None \<Rightarrow> False | Some k \<Rightarrow> k \<le> max (target_of s t) (ks_now s + 1))))"

lemma timer_armed_iff:
  "timer_armed s \<longleftrightarrow>
     (cpu_timers (curr_cpu s) \<noteq> [] \<longrightarrow>
        (ks_timer_device s = TIMER_DEVICE_PERIODIC \<longrightarrow> cpu_timer_enabled (curr_cpu s))
      \<and> (ks_timer_device s = TIMER_DEVICE_ONESHOT \<longrightarrow>
           (\<exists>k. cpu_next_tick (curr_cpu s) = Some k
              \<and> k \<le> max (target_of s (hd (cpu_timers (curr_cpu s)))) (ks_now s + 1))))"
  by (auto simp: timer_armed_def split: list.splits timer_device_type.splits option.splits)

lemma set_timer_insert [simp]: "set (timer_insert f t ts) = insert t (set ts)"
  by (induction ts) auto

lemma distinct_timer_insert [simp]:
  "t \<notin> set ts \<Longrightarrow> distinct (timer_insert f t ts) \<longleftrightarrow> distinct ts"
  by (induction ts) auto

lemma sorted_timer_insert: "sorted (map f ts) \<Longrightarrow> sorted (map f (timer_insert f t ts))"
  by (induction ts) (auto simp: not_less intro: order_trans less_imp_le)

lemma timer_insert_not_Nil [simp]: "timer_insert f t ts \<noteq> []"
  by (cases ts) auto

lemma hd_timer_insert:
  "hd (timer_insert f t ts) = (if ts = [] \<or> f t < f (hd ts) then t else hd ts)"
  by (cases ts) auto

lemma timer_insert_cong:
  "(\<And>x. x \<in> insert t (set ts) \<Longrightarrow> f x = g x) \<Longrightarrow> timer_insert f t ts = timer_insert g t ts"
  by (induction ts) auto

lemma takeWhile_timer_insert:
  "\<not> P t \<Longrightarrow> (\<And>x. x \<in> set ts \<Longrightarrow> P x \<longleftrightarrow> f x \<le> n) \<Longrightarrow> n < f t \<Longrightarrow>
   takeWhile P (timer_insert f t ts) = takeWhile P ts"
  by (induction ts) auto

lemma timer_linked_iff:
  "timers_inv s \<Longrightarrow> timer_linked s t \<longleftrightarrow> (\<exists>c. t \<in> set (cpu_timers (cpu_of s c)))"
  by (auto simp: timer_linked_def timers_inv_def timers_ok_def Let_def split: option.splits)

lemma timer_linked_cong:
  "tm_cpu (ks_timers s' t) = tm_cpu (ks_timers s t) \<Longrightarrow>
   (\<And>c. cpu_timers (cpu_of s' c) = cpu_timers (cpu_of s c)) \<Longrightarrow> timer_linked s' t = timer_linked s t"
  by (simp add: timer_linked_def split: option.splits)

lemma timers_okD:
  assumes "timers_ok s c" and "t \<in> set (cpu_timers (cpu_of s c))"
  shows "tm_cpu (ks_timers s t) = Some c" and "0 < tm_initial (ks_timers s t)"
  using assms by (auto simp: timers_ok_def Let_def)

lemma sorted_map_cong:
  "sorted (map f xs) \<Longrightarrow> (\<And>x. x \<in> set xs \<Longrightarrow> f x = g x) \<Longrightarrow> sorted (map g xs)"
  using map_cong [OF refl, of xs f g] by simp

lemma timers_ok_removeAll:
  "timers_ok s c \<Longrightarrow> cpu_timers (cpu_of s' c) = removeAll t (cpu_timers (cpu_of s c)) \<Longrightarrow>
   ks_timers s' = ks_timers s \<Longrightarrow> timers_ok s' c"
  by (auto simp: timers_ok_def Let_def removeAll_filter_not_eq sorted_filter)

lemma timers_ok_cong:
  "timers_ok s c \<Longrightarrow> cpu_timers (cpu_of s' c) = cpu_timers (cpu_of s c) \<Longrightarrow>
   (\<And>t. t \<in> set (cpu_timers (cpu_of s c)) \<Longrightarrow> ks_timers s' t = ks_timers s t) \<Longrightarrow> timers_ok s' c"
  by (auto simp: timers_ok_def Let_def cong: map_cong)

text \<open>Starting: the effect on the lists, shared by \<open>timer_start\<close> and the restart of a periodic timer.\<close>

definition timer_started :: "timer_ref \<Rightarrow> ksys \<Rightarrow> ksys" where
  "timer_started t s =
     (let s = upd_timer t (\<lambda>x. x\<lparr>tm_target := ks_now s + tm_initial x\<rparr>) s
      in upd_cpu (ks_curr_cpu s)
           (\<lambda>c. c\<lparr>cpu_timers := timer_insert (target_of s) t (cpu_timers c)\<rparr>) s)"

lemma timer_start_unsafe_eq [kernel_step]:
  "timer_start_unsafe t s = (if timer_linked s t then None else Some (timer_started t s))"
  by (simp add: timer_start_unsafe_def timer_started_def Let_def assert_k_def)

lemma timer_started_proj [simp]:
  "ks_threads (timer_started t s) = ks_threads s"
  "ks_locks (timer_started t s) = ks_locks s"
  "ks_waitq (timer_started t s) = ks_waitq s"
  "ks_curr_cpu (timer_started t s) = ks_curr_cpu s"
  "ks_irq (timer_started t s) = ks_irq s"
  "ks_now (timer_started t s) = ks_now s"
  "ks_timer_device (timer_started t s) = ks_timer_device s"
  "ks_timers (timer_started t s)
     = (ks_timers s)(t := (ks_timers s t)\<lparr>tm_target := ks_now s + tm_initial (ks_timers s t)\<rparr>)"
  by (simp_all add: timer_started_def upd_defs Let_def)

lemma timers_ok_started:
  assumes inv: "timers_inv s" and new: "\<not> timer_linked s t"
    and t: "tm_cpu (ks_timers s t) = Some (ks_curr_cpu s)" "0 < tm_initial (ks_timers s t)"
  shows "timers_inv (timer_started t s)"
  unfolding timers_inv_def
proof
  fix c
  have c: "timers_ok s c" and n: "t \<notin> set (cpu_timers (cpu_of s c))"
    using inv new timer_linked_iff [OF inv] by (auto simp: timers_inv_def)
  let ?f = "\<lambda>x. target_of (timer_started t s) x"
  have sorted: "sorted (map ?f (cpu_timers (cpu_of s c)))"
    by (rule sorted_map_cong [where f = "target_of s"])
      (use c n in \<open>auto simp: timers_ok_def Let_def\<close>)
  show "timers_ok (timer_started t s) c"
  proof (cases "c = ks_curr_cpu s")
    case True
    let ?ts = "cpu_timers (cpu_of s c)"
    have l: "cpu_timers (cpu_of (timer_started t s) c) = timer_insert ?f t (cpu_timers (cpu_of s c))"
      using True by (simp add: timer_started_def upd_defs Let_def)
    have "distinct (timer_insert ?f t ?ts)"
      using c n by (simp add: timers_ok_def Let_def)
    moreover have "\<forall>x\<in>set (timer_insert ?f t ?ts).
        tm_cpu (ks_timers (timer_started t s) x) = Some c
        \<and> 0 < tm_initial (ks_timers (timer_started t s) x)"
      using t True timers_okD [OF c] by auto
    ultimately show ?thesis
      unfolding timers_ok_def Let_def l using sorted_timer_insert [OF sorted, of t] by simp
  next
    case False
    show ?thesis
      by (rule timers_ok_cong [OF c]) (use n False in \<open>auto simp: timer_started_def upd_defs Let_def split: if_splits\<close>)
  qed
qed

lemma timer_start_device_proj [simp]:
  "ks_threads (timer_start_device t s) = ks_threads s"
  "ks_timers (timer_start_device t s) = ks_timers s"
  "ks_locks (timer_start_device t s) = ks_locks s"
  "ks_waitq (timer_start_device t s) = ks_waitq s"
  "ks_curr_cpu (timer_start_device t s) = ks_curr_cpu s"
  "ks_irq (timer_start_device t s) = ks_irq s"
  "ks_now (timer_start_device t s) = ks_now s"
  "ks_timer_device (timer_start_device t s) = ks_timer_device s"
  "cpu_timers (cpu_of (timer_start_device t s) c) = cpu_timers (cpu_of s c)"
  "cpu_sched (cpu_of (timer_start_device t s) c) = cpu_sched (cpu_of s c)"
  "cpu_thread (cpu_of (timer_start_device t s) c) = cpu_thread (cpu_of s c)"
  "cpu_idle (cpu_of (timer_start_device t s) c) = cpu_idle (cpu_of s c)"
  by (simp_all add: timer_start_device_def timer_device_prepare_def timer_device_enable_def
      upd_defs Let_def split: timer_device_type.splits)

lemma timer_armed_started:
  assumes "timer_armed s" and "t \<notin> set (cpu_timers (curr_cpu s))"
  shows "timer_armed (timer_start_device t (timer_started t s))"
proof -
  let ?f = "\<lambda>x. target_of (timer_started t s) x"
  have l: "cpu_timers (curr_cpu (timer_started t s)) = timer_insert ?f t (cpu_timers (curr_cpu s))"
    by (simp add: timer_started_def upd_defs Let_def)
  then obtain x xs where x: "cpu_timers (curr_cpu (timer_started t s)) = x # xs"
    by (metis list.exhaust timer_insert_not_Nil)
  have hx: "x = hd (timer_insert ?f t (cpu_timers (curr_cpu s)))" by (metis l x list.sel(1))
  have enab: "cpu_timer_enabled (curr_cpu (timer_started t s)) = cpu_timer_enabled (curr_cpu s)"
      "cpu_next_tick (curr_cpu (timer_started t s)) = cpu_next_tick (curr_cpu s)"
    by (simp_all add: timer_started_def upd_defs Let_def)
  show ?thesis
  proof (cases "x = t")
    case True
    with x show ?thesis
      by (auto simp: timer_armed_def timer_start_device_def timer_device_prepare_def
          timer_device_enable_def upd_defs Let_def split: timer_device_type.splits)
  next
    case False
    then obtain ys where "cpu_timers (curr_cpu s) = x # ys" and "x \<noteq> t"
      using hx by (cases "cpu_timers (curr_cpu s)") (auto split: if_splits)
    with x assms enab False show ?thesis
      by (auto simp: timer_armed_def timer_start_device_def timer_device_enable_def
          upd_defs Let_def split: timer_device_type.splits option.splits)
  qed
qed

definition timer_configured :: "timer_ref \<Rightarrow> int \<Rightarrow> timer_mode \<Rightarrow> ksys \<Rightarrow> ksys" where
  "timer_configured t len mode s =
     upd_timer t (\<lambda>x. x\<lparr>tm_cpu := Some (ks_curr_cpu s), tm_mode := mode, tm_initial := len\<rparr>) s"

lemma timer_started_irq_locks:
  "timer_started t (s\<lparr>ks_irq := i, ks_locks := l\<rparr>) = (timer_started t s)\<lparr>ks_irq := i, ks_locks := l\<rparr>"
  by (simp add: timer_started_def upd_defs Let_def)

lemma timer_start_device_irq_locks:
  "timer_start_device t (s\<lparr>ks_irq := i, ks_locks := l\<rparr>)
     = (timer_start_device t s)\<lparr>ks_irq := i, ks_locks := l\<rparr>"
  by (simp add: timer_start_device_def timer_device_prepare_def timer_device_enable_def upd_defs
      Let_def split: timer_device_type.splits)

lemma timer_configured_irq:
  "upd_timer t (\<lambda>x. x\<lparr>tm_cpu := Some (ks_curr_cpu s), tm_mode := mode, tm_initial := len\<rparr>)
     (s\<lparr>ks_irq := i\<rparr>) = (timer_configured t len mode s)\<lparr>ks_irq := i\<rparr>"
  by (simp add: timer_configured_def upd_defs)

lemma timer_configured_proj [simp]:
  "ks_threads (timer_configured t len mode s) = ks_threads s"
  "ks_cpus (timer_configured t len mode s) = ks_cpus s"
  "ks_locks (timer_configured t len mode s) = ks_locks s"
  "ks_waitq (timer_configured t len mode s) = ks_waitq s"
  "ks_curr_cpu (timer_configured t len mode s) = ks_curr_cpu s"
  "ks_irq (timer_configured t len mode s) = ks_irq s"
  "ks_now (timer_configured t len mode s) = ks_now s"
  "ks_timer_device (timer_configured t len mode s) = ks_timer_device s"
  "ks_timers (timer_configured t len mode s) = (ks_timers s)(t := (ks_timers s t)
     \<lparr>tm_cpu := Some (ks_curr_cpu s), tm_mode := mode, tm_initial := len\<rparr>)"
  by (simp_all add: timer_configured_def upd_defs)

lemma timer_linked_configured:
  "t \<notin> set (cpu_timers (curr_cpu s)) \<Longrightarrow>
   \<not> timer_linked ((timer_configured t len mode s)\<lparr>ks_irq := i, ks_locks := l\<rparr>) t"
  by (simp add: timer_linked_def)

lemma lock_cycle [simp]: "sl_value l = 1 \<Longrightarrow> l\<lparr>sl_value := 1\<rparr> = l"
  by simp

lemma timer_start_eq [kernel_step]:
  "0 < len \<Longrightarrow> sl_value (ks_locks s (TimerLock (ks_curr_cpu s))) = 1 \<Longrightarrow>
   t \<notin> set (cpu_timers (curr_cpu s)) \<Longrightarrow>
   timer_start t len mode s
     = Some (timer_start_device t (timer_started t (timer_configured t len mode s)))"
  by (simp add: timer_start_def local_irq_disable_def local_irq_restore_def
      timer_configured_irq ks_lock_noirq_eq timer_start_unsafe_eq timer_linked_configured
      timer_started_irq_locks timer_start_device_irq_locks ks_unlock_noirq_eq)
text \<open>
  What starting and stopping timers leaves alone: everything but the timer lists, the timers and the
  timer device.
\<close>

definition timer_frame :: "ksys \<Rightarrow> ksys \<Rightarrow> bool" where
  "timer_frame s s' \<longleftrightarrow>
     ks_threads s' = ks_threads s \<and> ks_waitq s' = ks_waitq s
   \<and> (\<forall>t. tm_flags (ks_timers s' t) = tm_flags (ks_timers s t))
   \<and> (\<forall>r. sl_value (ks_locks s' r) = sl_value (ks_locks s r))
   \<and> (\<forall>r. (\<forall>c. r \<noteq> TimerLock c) \<longrightarrow> ks_locks s' r = ks_locks s r)
   \<and> ks_running_cpus s' = ks_running_cpus s \<and> ks_cpu_count s' = ks_cpu_count s \<and> ks_curr_cpu s' = ks_curr_cpu s
   \<and> ks_irq s' = ks_irq s \<and> ks_now s' = ks_now s \<and> ks_timer_device s' = ks_timer_device s
   \<and> ks_threads_running s' = ks_threads_running s \<and> ks_ipis s' = ks_ipis s \<and> ks_dpcs s' = ks_dpcs s
   \<and> (\<forall>c. cpu_thread (cpu_of s' c) = cpu_thread (cpu_of s c)
        \<and> cpu_should_preempt (cpu_of s' c) = cpu_should_preempt (cpu_of s c)
        \<and> cpu_idle (cpu_of s' c) = cpu_idle (cpu_of s c)
        \<and> cpu_sched (cpu_of s' c) = cpu_sched (cpu_of s c))"

lemma timer_frame_refl [simp]: "timer_frame s s"
  by (simp add: timer_frame_def)

lemma timer_start_frame:
  "timer_frame s (timer_start_device t (timer_started t (timer_configured t len mode s)))"
  by (simp add: timer_frame_def timer_start_device_def timer_started_def timer_configured_def
      timer_device_prepare_def timer_device_enable_def upd_defs Let_def
      split: timer_device_type.splits)

lemma timers_inv_cong:
  assumes "timers_inv s" and "\<And>c. cpu_timers (cpu_of s' c) = cpu_timers (cpu_of s c)"
    and "\<And>t. timer_linked s t \<Longrightarrow> ks_timers s' t = ks_timers s t"
  shows "timers_inv s'"
  unfolding timers_inv_def
proof
  fix c
  have "timers_ok s c" using assms(1) by (simp add: timers_inv_def)
  then show "timers_ok s' c"
    by (rule timers_ok_cong) (use assms timer_linked_iff [OF assms(1)] in auto)
qed

lemma timers_inv_configured:
  "timers_inv s \<Longrightarrow> \<not> timer_linked s t \<Longrightarrow> timers_inv (timer_configured t len mode s)"
  by (rule timers_inv_cong) auto

lemma timers_inv_start_device: "timers_inv s \<Longrightarrow> timers_inv (timer_start_device t s)"
  by (rule timers_inv_cong) auto

lemma timer_armed_configured:
  "timer_armed s \<Longrightarrow> t \<notin> set (cpu_timers (curr_cpu s)) \<Longrightarrow> timer_armed (timer_configured t len mode s)"
  by (auto simp: timer_armed_def split: list.splits timer_device_type.splits option.splits)

lemma timer_start_ok:
  "timers_inv s \<Longrightarrow> timer_armed s \<Longrightarrow> \<not> timer_linked s t \<Longrightarrow> 0 < len \<Longrightarrow>
   sl_value (ks_locks s (TimerLock (ks_curr_cpu s))) = 1 \<Longrightarrow>
   \<exists>s'. timer_start t len mode s = Some s' \<and> timers_inv s' \<and> timer_armed s' \<and> timer_frame s s'
      \<and> timer_linked s' t \<and> target_of s' t = ks_now s + len \<and> tm_mode (ks_timers s' t) = mode
      \<and> removeAll t (cpu_timers (curr_cpu s')) = cpu_timers (curr_cpu s)
      \<and> (\<forall>x. x \<noteq> t \<longrightarrow> timer_linked s' x = timer_linked s x \<and> ks_timers s' x = ks_timers s x)"
proof -
  assume a: "timers_inv s" "timer_armed s" "\<not> timer_linked s t" "0 < len"
    "sl_value (ks_locks s (TimerLock (ks_curr_cpu s))) = 1"
  let ?c = "timer_configured t len mode s"
  let ?s = "timer_start_device t (timer_started t ?c)"
  have n: "t \<notin> set (cpu_timers (curr_cpu s))" using a timer_linked_iff [OF a(1)] by auto
  have inv: "timers_inv ?c" using a by (simp add: timers_inv_configured)
  have nl: "\<not> timer_linked ?c t" using n by (simp add: timer_linked_def)
  have l: "cpu_timers (curr_cpu (timer_started t ?c))
      = timer_insert (target_of (timer_started t ?c)) t (cpu_timers (curr_cpu s))"
    by (simp add: timer_started_def upd_defs Let_def timer_configured_def)
  have "removeAll t (timer_insert f t xs) = xs" if "t \<notin> set xs" for f xs
    using that by (induction xs) auto
  then have "removeAll t (cpu_timers (curr_cpu ?s)) = cpu_timers (curr_cpu s)"
    using n l by simp
  moreover have "timers_inv ?s"
    using a inv nl by (intro timers_inv_start_device timers_ok_started) simp_all
  moreover have "timer_armed ?s"
    using a n by (intro timer_armed_started timer_armed_configured) simp_all
  moreover have "timer_linked ?s t" using l by (simp add: timer_linked_def)
  moreover have "timer_start t len mode s = Some ?s" using a n by (simp add: timer_start_eq)
  moreover have "timer_linked ?s x = timer_linked s x \<and> ks_timers ?s x = ks_timers s x" if "x \<noteq> t" for x
    using that l by (simp add: timer_linked_def timer_started_def upd_defs Let_def split: option.splits)
  ultimately show ?thesis using a timer_start_frame [of s t len mode] by simp
qed


lemma timer_stop_idle [simp]: "\<not> timer_linked s t \<Longrightarrow> timer_stop t s = Some s"
  by (simp add: timer_stop_def)

text \<open>The list update and the device \<open>switch\<close> of \<open>timer_stop\<close>.\<close>

definition timer_unlinked :: "timer_ref \<Rightarrow> nat \<Rightarrow> ksys \<Rightarrow> ksys" where
  "timer_unlinked t c s = upd_cpu c (\<lambda>x. x\<lparr>cpu_timers := removeAll t (cpu_timers x)\<rparr>) s"

lemma timer_unlinked_frame: "timer_frame s (timer_unlinked t c s)"
  by (simp add: timer_frame_def timer_unlinked_def upd_defs)

lemma timer_unlinked_proj [simp]:
  "ks_timers (timer_unlinked t c s) = ks_timers s"
  "cpu_timers (cpu_of (timer_unlinked t c s) d)
     = (if d = c then removeAll t (cpu_timers (cpu_of s d)) else cpu_timers (cpu_of s d))"
  by (simp_all add: timer_unlinked_def upd_defs)

lemma timers_inv_unlinked: "timers_inv s \<Longrightarrow> timers_inv (timer_unlinked t c s)"
  unfolding timers_inv_def
proof
  fix d
  assume "\<forall>c. timers_ok s c"
  then have ok: "timers_ok s d" by simp
  show "timers_ok (timer_unlinked t c s) d"
  proof (cases "d = c")
    case True
    show ?thesis by (rule timers_ok_removeAll [OF ok, of _ t]) (use True in simp_all)
  next
    case False
    show ?thesis by (rule timers_ok_cong [OF ok]) (use False in simp_all)
  qed
qed

lemma timer_stop_device_ok:
  assumes "ks_timer_device s = TIMER_DEVICE_PERIODIC \<Longrightarrow> cpu_timer_enabled (curr_cpu s)"
  shows "\<exists>s'. timer_stop_device b s = Some s' \<and> timer_frame s s' \<and> ks_timers s' = ks_timers s
      \<and> ks_locks s' = ks_locks s
      \<and> (\<forall>c. cpu_timers (cpu_of s' c) = cpu_timers (cpu_of s c)
           \<and> (c \<noteq> ks_curr_cpu s \<longrightarrow> cpu_of s' c = cpu_of s c))"
proof (cases "ks_timer_device s")
  case TIMER_DEVICE_PERIODIC
  with assms show ?thesis
    by (simp add: timer_stop_device_def timer_device_disable_def timer_frame_def upd_defs
        assert_k_def)
next
  case TIMER_DEVICE_ONESHOT
  then show ?thesis
    by (simp add: timer_stop_device_def timer_device_prepare_def timer_frame_def upd_defs Let_def)
qed

lemma timer_stop_device_armed:
  assumes "timer_stop_device b s = Some s'"
    and "cpu_timers (curr_cpu s) \<noteq> [] \<Longrightarrow>
      b \<and> (ks_timer_device s = TIMER_DEVICE_PERIODIC \<longrightarrow> cpu_timer_enabled (curr_cpu s))
      \<or> timer_armed s"
  shows "timer_armed s'"
proof (cases "cpu_timers (curr_cpu s)")
  case Nil
  with assms(1) show ?thesis
    by (auto simp: timer_stop_device_def timer_device_disable_def timer_armed_def upd_defs
        split: timer_device_type.splits)
next
  case (Cons x xs)
  show ?thesis
  proof (cases "ks_timer_device s = TIMER_DEVICE_ONESHOT \<and> b")
    case True
    with Cons assms show ?thesis
      by (auto simp: timer_stop_device_def timer_device_prepare_def timer_armed_def upd_defs Let_def)
  next
    case False
    with Cons assms have "s' = s"
      by (auto simp: timer_stop_device_def split: timer_device_type.splits)
    with Cons assms False show ?thesis
      by (cases "ks_timer_device s") (auto simp: timer_armed_def)
  qed
qed

lemma timer_frame_trans: "timer_frame s t \<Longrightarrow> timer_frame t u \<Longrightarrow> timer_frame s u"
  by (simp add: timer_frame_def)

lemma timer_armed_irq_locks [simp]:
  "timer_armed (s\<lparr>ks_irq := i, ks_locks := l\<rparr>) = timer_armed s"
  by (simp add: timer_armed_iff)

lemma timers_inv_irq_locks [simp]:
  "timers_inv (s\<lparr>ks_irq := i, ks_locks := l\<rparr>) = timers_inv s"
  by (simp add: timers_inv_def timers_ok_def)

lemma timer_inv_locks [simp]:
  "timers_inv (s\<lparr>ks_locks := l\<rparr>) = timers_inv s" "timer_armed (s\<lparr>ks_locks := l\<rparr>) = timer_armed s"
  by (simp_all add: timer_armed_iff timers_inv_def timers_ok_def)

lemma timer_inv_irq [simp]:
  "timers_inv (s\<lparr>ks_irq := i\<rparr>) = timers_inv s" "timer_armed (s\<lparr>ks_irq := i\<rparr>) = timer_armed s"
  by (simp_all add: timer_armed_iff timers_inv_def timers_ok_def)

lemma timer_armed_cong:
  assumes "timer_armed s" and "ks_curr_cpu s' = ks_curr_cpu s" and "ks_now s' = ks_now s"
    and "ks_timer_device s' = ks_timer_device s" and "ks_timers s' = ks_timers s"
    and "cpu_timers (curr_cpu s') = cpu_timers (curr_cpu s)"
    and "cpu_timer_enabled (curr_cpu s') = cpu_timer_enabled (curr_cpu s)"
    and "cpu_next_tick (curr_cpu s') = cpu_next_tick (curr_cpu s)"
  shows "timer_armed s'"
  using assms by (simp add: timer_armed_iff)

lemma timer_armed_unlinked:
  assumes "timer_armed s" and "c = ks_curr_cpu s \<Longrightarrow> hd (cpu_timers (cpu_of s c)) \<noteq> t"
  shows "timer_armed (timer_unlinked t c s)"
proof (cases "c = ks_curr_cpu s \<and> cpu_timers (curr_cpu s) \<noteq> []")
  case True
  then obtain x xs where "cpu_timers (curr_cpu s) = x # xs"
    by (auto simp: neq_Nil_conv)
  with True assms show ?thesis
    by (simp add: timer_armed_iff timer_unlinked_def upd_defs)
next
  case False
  with assms show ?thesis
    by (auto simp add: timer_armed_iff timer_unlinked_def upd_defs)
qed

lemma timer_stop_device_unlinked:
  assumes armed: "timer_armed s" and t: "t \<in> set (cpu_timers (cpu_of s c))"
    and u: "u = (timer_unlinked t c s)\<lparr>ks_irq := i, ks_locks := l\<rparr>"
  shows "\<exists>v. (if c = ks_curr_cpu s then timer_stop_device (hd (cpu_timers (cpu_of s c)) = t) u
              else Some u) = Some v
      \<and> timer_frame u v \<and> ks_timers v = ks_timers s \<and> ks_locks v = l \<and> timer_armed v
      \<and> (\<forall>d. cpu_timers (cpu_of v d) = cpu_timers (cpu_of u d))"
proof (cases "c = ks_curr_cpu s")
  case True
  let ?first = "hd (cpu_timers (cpu_of s c)) = t"
  have en: "ks_timer_device u = TIMER_DEVICE_PERIODIC \<Longrightarrow> cpu_timer_enabled (curr_cpu u)"
    using armed t True unfolding u
    by (auto simp: timer_armed_iff timer_unlinked_def upd_defs)
  obtain v where v: "timer_stop_device ?first u = Some v" "timer_frame u v"
      "ks_timers v = ks_timers u" "ks_locks v = ks_locks u"
      "\<forall>d. cpu_timers (cpu_of v d) = cpu_timers (cpu_of u d)"
    using timer_stop_device_ok [of u ?first] en by auto
  have "\<not> ?first \<Longrightarrow> timer_armed u"
    using timer_armed_unlinked [OF armed, of c t] True unfolding u by simp
  then have "timer_armed v"
    by (intro timer_stop_device_armed [OF v(1)]) (use en in auto)
  with v True show ?thesis unfolding u by auto
next
  case False
  then have "timer_armed u"
    using timer_armed_unlinked [OF armed] unfolding u by simp
  with False show ?thesis unfolding u by simp
qed

lemma timer_stop_ok:
  "timers_inv s \<Longrightarrow> timer_armed s \<Longrightarrow> (\<forall>c. sl_value (ks_locks s (TimerLock c)) = 1) \<Longrightarrow>
   \<exists>s'. timer_stop t s = Some s' \<and> timers_inv s' \<and> timer_armed s' \<and> timer_frame s s'
      \<and> \<not> timer_linked s' t \<and> ks_timers s' = ks_timers s
      \<and> (\<forall>c. cpu_timers (cpu_of s' c) = removeAll t (cpu_timers (cpu_of s c)))
      \<and> (\<forall>x. x \<noteq> t \<longrightarrow> timer_linked s' x = timer_linked s x)"
proof (cases "timer_linked s t")
  case False
  assume a: "timers_inv s" "timer_armed s"
  show ?thesis
    using False a timer_linked_iff [OF a(1)] by (auto simp: removeAll_id)
next
  case True
  assume a: "timers_inv s" "timer_armed s" "\<forall>c. sl_value (ks_locks s (TimerLock c)) = 1"
  obtain c where c: "tm_cpu (ks_timers s t) = Some c" "t \<in> set (cpu_timers (cpu_of s c))"
    using True by (auto simp: timer_linked_def split: option.splits)
  have others: "t \<notin> set (cpu_timers (cpu_of s d))" if "d \<noteq> c" for d
    using that c timers_okD(1) [of s d t] a(1) by (auto simp: timers_inv_def)
  define l where
    "l = (ks_locks s)(TimerLock c := (ks_locks s (TimerLock c))\<lparr>sl_value := 0, sl_state := ks_irq s\<rparr>)"
  define u where "u = (timer_unlinked t c s)\<lparr>ks_irq := False, ks_locks := l\<rparr>"
  obtain v where v: "(if c = ks_curr_cpu s then timer_stop_device (hd (cpu_timers (cpu_of s c)) = t) u
              else Some u) = Some v"
      "timer_frame u v" "ks_timers v = ks_timers s" "ks_locks v = l" "timer_armed v"
      "\<And>d. cpu_timers (cpu_of v d) = cpu_timers (cpu_of u d)"
    using timer_stop_device_unlinked [OF a(2) c(2) u_def] by blast
  let ?w = "v\<lparr>ks_irq := ks_irq s, ks_locks := (ks_locks v)(TimerLock c := (l (TimerLock c))\<lparr>sl_value := 1\<rparr>)\<rparr>"
  have un: "upd_cpu c (\<lambda>x. x\<lparr>cpu_timers := removeAll t (cpu_timers x)\<rparr>)
      (s\<lparr>ks_irq := False, ks_locks := l\<rparr>) = u"
    by (simp add: u_def timer_unlinked_def upd_defs)
  have cu: "ks_curr_cpu u = ks_curr_cpu s" "sl_value (l (TimerLock c)) = 0"
      "sl_state (l (TimerLock c)) = ks_irq s"
      "ks_cpus (s\<lparr>ks_irq := False, ks_locks := l\<rparr>) = ks_cpus s"
    by (simp_all add: u_def timer_unlinked_def upd_defs l_def)
  have steps: "ks_lock (TimerLock c) s = Some (s\<lparr>ks_irq := False, ks_locks := l\<rparr>)"
      "ks_unlock (TimerLock c) v = Some ?w"
    using a(3) by (simp_all add: ks_lock_eq ks_unlock_eq l_def [symmetric] v(4) cu)
  have "timer_stop t s = Some ?w"
    unfolding timer_stop_def if_P [OF True] c(1) bind.bind_lunit steps(1) Let_def un cu ksys.simps
      v(1) steps(2) by (rule refl)
  moreover have inv: "timers_inv ?w"
    by (rule timers_inv_cong [OF timers_inv_unlinked [OF a(1), of t c]])
      (simp_all add: v u_def)
  moreover have "timer_frame s ?w"
    using v(2,4) timer_unlinked_frame [of s t c] a(3)
    by (auto simp: timer_frame_def u_def l_def)
  moreover have rem: "\<And>d. cpu_timers (cpu_of ?w d) = removeAll t (cpu_timers (cpu_of s d))"
    using others by (auto simp add: v(6) u_def removeAll_id)
  moreover have "\<not> timer_linked ?w t"
    unfolding timer_linked_iff [OF inv] rem by simp
  moreover have "timer_linked ?w x = timer_linked s x" if "x \<noteq> t" for x
    unfolding timer_linked_iff [OF inv] timer_linked_iff [OF a(1)] rem using that by simp
  ultimately show ?thesis using v(3,5) by simp
qed

text \<open>
  Further property. Stopping a timer returns whether or not it is running: afterwards the timer is not
  linked, it alone has left its list, the lists stay sorted, the timer device is still programmed
  for the first timer due, and nothing outside the timer data has changed.\<close>

theorem timer_stop_correct:
  "timers_inv s \<Longrightarrow> timer_armed s \<Longrightarrow> (\<forall>c. sl_value (ks_locks s (TimerLock c)) = 1) \<Longrightarrow>
   \<exists>s'. timer_stop t s = Some s' \<and> timers_inv s' \<and> timer_armed s' \<and> timer_frame s s'
      \<and> \<not> timer_linked s' t \<and> ks_timers s' = ks_timers s
      \<and> (\<forall>c. cpu_timers (cpu_of s' c) = removeAll t (cpu_timers (cpu_of s c)))"
  using timer_stop_ok [of s t] by blast

section \<open>The tick handler: correctness\<close>

text \<open>What the tick handler expects a timer function to leave alone.\<close>

definition tick_frame :: "ksys \<Rightarrow> ksys \<Rightarrow> bool" where
  "tick_frame s s' \<longleftrightarrow>
     ks_timers s' = ks_timers s
   \<and> (\<forall>c. cpu_timers (cpu_of s' c) = cpu_timers (cpu_of s c)
        \<and> cpu_timer_enabled (cpu_of s' c) = cpu_timer_enabled (cpu_of s c)
        \<and> ks_locks s' (TimerLock c) = ks_locks s (TimerLock c))
   \<and> ks_curr_cpu s' = ks_curr_cpu s \<and> ks_now s' = ks_now s \<and> ks_irq s' = ks_irq s
   \<and> ks_timer_device s' = ks_timer_device s"

primrec timer_fire_all ::
  "(timer_ref \<Rightarrow> ksys \<Rightarrow> (bool \<times> ksys) option) \<Rightarrow> timer_ref list \<Rightarrow> bool \<times> ksys \<Rightarrow>
   (bool \<times> ksys) option"
where
  "timer_fire_all func [] ps = Some ps"
| "timer_fire_all func (t # ts) ps = Option.bind (timer_fire func t ps) (timer_fire_all func ts)"

definition timer_expired :: "ksys \<Rightarrow> timer_ref \<Rightarrow> bool" where
  "timer_expired s t \<longleftrightarrow> target_of s t \<le> ks_now s"

text \<open>
  The contract between the tick handler and the timer functions: under an invariant that depends on
  no timer data but the flags of timers, the function of a timer that is not linked and not marked
  for thread context returns, keeps the invariant and does not touch the timer data.
\<close>

locale timer_handler =
  fixes func :: "timer_ref \<Rightarrow> ksys \<Rightarrow> (bool \<times> ksys) option"
    and inv :: "ksys \<Rightarrow> bool"
  assumes func_ok:
    "inv s \<Longrightarrow> \<not> timer_linked s t \<Longrightarrow> tm_flags (ks_timers s t) AND TIMER_THREAD = 0 \<Longrightarrow>
     \<exists>p s'. func t s = Some (p, s') \<and> inv s' \<and> tick_frame s s'"
  and inv_frame: "inv s \<Longrightarrow> timer_frame s s' \<Longrightarrow> inv (s'\<lparr>ks_dpcs := d\<rparr>)"
begin

lemma inv_frame': "inv s \<Longrightarrow> timer_frame s s' \<Longrightarrow> inv s'"
  using inv_frame [of s s' "ks_dpcs s'"] by simp

lemma timer_action_ok:
  assumes "inv s" and "\<not> timer_linked s t"
  shows "\<exists>p' s'. timer_action func t p s = Some (p', s') \<and> inv s' \<and> tick_frame s s'"
proof (cases "tm_flags (ks_timers s t) AND TIMER_THREAD = 0")
  case True
  from func_ok [OF assms True] True show ?thesis by (force simp: timer_action_def)
next
  case False
  with inv_frame [OF assms(1) timer_frame_refl] show ?thesis
    by (simp add: timer_action_def tick_frame_def)
qed

lemma timer_fire_ok:
  assumes inv: "inv s" and ti: "timers_inv s" and l: "cpu_timers (curr_cpu s) = t # ts"
  shows "\<exists>p' s'. timer_fire func t (p, s) = Some (p', s') \<and> inv s' \<and> timers_inv s'
    \<and> (\<forall>c. ks_locks s' (TimerLock c) = ks_locks s (TimerLock c)
         \<and> cpu_timer_enabled (cpu_of s' c) = cpu_timer_enabled (cpu_of s c))
    \<and> ks_curr_cpu s' = ks_curr_cpu s \<and> ks_now s' = ks_now s \<and> ks_irq s' = ks_irq s
    \<and> ks_timer_device s' = ks_timer_device s
    \<and> (\<forall>x. tm_mode (ks_timers s' x) = tm_mode (ks_timers s x)
         \<and> (x \<noteq> t \<longrightarrow> target_of s' x = target_of s x))
    \<and> cpu_timers (curr_cpu s') =
        (if tm_mode (ks_timers s t) = TIMER_PERIODIC
         then timer_insert (target_of s') t ts else ts)
    \<and> (tm_mode (ks_timers s t) = TIMER_PERIODIC \<longrightarrow> ks_now s < target_of s' t)"
proof -
  have ok: "timers_ok s (ks_curr_cpu s)" using ti by (simp add: timers_inv_def)
  have ts: "t \<notin> set ts" using ok l by (simp add: timers_ok_def Let_def)
  have tc: "tm_cpu (ks_timers s t) = Some (ks_curr_cpu s)" "0 < tm_initial (ks_timers s t)"
    using timers_okD [OF ok, of t] l by simp_all
  let ?u = "timer_unlinked t (ks_curr_cpu s) s"
  have iu: "inv ?u" "timers_inv ?u" and nl: "\<not> timer_linked ?u t"
    using inv_frame' [OF inv timer_unlinked_frame] timers_inv_unlinked [OF ti]
    by (simp_all add: timer_linked_def tc)
  obtain p' v where v: "timer_action func t p ?u = Some (p', v)" "inv v" "tick_frame ?u v"
    using timer_action_ok [OF iu(1) nl] by blast
  have tv: "ks_timers v = ks_timers s" "ks_curr_cpu v = ks_curr_cpu s" "ks_now v = ks_now s"
      "cpu_timers (curr_cpu v) = ts" "ks_irq v = ks_irq s" "ks_timer_device v = ks_timer_device s"
      "\<forall>c. ks_locks v (TimerLock c) = ks_locks s (TimerLock c)
         \<and> cpu_timer_enabled (cpu_of v c) = cpu_timer_enabled (cpu_of s c)"
    using v(3) l ts by (simp_all add: tick_frame_def timer_unlinked_def upd_defs removeAll_id)
  have "timers_inv v" by (rule timers_inv_cong [OF iu(2)]) (use v(3) in \<open>simp_all add: tick_frame_def\<close>)
  have nv: "\<not> timer_linked v t" using tv tc ts by (simp add: timer_linked_def)
  have fire: "timer_fire func t (p, s) =
      (if tm_mode (ks_timers s t) = TIMER_PERIODIC then Some (p', timer_started t v) else Some (p', v))"
    using v(1) nv by (simp add: timer_fire_def timer_unlinked_def [symmetric] tv timer_start_unsafe_eq)
  show ?thesis
  proof (cases "tm_mode (ks_timers s t) = TIMER_PERIODIC")
    case False
    with fire v tv \<open>timers_inv v\<close> show ?thesis by simp
  next
    case True
    have fr: "timer_frame v (timer_started t v)"
      by (simp add: timer_frame_def timer_started_def upd_defs Let_def)
    have l: "cpu_timers (curr_cpu (timer_started t v)) = timer_insert (target_of (timer_started t v)) t ts"
      by (simp add: timer_started_def upd_defs Let_def tv tv(4) [unfolded tv(2)])
    have en: "cpu_timer_enabled (cpu_of (timer_started t v) c) = cpu_timer_enabled (cpu_of v c)" for c
      by (simp add: timer_started_def upd_defs Let_def)
    have "inv (timer_started t v)" using inv_frame' [OF v(2) fr] .
    moreover have "timers_inv (timer_started t v)"
      using timers_ok_started [OF \<open>timers_inv v\<close> nv] tv tc by simp
    ultimately show ?thesis
      using True fire fr l tv tc en by (simp)
  qed
qed

lemma expired_sorted:
  assumes "timers_inv s" and "takeWhile (timer_expired s) (cpu_timers (curr_cpu s)) = []"
    and "t \<in> set (cpu_timers (curr_cpu s))"
  shows "ks_now s < target_of s t"
proof -
  obtain x xs where xs: "cpu_timers (curr_cpu s) = x # xs"
    using assms(3) by (cases "cpu_timers (curr_cpu s)") auto
  have "timers_ok s (ks_curr_cpu s)" using assms(1) by (simp add: timers_inv_def)
  then have "target_of s x \<le> target_of s t" using assms(3) xs by (auto simp: timers_ok_def Let_def)
  moreover have "\<not> timer_expired s x" using assms(2) xs by (auto split: if_splits)
  ultimately show ?thesis by (simp add: timer_expired_def)
qed

lemma timer_tick_loop_ok:
  assumes "inv s" and "timers_inv s"
    and "takeWhile (timer_expired s) (cpu_timers (curr_cpu s)) = es"
    and "iter = (case cpu_timers (curr_cpu s) of [] \<Rightarrow> None | t # _ \<Rightarrow> Some t)"
  shows "\<exists>p' s'. timer_tick_loop func (ks_now s) iter (p, s) = Some (p', s')
    \<and> timer_fire_all func es (p, s) = Some (p', s') \<and> inv s' \<and> timers_inv s'
    \<and> (\<forall>c. ks_locks s' (TimerLock c) = ks_locks s (TimerLock c)
         \<and> cpu_timer_enabled (cpu_of s' c) = cpu_timer_enabled (cpu_of s c))
    \<and> ks_curr_cpu s' = ks_curr_cpu s \<and> ks_now s' = ks_now s \<and> ks_irq s' = ks_irq s
    \<and> ks_timer_device s' = ks_timer_device s
    \<and> (\<forall>t\<in>set (cpu_timers (curr_cpu s')). ks_now s < target_of s' t)
    \<and> set (cpu_timers (curr_cpu s'))
        = set (cpu_timers (curr_cpu s)) - {t \<in> set es. tm_mode (ks_timers s t) = TIMER_ONESHOT}"
  using assms
proof (induction es arbitrary: s p iter)
  case Nil
  have "timer_tick_loop func (ks_now s) iter (p, s) = Some (p, s)"
    using Nil.prems(3,4)
    by (subst timer_tick_loop.simps)
      (auto simp: timer_expired_def Let_def split: list.splits if_splits)
  with Nil expired_sorted [OF Nil.prems(2,3)] show ?case by auto
next
  case (Cons t es)
  obtain ts where ts: "cpu_timers (curr_cpu s) = t # ts" "timer_expired s t"
      "takeWhile (timer_expired s) ts = es"
    using Cons.prems(3) by (cases "cpu_timers (curr_cpu s)") (auto split: if_splits)
  have dist: "t \<notin> set ts" using Cons.prems(2) ts(1) by (auto simp: timers_inv_def timers_ok_def Let_def dest: spec [of _ "ks_curr_cpu s"])
  obtain p1 s1 where f: "timer_fire func t (p, s) = Some (p1, s1)" "inv s1" "timers_inv s1"
    "\<forall>c. ks_locks s1 (TimerLock c) = ks_locks s (TimerLock c)
         \<and> cpu_timer_enabled (cpu_of s1 c) = cpu_timer_enabled (cpu_of s c)"
    "ks_curr_cpu s1 = ks_curr_cpu s" "ks_now s1 = ks_now s" "ks_irq s1 = ks_irq s"
    "ks_timer_device s1 = ks_timer_device s"
    "\<forall>x. tm_mode (ks_timers s1 x) = tm_mode (ks_timers s x)
         \<and> (x \<noteq> t \<longrightarrow> target_of s1 x = target_of s x)"
    "cpu_timers (curr_cpu s1) =
        (if tm_mode (ks_timers s t) = TIMER_PERIODIC
         then timer_insert (target_of s1) t ts else ts)"
    "tm_mode (ks_timers s t) = TIMER_PERIODIC \<longrightarrow> ks_now s < target_of s1 t"
    using timer_fire_ok [OF Cons.prems(1,2) ts(1), of p] by blast
  have same: "timer_expired s1 x = timer_expired s x" if "x \<in> set ts" for x
    using that dist f(6,9) by (metis timer_expired_def)
  have tw: "takeWhile (timer_expired s1) (cpu_timers (curr_cpu s1)) = es"
  proof -
    have "takeWhile (timer_expired s1) ts = es" using ts(3) same by (metis takeWhile_cong)
    then show ?thesis
      using f(6,10,11) takeWhile_timer_insert [of "timer_expired s1" t ts "target_of s1" "ks_now s"]
      by (auto simp: timer_expired_def)
  qed
  define nxt where "nxt = (case ts of [] \<Rightarrow> None | z # _ \<Rightarrow> Some z)"
  have step: "timer_tick_loop func (ks_now s) iter (p, s)
      = timer_tick_loop func (ks_now s) nxt (p1, s1)"
    using Cons.prems(4) ts(1,2) f(1)
    by (subst timer_tick_loop.simps) (simp add: nxt_def timer_expired_def not_less)
  define iter1 where "iter1 = (case cpu_timers (curr_cpu s1) of [] \<Rightarrow> None | x # _ \<Rightarrow> Some x)"
  obtain p' s' where ih: "timer_tick_loop func (ks_now s1) iter1 (p1, s1) = Some (p', s')"
    "timer_fire_all func es (p1, s1) = Some (p', s')" "inv s'" "timers_inv s'"
    "\<forall>c. ks_locks s' (TimerLock c) = ks_locks s1 (TimerLock c)
         \<and> cpu_timer_enabled (cpu_of s' c) = cpu_timer_enabled (cpu_of s1 c)"
    "ks_curr_cpu s' = ks_curr_cpu s1" "ks_now s' = ks_now s1" "ks_irq s' = ks_irq s1"
    "ks_timer_device s' = ks_timer_device s1"
    "\<forall>t\<in>set (cpu_timers (curr_cpu s')). ks_now s1 < target_of s' t"
    "set (cpu_timers (curr_cpu s'))
        = set (cpu_timers (curr_cpu s1)) - {t \<in> set es. tm_mode (ks_timers s1 t) = TIMER_ONESHOT}"
    using Cons.IH [OF f(2,3) tw iter1_def, of p1] by blast
  have "timer_tick_loop func (ks_now s1) nxt (p1, s1) = timer_tick_loop func (ks_now s1) iter1 (p1, s1)"
  proof (cases es)
    case Nil
    with ts(3) same [of "hd ts"] have "ts = [] \<or> \<not> timer_expired s1 (hd ts)"
      by (cases ts) (auto split: if_splits)
    then have "timer_tick_loop func (ks_now s1) nxt (p1, s1) = Some (p1, s1)"
      by (subst timer_tick_loop.simps)
        (auto simp: nxt_def timer_expired_def Let_def split: list.splits)
    with ih(1,2) Nil show ?thesis by simp
  next
    case (Cons e es')
    with tw ts(3) have "nxt = Some e" "iter1 = Some e"
      by (auto simp: nxt_def iter1_def split: list.splits if_splits)
    then show ?thesis by simp
  qed
  with step ih f have "timer_tick_loop func (ks_now s) iter (p, s) = Some (p', s')" by simp
  moreover have "set (cpu_timers (curr_cpu s')) = set (cpu_timers (curr_cpu s))
      - {x \<in> set (t # es). tm_mode (ks_timers s x) = TIMER_ONESHOT}"
    using ih(11) f(9,10) ts(1) dist set_takeWhileD [of _ "timer_expired s" ts] ts(3)
    by (cases "tm_mode (ks_timers s t)") auto
  ultimately show ?case using ih f by simp
qed

lemma takeWhile_sorted_filter:
  fixes f :: "'a \<Rightarrow> int"
  shows "sorted (map f xs) \<Longrightarrow> takeWhile (\<lambda>x. f x \<le> n) xs = filter (\<lambda>x. f x \<le> n) xs"
proof (induction xs)
  case (Cons x xs)
  have "filter (\<lambda>y. f y \<le> n) xs = []" if "n < f x"
    using that Cons.prems by (auto simp: filter_empty_conv)
  with Cons show ?case by (auto simp: not_le)
qed simp

lemma set_takeWhile_expired:
  "timers_inv s \<Longrightarrow> set (takeWhile (timer_expired s) (cpu_timers (curr_cpu s)))
     = {t \<in> set (cpu_timers (curr_cpu s)). timer_expired s t}"
  using takeWhile_sorted_filter [of "target_of s" "cpu_timers (curr_cpu s)" "ks_now s"]
  by (auto simp: timers_inv_def timers_ok_def Let_def timer_expired_def [abs_def])

lemma timer_tick_device:
  "(case ks_timer_device s of
      TIMER_DEVICE_ONESHOT \<Rightarrow>
        Some (if cpu_timers (curr_cpu s) \<noteq> []
              then timer_device_prepare (hd (cpu_timers (curr_cpu s))) s else s)
    | TIMER_DEVICE_PERIODIC \<Rightarrow>
        if cpu_timers (curr_cpu s) = [] then timer_device_disable s else Some s)
   = timer_stop_device True s"
  by (simp add: timer_stop_device_def split: timer_device_type.splits)

lemma timer_tick_ok:
  assumes inv: "inv (s\<lparr>ks_irq := False, ks_locks := (ks_locks s)(TimerLock (ks_curr_cpu s)
      := (ks_locks s (TimerLock (ks_curr_cpu s)))\<lparr>sl_value := 0, sl_state := False\<rparr>)\<rparr>)"
    and ti: "timers_inv s" and irq: "\<not> ks_irq s"
    and lock: "sl_value (ks_locks s (TimerLock (ks_curr_cpu s))) = 1"
    and en: "cpu_timer_enabled (curr_cpu s)"
  shows "\<exists>p s'. timer_tick func s = Some (p, s') \<and> timers_inv s' \<and> timer_armed s'
    \<and> ks_curr_cpu s' = ks_curr_cpu s \<and> ks_now s' = ks_now s \<and> \<not> ks_irq s'
    \<and> (\<forall>t\<in>set (cpu_timers (curr_cpu s')). ks_now s < target_of s' t)
    \<and> set (cpu_timers (curr_cpu s')) = set (cpu_timers (curr_cpu s))
        - {t. timer_expired s t \<and> tm_mode (ks_timers s t) = TIMER_ONESHOT}"
proof -
  let ?r = "TimerLock (ks_curr_cpu s)"
  let ?l = "(ks_locks s)(?r := (ks_locks s ?r)\<lparr>sl_value := 0, sl_state := False\<rparr>)"
  define u where "u = s\<lparr>ks_irq := False, ks_locks := ?l\<rparr>"
  have u: "timers_inv u" "ks_curr_cpu u = ks_curr_cpu s" "ks_now u = ks_now s" "ks_cpus u = ks_cpus s"
      "ks_timers u = ks_timers s" "ks_irq u = False" "ks_locks u = ?l" "inv u"
    using ti inv by (simp_all add: u_def)
  have ex: "timer_expired u = timer_expired s" by (auto simp: timer_expired_def u)
  obtain p v where v: "timer_tick_loop func (ks_now u)
        (case cpu_timers (curr_cpu u) of [] \<Rightarrow> None | t # _ \<Rightarrow> Some t) (False, u) = Some (p, v)"
      "timers_inv v" "ks_locks v ?r = ?l ?r" "cpu_timer_enabled (curr_cpu v)"
      "ks_curr_cpu v = ks_curr_cpu s" "ks_now v = ks_now s" "\<not> ks_irq v"
      "\<forall>t\<in>set (cpu_timers (curr_cpu v)). ks_now s < target_of v t"
      "set (cpu_timers (curr_cpu v)) = set (cpu_timers (curr_cpu s))
        - {t \<in> set (takeWhile (timer_expired s) (cpu_timers (curr_cpu s))).
             tm_mode (ks_timers s t) = TIMER_ONESHOT}"
    using timer_tick_loop_ok [OF u(8,1) refl refl, of False] u en ex by (auto simp del: set_takeWhileD)
  obtain w where w: "timer_stop_device True v = Some w" "timer_frame v w" "ks_timers w = ks_timers v"
      "ks_locks w = ks_locks v" "\<And>c. cpu_timers (cpu_of w c) = cpu_timers (cpu_of v c)"
    using timer_stop_device_ok [of v True] v(4) by blast
  have armed: "timer_armed w" using timer_stop_device_armed [OF w(1)] v(4) by simp
  have inv_w: "timers_inv w" by (rule timers_inv_cong [OF v(2)]) (simp_all add: w)
  have cw: "ks_curr_cpu w = ks_curr_cpu s" "ks_now w = ks_now s"
    using w(2) v by (simp_all add: timer_frame_def)
  let ?z = "w\<lparr>ks_irq := False, ks_locks := (ks_locks w)(?r := (ks_locks w ?r)\<lparr>sl_value := 1\<rparr>)\<rparr>"
  have lock_u: "ks_lock ?r s = Some u" using lock irq by (simp add: ks_lock_eq u_def)
  have unlock: "ks_unlock ?r w = Some ?z"
    by (simp add: ks_unlock_eq w(4) v(3))
  have "timer_tick func s = Some (p, ?z)"
    using irq en v(1) w(1) unlock
    by (simp add: timer_tick_def timer_tick_device lock_u u cw v(5))
  moreover have "set (cpu_timers (curr_cpu ?z)) = set (cpu_timers (curr_cpu s))
        - {t. timer_expired s t \<and> tm_mode (ks_timers s t) = TIMER_ONESHOT}"
    using v(5,9) set_takeWhile_expired [OF ti] by (auto simp: w(5) cw)
  moreover have "\<forall>t\<in>set (cpu_timers (curr_cpu ?z)). ks_now s < target_of ?z t"
    using v(5,8) by (simp add: w cw)
  ultimately show ?thesis using armed inv_w cw by simp
qed

end

end
