(* ===== verification/Sched.thy ===== *)
theory Sched
  imports Timer
begin

text \<open>
  Model of \<open>proc/sched.c\<close>: the per-CPU run queues with their priority bitmaps, the choice of the
  next thread, the main function \<open>sched_reschedule\<close>, preemption control and the insertion of a
  thread that has become ready, with the choice of a CPU for it.

  \<open>active\<close> and \<open>expired\<close> always point to the two different elements of \<open>queues\<close>, so the model keeps
  the two queues themselves and \<open>swap\<close> exchanges them. The switch to another thread
  (\<open>arch_thread_switch\<close>) continues in that thread, with the interrupt state its own suspended call
  has saved. \<open>smp_call_single\<close> with no function only interrupts the other CPU: it is recorded in
  \<open>ks_ipis\<close>. The switch of address space and the debugger check are not part of the state.
\<close>

section \<open>Run queues\<close>

definition PRIORITY_COUNT :: nat where "PRIORITY_COUNT = 32"

definition THREAD_TIMESLICE :: int where "THREAD_TIMESLICE = 3 * 1000000"

definition MAX_PENALTY :: int where "MAX_PENALTY = 5"

datatype runq = Active | Expired

text \<open>
  \<open>1 << prio\<close> is computed as a signed 32-bit \<open>int\<close> and then converted to \<open>unsigned long\<close>, which
  extends the sign.
\<close>

definition prio_bit :: "nat \<Rightarrow> u64" where
  "prio_bit p = signed (push_bit p (1 :: 32 word))"

definition sq_unlink :: "nat \<Rightarrow> sched_queue \<Rightarrow> sched_queue" where
  "sq_unlink t q = q\<lparr>sq_threads := map (removeAll t) (sq_threads q)\<rparr>"

text \<open>\<open>list_remove(&thread->runq_link)\<close>: the link is in at most one of all the queues.\<close>

definition runq_unlink :: "nat \<Rightarrow> ksys \<Rightarrow> ksys" where
  "runq_unlink t s =
     s\<lparr>ks_cpus := (\<lambda>c. (cpu_of s c)\<lparr>cpu_sched := (cpu_sched (cpu_of s c))
         \<lparr>sc_active := sq_unlink t (sc_active (cpu_sched (cpu_of s c))),
          sc_expired := sq_unlink t (sc_expired (cpu_sched (cpu_of s c)))\<rparr>\<rparr>)\<rparr>"

definition upd_sched :: "nat \<Rightarrow> (sched_cpu \<Rightarrow> sched_cpu) \<Rightarrow> ksys \<Rightarrow> ksys" where
  "upd_sched c f s = upd_cpu c (\<lambda>x. x\<lparr>cpu_sched := f (cpu_sched x)\<rparr>) s"

fun runq_of :: "runq \<Rightarrow> sched_cpu \<Rightarrow> sched_queue" where
  "runq_of Active sc = sc_active sc"
| "runq_of Expired sc = sc_expired sc"

fun upd_runq :: "runq \<Rightarrow> (sched_queue \<Rightarrow> sched_queue) \<Rightarrow> sched_cpu \<Rightarrow> sched_cpu" where
  "upd_runq Active f sc = sc\<lparr>sc_active := f (sc_active sc)\<rparr>"
| "upd_runq Expired f sc = sc\<lparr>sc_expired := f (sc_expired sc)\<rparr>"

text \<open>The array accesses of the two functions are checked against the 32 entries of \<open>threads\<close>.\<close>

definition sched_queue_insert :: "nat \<Rightarrow> runq \<Rightarrow> nat \<Rightarrow> ksys \<Rightarrow> ksys option" where
  "sched_queue_insert c w t s =
     (let p = th_curr_prio (thread_of s t)
      in if p < 0 \<or> int (length (sq_threads (runq_of w (cpu_sched (cpu_of s c))))) \<le> p then None
         else
           let s = runq_unlink t s
           in Some (upd_sched c (upd_runq w (\<lambda>q. q
                \<lparr>sq_threads := (sq_threads q)[nat p := sq_threads q ! nat p @ [t]],
                 sq_bitmap := sq_bitmap q OR prio_bit (nat p)\<rparr>)) s))"

definition sched_queue_remove :: "nat \<Rightarrow> runq \<Rightarrow> nat \<Rightarrow> ksys \<Rightarrow> ksys option" where
  "sched_queue_remove c w t s =
     (let p = th_curr_prio (thread_of s t); s = runq_unlink t s
      in if p < 0 \<or> int (length (sq_threads (runq_of w (cpu_sched (cpu_of s c))))) \<le> p then None
         else if sq_threads (runq_of w (cpu_sched (cpu_of s c))) ! nat p = []
         then Some (upd_sched c (upd_runq w (\<lambda>q. q
                \<lparr>sq_bitmap := sq_bitmap q AND NOT (prio_bit (nat p))\<rparr>)) s)
         else Some s)"

definition sched_calculate_priority :: "nat \<Rightarrow> ksys \<Rightarrow> ksys" where
  "sched_calculate_priority t s =
     upd_thread t (\<lambda>x.
       let priority = 5 + (th_owner_priority x * 8);
           priority = priority + (th_priority x - 1) * 2
       in x\<lparr>th_max_prio := priority, th_curr_prio := priority\<rparr>) s"

definition sched_tweak_priority :: "nat \<Rightarrow> ksys \<Rightarrow> ksys" where
  "sched_tweak_priority t s =
     upd_thread t (\<lambda>x.
       if th_timeslice x \<noteq> 0
       then (if th_curr_prio x < th_max_prio x then x\<lparr>th_curr_prio := th_curr_prio x + 1\<rparr> else x)
       else (if th_curr_prio x \<noteq> 0 \<and> th_max_prio x - th_curr_prio x < MAX_PENALTY
             then x\<lparr>th_curr_prio := th_curr_prio x - 1\<rparr> else x)) s"

definition sched_pick_thread :: "nat \<Rightarrow> ksys \<Rightarrow> (nat option \<times> ksys) option" where
  "sched_pick_thread c s =
     (if sq_bitmap (sc_active (cpu_sched (cpu_of s c))) = 0
         \<and> sq_bitmap (sc_expired (cpu_sched (cpu_of s c))) = 0
      then Some (None, s)
      else
        let s = (if sq_bitmap (sc_active (cpu_sched (cpu_of s c))) = 0
                 then upd_sched c (\<lambda>sc. sc\<lparr>sc_active := sc_expired sc, sc_expired := sc_active sc\<rparr>) s
                 else s)
        in do {
          i \<leftarrow> fls (sq_bitmap (sc_active (cpu_sched (cpu_of s c))));
          let lists = sq_threads (sc_active (cpu_sched (cpu_of s c)));
          if length lists \<le> i then None
          else (case lists ! i of
                  [] \<Rightarrow> None
                | t # _ \<Rightarrow> do {
                    s \<leftarrow> sched_queue_remove c Active t s;
                    Some (Some t, s)})})"

section \<open>Rescheduling\<close>

definition sched_timer_handler :: "ksys \<Rightarrow> bool \<times> ksys" where
  "sched_timer_handler s = (True, upd_thread (curr_thread s) (\<lambda>x. x\<lparr>th_timeslice := 0\<rparr>) s)"

definition sched_post_switch :: "bool \<Rightarrow> ksys \<Rightarrow> ksys option" where
  "sched_post_switch state s = do {
     s \<leftarrow> ks_unlock_noirq (ThreadLock (curr_thread s)) s;
     s \<leftarrow> (case sc_prev_thread (cpu_sched (curr_cpu s)) of
             None \<Rightarrow> Some s
           | Some t \<Rightarrow> ks_unlock_noirq (ThreadLock t) s);
     Some (local_irq_restore state s)}"

text \<open>What happens to the thread that gives up the CPU.\<close>

definition sched_put_prev :: "nat \<Rightarrow> nat \<Rightarrow> ksys \<Rightarrow> ksys option" where
  "sched_put_prev c prev s =
     (let idle = sc_idle_thread (cpu_sched (cpu_of s c))
      in if th_state (thread_of s prev) = THREAD_RUNNING
         then
           let s = upd_thread prev (\<lambda>x. x\<lparr>th_state := THREAD_READY\<rparr>) s
           in if prev \<noteq> idle then sched_queue_insert c Expired prev s else Some s
         else do {
           assert_k (prev \<noteq> idle);
           let s = upd_sched c (\<lambda>sc. sc\<lparr>sc_total := size_dec (sc_total sc)\<rparr>) s;
           Some (s\<lparr>ks_threads_running := ks_threads_running s - 1\<rparr>)})"

text \<open>The choice of the next thread; it is returned locked.\<close>

definition sched_take_next :: "nat \<Rightarrow> nat \<Rightarrow> ksys \<Rightarrow> (nat \<times> ksys) option" where
  "sched_take_next c prev s = do {
     (nxt, s) \<leftarrow> sched_pick_thread c s;
     (case nxt of
        Some nxt \<Rightarrow> do {
          s \<leftarrow> (if nxt \<noteq> prev then ks_lock_noirq (ThreadLock nxt) s else Some s);
          let s = upd_thread nxt (\<lambda>x. x\<lparr>th_timeslice := THREAD_TIMESLICE\<rparr>) s;
          Some (nxt, upd_cpu c (\<lambda>x. x\<lparr>cpu_idle := False\<rparr>) s)}
      | None \<Rightarrow> do {
          let nxt = sc_idle_thread (cpu_sched (cpu_of s c));
          s \<leftarrow> (if nxt \<noteq> prev then ks_lock_noirq (ThreadLock nxt) s else Some s);
          let s = upd_thread nxt (\<lambda>x. x\<lparr>th_timeslice := 0\<rparr>) s;
          Some (nxt, upd_cpu c (\<lambda>x. x\<lparr>cpu_idle := True\<rparr>) s)})}"

abbreviation idle_of :: "ksys \<Rightarrow> nat \<Rightarrow> nat" where
  "idle_of s c \<equiv> sc_idle_thread (cpu_sched (cpu_of s c))"

text \<open>The thread that gives up the CPU gets its bonus or penalty, unless it is the idle thread.\<close>

definition sched_tweaked :: "nat \<Rightarrow> nat \<Rightarrow> ksys \<Rightarrow> ksys" where
  "sched_tweaked c prev s = (if prev \<noteq> idle_of s c then sched_tweak_priority prev s else s)"

text \<open>The middle part of \<open>sched_reschedule\<close>, between stopping and starting the preemption timer.\<close>

definition sched_switch :: "nat \<Rightarrow> nat \<Rightarrow> ksys \<Rightarrow> (nat \<times> ksys) option" where
  "sched_switch c prev s = do {
     s \<leftarrow> sched_put_prev c prev (sched_tweaked c prev s);
     (nxt, s) \<leftarrow> sched_take_next c prev s;
     assert_k (th_cpu (thread_of s nxt) = Some c);
     let s = upd_sched c (\<lambda>sc. sc\<lparr>sc_prev_thread := Some prev\<rparr>) s;
     let s = upd_thread nxt (\<lambda>x. x\<lparr>th_state := THREAD_RUNNING\<rparr>) s;
     Some (nxt, upd_cpu c (\<lambda>x. x\<lparr>cpu_thread := nxt\<rparr>) s)}"

definition sched_reschedule :: "bool \<Rightarrow> ksys \<Rightarrow> ksys option" where
  "sched_reschedule state s = do {
     let c = ks_curr_cpu s;
     let prev = curr_thread s;
     s \<leftarrow> ks_lock_noirq (SchedLock c) s;
     s \<leftarrow> timer_stop (SchedTimer c) s;
     assert_k (th_state (thread_of s prev) \<noteq> THREAD_READY);
     (nxt, s) \<leftarrow> sched_switch c prev s;
     s \<leftarrow> ks_unlock_noirq (SchedLock c) s;
     s \<leftarrow> timer_start (SchedTimer c) (th_timeslice (thread_of s nxt)) TIMER_ONESHOT s;
     if nxt \<noteq> prev then do {
       let s = upd_thread prev (\<lambda>x. x\<lparr>th_frame_irq := state\<rparr>) s;
       sched_post_switch (th_frame_irq (thread_of s nxt)) s}
     else do {
       s \<leftarrow> ks_unlock_noirq (ThreadLock nxt) s;
       Some (local_irq_restore state s)}}"

definition sched_preempt :: "ksys \<Rightarrow> ksys option" where
  "sched_preempt s = do {
     let (state, s) = local_irq_disable s;
     let s = upd_cpu (ks_curr_cpu s) (\<lambda>x. x\<lparr>cpu_should_preempt := False\<rparr>) s;
     let t = curr_thread s;
     s \<leftarrow> ks_lock_noirq (ThreadLock t) s;
     if 0 < th_preempt_count (thread_of s t) then do {
       let s = upd_thread t (\<lambda>x. x\<lparr>th_flags := th_flags x OR THREAD_PREEMPTED\<rparr>) s;
       s \<leftarrow> ks_unlock_noirq (ThreadLock t) s;
       Some (local_irq_restore state s)}
     else sched_reschedule state s}"

definition preempt_disable :: "ksys \<Rightarrow> ksys" where
  "preempt_disable s =
     upd_thread (curr_thread s) (\<lambda>x. x\<lparr>th_preempt_count := size_inc (th_preempt_count x)\<rparr>) s"

definition preempt_enable :: "ksys \<Rightarrow> ksys option" where
  "preempt_enable s = do {
     let t = curr_thread s;
     let (state, s) = local_irq_disable s;
     assert_k (0 < th_preempt_count (thread_of s t));
     let s = upd_thread t (\<lambda>x. x\<lparr>th_preempt_count := size_dec (th_preempt_count x)\<rparr>) s;
     if th_preempt_count (thread_of s t) = 0 \<and> state then do {
       s \<leftarrow> ks_lock_noirq (ThreadLock t) s;
       if th_flags (thread_of s t) AND THREAD_PREEMPTED \<noteq> 0 then
         sched_reschedule state
           (upd_thread t (\<lambda>x. x\<lparr>th_flags := th_flags x AND NOT THREAD_PREEMPTED\<rparr>) s)
       else do {
         s \<leftarrow> ks_unlock_noirq (ThreadLock t) s;
         Some (local_irq_restore state s)}}
     else Some (local_irq_restore state s)}"

definition thread_yield :: "ksys \<Rightarrow> ksys option" where
  "thread_yield s = do {
     let (state, s) = local_irq_disable s;
     s \<leftarrow> ks_lock_noirq (ThreadLock (curr_thread s)) s;
     sched_reschedule state s}"

section \<open>Inserting a ready thread\<close>

definition sched_allocate_cpu :: "nat \<Rightarrow> ksys \<Rightarrow> nat" where
  "sched_allocate_cpu t s =
     (if ks_cpu_count s = 1 then ks_curr_cpu s
      else
        let total = nat (ks_threads_running s) + 1;
            c = (case th_cpu (thread_of s t) of Some c \<Rightarrow> c | None \<Rightarrow> ks_curr_cpu s);
            average = round_up total (ks_cpu_count s) div ks_cpu_count s;
            load = sc_total (cpu_sched (cpu_of s c))
        in if load \<le> average then c
           else (case List.find (\<lambda>other. sc_total (cpu_sched (cpu_of s other)) < average)
                        (ks_running_cpus s) of
                   Some other \<Rightarrow> other | None \<Rightarrow> c))"

text \<open>Asking the CPU to preempt its current thread for the new one.\<close>

definition sched_notify :: "nat \<Rightarrow> nat \<Rightarrow> ksys \<Rightarrow> ksys" where
  "sched_notify c t s =
     (if cpu_idle (cpu_of s c)
         \<or> th_curr_prio (thread_of s (cpu_thread (cpu_of s c))) < th_curr_prio (thread_of s t)
      then
        let s = (if \<not> cpu_idle (cpu_of s c)
                 then upd_cpu c (\<lambda>x. x\<lparr>cpu_should_preempt := True\<rparr>) s else s)
        in if c \<noteq> ks_curr_cpu s then s\<lparr>ks_ipis := ks_ipis s @ [c]\<rparr> else s
      else s)"

definition sched_insert_thread :: "nat \<Rightarrow> ksys \<Rightarrow> ksys option" where
  "sched_insert_thread t s = do {
     assert_k (th_state (thread_of s t) = THREAD_READY);
     let s = (if th_max_prio (thread_of s t) < 0 then sched_calculate_priority t s else s);
     let s = (if th_wired (thread_of s t) = 0 \<and> th_preempt_count (thread_of s t) = 0
              then upd_thread t (\<lambda>x. x\<lparr>th_cpu := Some (sched_allocate_cpu t s)\<rparr>) s else s);
     c \<leftarrow> th_cpu (thread_of s t);
     s \<leftarrow> ks_lock (SchedLock c) s;
     s \<leftarrow> sched_queue_insert c Active t s;
     let s = upd_sched c (\<lambda>sc. sc\<lparr>sc_total := size_inc (sc_total sc)\<rparr>) s;
     let s = s\<lparr>ks_threads_running := ks_threads_running s + 1\<rparr>;
     ks_unlock (SchedLock c) (sched_notify c t s)}"

section \<open>The run queue as a priority queue\<close>

text \<open>The threads of a queue in the order in which the scheduler takes them.\<close>

definition runq_view :: "sched_queue \<Rightarrow> nat list" where
  "runq_view q = concat (rev (sq_threads q))"

text \<open>
  A queue is well formed when the bitmap says which lists are not empty. The list of priority 31
  must be empty: its bit would set all higher bits of the bitmap (see below).
\<close>

definition queue_ok :: "sched_queue \<Rightarrow> bool" where
  "queue_ok q \<longleftrightarrow>
     length (sq_threads q) = PRIORITY_COUNT
   \<and> sq_threads q ! 31 = []
   \<and> (\<forall>i. bit (sq_bitmap q) i \<longleftrightarrow> i < PRIORITY_COUNT \<and> sq_threads q ! i \<noteq> [])"

lemma queue_okD:
  assumes "queue_ok q"
  shows "length (sq_threads q) = PRIORITY_COUNT" and "sq_threads q ! 31 = []"
    and "bit (sq_bitmap q) i \<longleftrightarrow> i < PRIORITY_COUNT \<and> sq_threads q ! i \<noteq> []"
  using assms unfolding queue_ok_def by blast+

lemma bit_prio_bit: "bit (prio_bit p) i \<longleftrightarrow> i < 64 \<and> min 31 i = p"
  by (auto simp: prio_bit_def bit_signed_iff bit_exp_iff)

lemma bit_prio_bit_31: "p < 31 \<Longrightarrow> bit (prio_bit p) i \<longleftrightarrow> i = p"
  by (auto simp: bit_prio_bit)

lemma concat_rev_split:
  "i < length xs \<Longrightarrow> concat (rev xs) = concat (rev (drop (Suc i) xs)) @ xs ! i @ concat (rev (take i xs))"
  using id_take_nth_drop [of i xs] by (metis concat.simps(2) concat_append append.assoc rev.simps(2)
      rev_append append_Nil2 concat.simps(1))

lemma set_runq_view: "set (runq_view q) = (\<Union>xs\<in>set (sq_threads q). set xs)"
  by (auto simp: runq_view_def)

lemma in_runq_view_iff:
  "queue_ok q \<Longrightarrow> t \<in> set (runq_view q) \<longleftrightarrow> (\<exists>p<PRIORITY_COUNT. t \<in> set (sq_threads q ! p))"
  by (auto simp: set_runq_view queue_ok_def simp: in_set_conv_nth [of _ "sq_threads q"]) (metis nth_mem)+

lemma queue_bitmap_zero: "queue_ok q \<Longrightarrow> sq_bitmap q = 0 \<longleftrightarrow> runq_view q = []"
proof -
  assume ok: "queue_ok q"
  have "sq_bitmap q = 0 \<longleftrightarrow> (\<forall>i. \<not> bit (sq_bitmap q) i)"
    using bit_eq_iff [of "sq_bitmap q" 0] bit_imp_le_length [of "sq_bitmap q"] by auto
  also have "\<dots> \<longleftrightarrow> (\<forall>i<PRIORITY_COUNT. sq_threads q ! i = [])"
    using ok by (auto simp: queue_ok_def)
  also have "\<dots> \<longleftrightarrow> (\<forall>t. t \<notin> set (runq_view q))"
    unfolding in_runq_view_iff [OF ok] by (metis hd_in_set list.set(1) empty_iff)
  finally show ?thesis by (metis hd_in_set list.set(1) empty_iff)
qed

lemma queue_top:
  assumes "queue_ok q" and "sq_bitmap q \<noteq> 0"
  obtains i t ts where "fls (sq_bitmap q) = Some i" and "i < PRIORITY_COUNT"
    and "sq_threads q ! i = t # ts" and "\<forall>j>i. j < PRIORITY_COUNT \<longrightarrow> sq_threads q ! j = []"
    and "runq_view q = t # ts @ concat (rev (take i (sq_threads q)))"
proof -
  obtain i where i: "fls (sq_bitmap q) = Some i" using fls_nonzero assms(2) by blast
  then have b: "i < PRIORITY_COUNT" "sq_threads q ! i \<noteq> []"
      "\<forall>j>i. j < PRIORITY_COUNT \<longrightarrow> sq_threads q ! j = []"
    using assms(1) by (auto simp: fls_Some queue_ok_def)
  obtain t ts where t: "sq_threads q ! i = t # ts" using b(2) by (cases "sq_threads q ! i") auto
  have "concat (rev (drop (Suc i) (sq_threads q))) = []"
    using b(3) assms(1) by (auto simp: in_set_conv_nth queue_ok_def)
  then have "runq_view q = t # ts @ concat (rev (take i (sq_threads q)))"
    using concat_rev_split [of i "sq_threads q"] b(1) assms(1) t by (simp add: runq_view_def queue_ok_def)
  with i b t that show thesis by blast
qed

text \<open>
  The state invariant: the queues of every CPU are well formed, no thread is queued twice, and a
  queued thread is ready, belongs to that CPU and has the priority of its list.
\<close>

definition sched_order :: "ksys \<Rightarrow> nat \<Rightarrow> nat list" where
  "sched_order s c =
     runq_view (sc_active (cpu_sched (cpu_of s c))) @ runq_view (sc_expired (cpu_sched (cpu_of s c)))"

definition queue_threads_ok :: "(nat \<Rightarrow> thread) \<Rightarrow> nat \<Rightarrow> sched_queue \<Rightarrow> bool" where
  "queue_threads_ok th c q \<longleftrightarrow>
     (\<forall>p<PRIORITY_COUNT. \<forall>t\<in>set (sq_threads q ! p).
        th_curr_prio (th t) = int p \<and> th_state (th t) = THREAD_READY \<and> th_cpu (th t) = Some c)"

definition runq_ok :: "ksys \<Rightarrow> nat \<Rightarrow> bool" where
  "runq_ok s c \<longleftrightarrow>
     queue_ok (sc_active (cpu_sched (cpu_of s c))) \<and> queue_ok (sc_expired (cpu_sched (cpu_of s c)))
   \<and> queue_threads_ok (ks_threads s) c (sc_active (cpu_sched (cpu_of s c)))
   \<and> queue_threads_ok (ks_threads s) c (sc_expired (cpu_sched (cpu_of s c)))
   \<and> distinct (sched_order s c)"

definition sched_inv :: "ksys \<Rightarrow> bool" where
  "sched_inv s \<longleftrightarrow> (\<forall>c. runq_ok s c)"

lemma sq_unlink_id: "t \<notin> set (runq_view q) \<Longrightarrow> sq_unlink t q = q"
proof -
  assume "t \<notin> set (runq_view q)"
  then have "map (removeAll t) (sq_threads q) = sq_threads q"
    by (intro map_idI removeAll_id) (auto simp: set_runq_view)
  then show ?thesis by (simp add: sq_unlink_def)
qed

lemma set_runq_viewD:
  assumes "queue_ok q" and "queue_threads_ok th c q" and "t \<in> set (runq_view q)"
  shows "th_state (th t) = THREAD_READY" and "th_cpu (th t) = Some c"
    and "0 \<le> th_curr_prio (th t)" and "th_curr_prio (th t) < 31"
    and "t \<in> set (sq_threads q ! nat (th_curr_prio (th t)))"
proof -
  obtain p where p: "p < PRIORITY_COUNT" "t \<in> set (sq_threads q ! p)"
    using assms(1,3) by (auto simp: in_runq_view_iff)
  then have "p \<noteq> 31" using queue_okD(2) [OF assms(1)] by (metis list.set(1) empty_iff)
  moreover have "th_curr_prio (th t) = int p" and "th_state (th t) = THREAD_READY"
    and "th_cpu (th t) = Some c"
    using p assms(2) unfolding queue_threads_ok_def by blast+
  ultimately show "th_state (th t) = THREAD_READY" and "th_cpu (th t) = Some c"
    and "0 \<le> th_curr_prio (th t)" and "th_curr_prio (th t) < 31"
    and "t \<in> set (sq_threads q ! nat (th_curr_prio (th t)))"
    using p by (auto simp add: PRIORITY_COUNT_def)
qed

lemma sched_orderD:
  assumes "sched_inv s" and "t \<in> set (sched_order s c)"
  shows "th_state (thread_of s t) = THREAD_READY" and "th_cpu (thread_of s t) = Some c"
    and "0 \<le> th_curr_prio (thread_of s t)" and "th_curr_prio (thread_of s t) < 31"
proof -
  obtain q where q: "queue_ok q" "queue_threads_ok (ks_threads s) c q" "t \<in> set (runq_view q)"
    using assms unfolding sched_order_def sched_inv_def runq_ok_def by auto
  show "th_state (thread_of s t) = THREAD_READY" and "th_cpu (thread_of s t) = Some c"
    and "0 \<le> th_curr_prio (thread_of s t)" and "th_curr_prio (thread_of s t) < 31"
    using set_runq_viewD [OF q] by simp_all
qed

lemma runq_unlink_id: "(\<And>c. t \<notin> set (sched_order s c)) \<Longrightarrow> runq_unlink t s = s"
  by (simp add: runq_unlink_def sched_order_def sq_unlink_id)

lemma sched_order_cong:
  "cpu_sched (cpu_of s' c) = cpu_sched (cpu_of s c) \<Longrightarrow> sched_order s' c = sched_order s c"
  by (simp add: sched_order_def)

lemma queue_threads_ok_cong:
  "queue_threads_ok th c q \<Longrightarrow> queue_ok q \<Longrightarrow>
   (\<And>t. t \<in> set (runq_view q) \<Longrightarrow> th_curr_prio (th' t) = th_curr_prio (th t)
      \<and> th_state (th' t) = th_state (th t) \<and> th_cpu (th' t) = th_cpu (th t)) \<Longrightarrow>
   queue_threads_ok th' c q"
  unfolding queue_threads_ok_def using in_runq_view_iff [of q] by fastforce

lemma runq_ok_cong:
  assumes "runq_ok s c" and sc: "sc_active (cpu_sched (cpu_of s' c)) = sc_active (cpu_sched (cpu_of s c))"
      "sc_expired (cpu_sched (cpu_of s' c)) = sc_expired (cpu_sched (cpu_of s c))"
    and "\<And>t. t \<in> set (sched_order s c) \<Longrightarrow> th_curr_prio (thread_of s' t) = th_curr_prio (thread_of s t)
      \<and> th_state (thread_of s' t) = th_state (thread_of s t) \<and> th_cpu (thread_of s' t) = th_cpu (thread_of s t)"
  shows "runq_ok s' c"
proof -
  have "sched_order s' c = sched_order s c" using sc by (simp add: sched_order_def)
  moreover have "queue_threads_ok (ks_threads s') c (sc_active (cpu_sched (cpu_of s c)))"
    "queue_threads_ok (ks_threads s') c (sc_expired (cpu_sched (cpu_of s c)))"
    using assms by (auto intro!: queue_threads_ok_cong [of "ks_threads s"]
        simp: runq_ok_def sched_order_def)
  ultimately show ?thesis using assms(1) sc by (simp add: runq_ok_def)
qed

section \<open>Taking the next thread\<close>

lemma sq_unlink_threads:
  assumes q: "queue_ok q" "queue_threads_ok th c q" and d: "distinct (runq_view q)"
    and p: "p < PRIORITY_COUNT" "sq_threads q ! p = t # ts"
  shows "sq_threads (sq_unlink t q) = (sq_threads q)[p := ts]"
proof (rule nth_equalityI)
  show "length (sq_threads (sq_unlink t q)) = length ((sq_threads q)[p := ts])"
    by (simp add: sq_unlink_def)
next
  fix i assume "i < length (sq_threads (sq_unlink t q))"
  then have i: "i < length (sq_threads q)" "i < PRIORITY_COUNT"
    using queue_okD(1) [OF q(1)] by (simp_all add: sq_unlink_def)
  have dp: "t \<notin> set ts" using d concat_rev_split [of p "sq_threads q"] p queue_okD(1) [OF q(1)]
    by (simp add: runq_view_def)
  have "t \<notin> set (sq_threads q ! i)" if "i \<noteq> p"
  proof
    assume "t \<in> set (sq_threads q ! i)"
    then have "th_curr_prio (th t) = int i"
      using q(2) i(2) unfolding queue_threads_ok_def by blast
    moreover have "th_curr_prio (th t) = int p"
      using q(2) p unfolding queue_threads_ok_def by (metis list.set_intros(1))
    ultimately show False using that by simp
  qed
  then show "sq_threads (sq_unlink t q) ! i = (sq_threads q)[p := ts] ! i"
    using i p dp by (cases "i = p") (simp_all add: sq_unlink_def removeAll_id)
qed

definition queue_taken :: "nat \<Rightarrow> nat list \<Rightarrow> sched_queue \<Rightarrow> sched_queue" where
  "queue_taken p ts q = q\<lparr>sq_threads := (sq_threads q)[p := ts],
     sq_bitmap := (if ts = [] then sq_bitmap q AND NOT (prio_bit p) else sq_bitmap q)\<rparr>"

lemma queue_ok_taken:
  assumes q: "queue_ok q" and p: "p < PRIORITY_COUNT" "sq_threads q ! p = t # ts"
  shows "queue_ok (queue_taken p ts q)"
proof -
  have p31: "p \<noteq> 31" using p queue_okD(2) [OF q] by auto
  then have pb: "bit (prio_bit p) i \<longleftrightarrow> i = p" for i
    using bit_prio_bit_31 [of p i] p(1) by (simp add: PRIORITY_COUNT_def)
  have "bit (sq_bitmap (queue_taken p ts q)) i
      \<longleftrightarrow> i < PRIORITY_COUNT \<and> sq_threads (queue_taken p ts q) ! i \<noteq> []" for i
    using queue_okD(1) [OF q] queue_okD(3) [OF q, of i] p pb [of i]
      bit_imp_le_length [of "sq_bitmap q" i]
    by (cases "i = p") (auto simp: queue_taken_def bit_and_iff bit_not_iff_eq nth_list_update)
  then show ?thesis
    using queue_okD(1,2) [OF q] p31 by (simp add: queue_ok_def queue_taken_def)
qed

lemma queue_threads_taken:
  assumes "queue_ok q" and "queue_threads_ok th c q" and "p < PRIORITY_COUNT"
    and "sq_threads q ! p = t # ts"
  shows "queue_threads_ok th c (queue_taken p ts q)"
  unfolding queue_threads_ok_def
proof (intro allI impI)
  fix i assume i: "i < PRIORITY_COUNT"
  have "set (sq_threads (queue_taken p ts q) ! i) \<subseteq> set (sq_threads q ! i)"
    using assms(3,4) queue_okD(1) [OF assms(1)] by (auto simp: queue_taken_def nth_list_update)
  with assms(2) i show "\<forall>t\<in>set (sq_threads (queue_taken p ts q) ! i).
      th_curr_prio (th t) = int i \<and> th_state (th t) = THREAD_READY \<and> th_cpu (th t) = Some c"
    unfolding queue_threads_ok_def by blast
qed

lemma runq_view_taken:
  assumes "queue_ok q" and "p < PRIORITY_COUNT" and "sq_threads q ! p = t # ts"
    and "\<forall>j>p. j < PRIORITY_COUNT \<longrightarrow> sq_threads q ! j = []"
  shows "runq_view (queue_taken p ts q) = tl (runq_view q)" and "runq_view q = t # tl (runq_view q)"
proof -
  have len: "p < length (sq_threads q)" using assms(2) queue_okD(1) [OF assms(1)] by simp
  have e: "concat (rev (drop (Suc p) (sq_threads q))) = []"
    using assms(4) queue_okD(1) [OF assms(1)] by (auto simp: in_set_conv_nth)
  show "runq_view q = t # tl (runq_view q)"
    using concat_rev_split [OF len] e assms(3) by (simp add: runq_view_def)
  then show "runq_view (queue_taken p ts q) = tl (runq_view q)"
    using concat_rev_split [OF len] concat_rev_split [of p "(sq_threads q)[p := ts]"] e assms(3) len
    by (simp add: runq_view_def queue_taken_def drop_update_cancel)
qed

lemma runq_unlink_active:
  assumes inv: "sched_inv s" and t: "t \<in> set (runq_view (sc_active (cpu_sched (cpu_of s c))))"
  shows "runq_unlink t s = upd_sched c (\<lambda>sc. sc\<lparr>sc_active := sq_unlink t (sc_active sc)\<rparr>) s"
proof -
  have "t \<in> set (sched_order s c)" using t by (simp add: sched_order_def)
  then have "t \<notin> set (sched_order s d)" if "d \<noteq> c" for d
    using sched_orderD(2) [OF inv, of t c] sched_orderD(2) [OF inv, of t d] that by auto
  moreover have "t \<notin> set (runq_view (sc_expired (cpu_sched (cpu_of s c))))"
    using inv t by (auto simp: sched_inv_def runq_ok_def sched_order_def)
  ultimately show ?thesis
    by (auto simp: runq_unlink_def upd_sched_def upd_defs sq_unlink_id sched_order_def intro!: ksys.fold_congs)
qed

lemma sched_cpu_other [simp]: "d \<noteq> c \<Longrightarrow> cpu_of (upd_sched c f s) d = cpu_of s d"
  by (simp add: upd_sched_def upd_defs)

lemma sched_cpu_same [simp]: "cpu_sched (cpu_of (upd_sched c f s) c) = f (cpu_sched (cpu_of s c))"
  by (simp add: upd_sched_def upd_defs)

lemma upd_sched_proj [simp]:
  "ks_threads (upd_sched c f s) = ks_threads s" "ks_locks (upd_sched c f s) = ks_locks s"
  "ks_waitq (upd_sched c f s) = ks_waitq s" "ks_curr_cpu (upd_sched c f s) = ks_curr_cpu s"
  "ks_irq (upd_sched c f s) = ks_irq s" "ks_timers (upd_sched c f s) = ks_timers s"
  "ks_threads_running (upd_sched c f s) = ks_threads_running s" "ks_now (upd_sched c f s) = ks_now s"
  "cpu_timers (cpu_of (upd_sched c f s) d) = cpu_timers (cpu_of s d)"
  "cpu_thread (cpu_of (upd_sched c f s) d) = cpu_thread (cpu_of s d)"
  by (simp_all add: upd_sched_def upd_defs)

lemma upd_sched_twice: "upd_sched c f (upd_sched c g s) = upd_sched c (\<lambda>x. f (g x)) s"
  by (simp add: upd_sched_def upd_defs)

lemma sched_inv_upd:
  assumes "sched_inv s" and "runq_ok (upd_sched c f s) c"
  shows "sched_inv (upd_sched c f s)"
  unfolding sched_inv_def
proof
  fix d
  show "runq_ok (upd_sched c f s) d"
  proof (cases "d = c")
    case False
    show ?thesis
      by (rule runq_ok_cong [of s]) (use assms(1) False in \<open>simp_all add: sched_inv_def\<close>)
  qed (use assms(2) in simp)
qed

lemma sched_queue_remove_top:
  assumes inv: "sched_inv s" and q: "q = sc_active (cpu_sched (cpu_of s c))"
    and p: "p < PRIORITY_COUNT" "sq_threads q ! p = t # ts"
  shows "sched_queue_remove c Active t s = Some (upd_sched c (\<lambda>sc. sc\<lparr>sc_active := queue_taken p ts q\<rparr>) s)"
proof -
  have qok: "queue_ok q" "queue_threads_ok (ks_threads s) c q" "distinct (runq_view q)"
    using inv by (auto simp: sched_inv_def runq_ok_def sched_order_def q)
  have "t \<in> set (runq_view q)" using in_runq_view_iff [OF qok(1)] p by auto
  then have un: "runq_unlink t s = upd_sched c (\<lambda>sc. sc\<lparr>sc_active := sq_unlink t (sc_active sc)\<rparr>) s"
    using runq_unlink_active [OF inv] q by simp
  have th: "sq_threads (sq_unlink t q) = (sq_threads q)[p := ts]"
    using sq_unlink_threads [OF qok p] .
  have b: "sq_bitmap (sq_unlink t q) = sq_bitmap q" by (simp add: sq_unlink_def)
  have prio: "th_curr_prio (thread_of s t) = int p"
    using qok(2) p unfolding queue_threads_ok_def by (metis list.set_intros(1))
  have len: "length (sq_threads q) = PRIORITY_COUNT" using queue_okD(1) [OF qok(1)] .
  have eq: "(sq_unlink t q)\<lparr>sq_bitmap := sq_bitmap q AND NOT (prio_bit p)\<rparr> = queue_taken p ts q" if "ts = []"
    using th that by (simp add: queue_taken_def sq_unlink_def)
  have eq': "sq_unlink t q = queue_taken p ts q" if "ts \<noteq> []"
    using th that by (simp add: queue_taken_def sq_unlink_def)
  show ?thesis
    using p(1) len th b eq eq'
    by (cases "ts = []")
      (simp_all add: sched_queue_remove_def Let_def un prio q [symmetric] upd_sched_twice upd_sched_def
        upd_defs)
qed

lemma sched_pick_active:
  assumes inv: "sched_inv s" and ne: "runq_view (sc_active (cpu_sched (cpu_of s c))) \<noteq> []"
  shows "\<exists>A. sched_pick_thread c s
      = Some (Some (hd (sched_order s c)), upd_sched c (\<lambda>sc. sc\<lparr>sc_active := A\<rparr>) s)
    \<and> sched_inv (upd_sched c (\<lambda>sc. sc\<lparr>sc_active := A\<rparr>) s)
    \<and> sched_order (upd_sched c (\<lambda>sc. sc\<lparr>sc_active := A\<rparr>) s) c = tl (sched_order s c)"
proof -
  define q where "q = sc_active (cpu_sched (cpu_of s c))"
  have qok: "queue_ok q" "queue_threads_ok (ks_threads s) c q"
    using inv by (auto simp: sched_inv_def runq_ok_def q_def)
  have bm: "sq_bitmap q \<noteq> 0" using queue_bitmap_zero [OF qok(1)] ne by (simp add: q_def)
  obtain p t ts where p: "fls (sq_bitmap q) = Some p" "p < PRIORITY_COUNT" "sq_threads q ! p = t # ts"
      "\<forall>j>p. j < PRIORITY_COUNT \<longrightarrow> sq_threads q ! j = []"
    using queue_top [OF qok(1) bm] by metis
  let ?A = "queue_taken p ts q"
  let ?s = "upd_sched c (\<lambda>sc. sc\<lparr>sc_active := ?A\<rparr>) s"
  have len: "length (sq_threads q) = PRIORITY_COUNT" using queue_okD(1) [OF qok(1)] .
  have view: "runq_view q = t # runq_view ?A"
    using runq_view_taken [OF qok(1) p(2,3,4)] by simp
  have ord: "sched_order s c = t # sched_order ?s c"
    using view by (simp add: sched_order_def q_def)
  have "runq_ok ?s c"
    using inv queue_ok_taken [OF qok(1) p(2,3)] queue_threads_taken [OF qok p(2,3)] ord
    by (auto simp: sched_inv_def runq_ok_def dest!: spec [of _ c])
  then have "sched_inv ?s" using sched_inv_upd [OF inv] by blast
  moreover have "sched_pick_thread c s = Some (Some t, ?s)"
    using bm p len sched_queue_remove_top [OF inv q_def p(2,3)]
    by (simp add: sched_pick_thread_def q_def [symmetric] Let_def)
  ultimately show ?thesis using ord by auto
qed

lemma sc_update_commute:
  "sc\<lparr>sc_expired := E, sc_active := A\<rparr> = (sc :: sched_cpu)\<lparr>sc_active := A, sc_expired := E\<rparr>"
  by (cases sc) simp

lemma sched_swap_inv:
  assumes "sched_inv s" and "runq_view (sc_active (cpu_sched (cpu_of s c))) = []"
    and "s1 = upd_sched c (\<lambda>sc. sc\<lparr>sc_active := sc_expired sc, sc_expired := sc_active sc\<rparr>) s"
  shows "sched_inv s1" and "sched_order s1 c = sched_order s c"
proof -
  show ord: "sched_order s1 c = sched_order s c" using assms by (simp add: sched_order_def)
  have "runq_ok s1 c" using assms ord by (simp add: sched_inv_def runq_ok_def)
  then show "sched_inv s1" using sched_inv_upd [OF assms(1)] assms(3) by simp
qed

lemma sched_pick_thread_ok:
  "sched_inv s \<Longrightarrow>
   \<exists>A E. let s' = upd_sched c (\<lambda>sc. sc\<lparr>sc_active := A, sc_expired := E\<rparr>) s
      in sched_pick_thread c s
           = Some (case sched_order s c of [] \<Rightarrow> None | t # _ \<Rightarrow> Some t, s')
       \<and> sched_inv s' \<and> sched_order s' c = tl (sched_order s c)"
proof -
  assume inv: "sched_inv s"
  let ?sc = "cpu_sched (cpu_of s c)"
  have zero: "sq_bitmap (sc_active ?sc) = 0 \<longleftrightarrow> runq_view (sc_active ?sc) = []"
    "sq_bitmap (sc_expired ?sc) = 0 \<longleftrightarrow> runq_view (sc_expired ?sc) = []"
    using inv queue_bitmap_zero by (auto simp: sched_inv_def runq_ok_def)
  have same: "upd_sched c (\<lambda>sc. sc\<lparr>sc_active := X, sc_expired := sc_expired ?sc\<rparr>) s
      = upd_sched c (\<lambda>sc. sc\<lparr>sc_active := X\<rparr>) s"
    "upd_sched c (\<lambda>sc. sc\<lparr>sc_active := sc_active ?sc, sc_expired := sc_expired ?sc\<rparr>) s = s" for X
    by (simp_all add: upd_sched_def upd_defs)
  consider (none) "sched_order s c = []" | (active) "runq_view (sc_active ?sc) \<noteq> []"
    | (expired) "runq_view (sc_active ?sc) = []" "runq_view (sc_expired ?sc) \<noteq> []"
    by (auto simp: sched_order_def)
  then show ?thesis
  proof cases
    case none
    then have "sched_pick_thread c s = Some (None, s)"
      using zero by (simp add: sched_pick_thread_def sched_order_def)
    with none inv same(2) show ?thesis
      by (intro exI [of _ "sc_active ?sc"] exI [of _ "sc_expired ?sc"]) (simp add: Let_def)
  next
    case active
    then obtain t ts where ord: "sched_order s c = t # ts"
      by (cases "sched_order s c") (auto simp: sched_order_def)
    from sched_pick_active [OF inv active] obtain A where
      "sched_pick_thread c s = Some (Some t, upd_sched c (\<lambda>sc. sc\<lparr>sc_active := A\<rparr>) s)"
      "sched_inv (upd_sched c (\<lambda>sc. sc\<lparr>sc_active := A\<rparr>) s)"
      "sched_order (upd_sched c (\<lambda>sc. sc\<lparr>sc_active := A\<rparr>) s) c = ts"
      using ord by auto
    with ord same(1) [of A] show ?thesis
      by (intro exI [of _ A] exI [of _ "sc_expired ?sc"]) (simp add: Let_def)
  next
    case expired
    let ?s1 = "upd_sched c (\<lambda>sc. sc\<lparr>sc_active := sc_expired sc, sc_expired := sc_active sc\<rparr>) s"
    note s1 = sched_swap_inv [OF inv expired(1) refl]
    obtain t ts where ord: "sched_order s c = t # ts"
      using expired by (cases "sched_order s c") (auto simp: sched_order_def)
    have ne: "runq_view (sc_active (cpu_sched (cpu_of ?s1 c))) \<noteq> []" using expired by simp
    have "sched_pick_thread c s = sched_pick_thread c ?s1"
      using expired zero by (simp add: sched_pick_thread_def)
    moreover have "upd_sched c (\<lambda>sc. sc\<lparr>sc_active := A\<rparr>) ?s1
        = upd_sched c (\<lambda>sc. sc\<lparr>sc_active := A, sc_expired := sc_active ?sc\<rparr>) s" for A
      by (simp add: upd_sched_def upd_defs sc_update_commute)
    ultimately show ?thesis
      using sched_pick_active [OF s1(1) ne] ord unfolding s1(2) by (auto simp: Let_def)
  qed
qed

text \<open>
  Property C4. Choosing the next thread always returns: it takes the head of the dispatch order, the
  active threads by decreasing priority and in FIFO order within a priority, then the expired ones
  likewise, and \<open>NULL\<close> exactly when both queues are empty. Exactly that thread leaves the queues, the
  rest keeps its order, nothing but the two queues of the CPU changes, and the run queue invariant
  is kept.\<close>

theorem sched_pick_thread_correct:
  "sched_inv s \<Longrightarrow>
   \<exists>A E. let s' = upd_sched c (\<lambda>sc. sc\<lparr>sc_active := A, sc_expired := E\<rparr>) s
      in sched_pick_thread c s
           = Some (case sched_order s c of [] \<Rightarrow> None | t # _ \<Rightarrow> Some t, s')
       \<and> sched_inv s' \<and> sched_order s' c = tl (sched_order s c)"
  by (rule sched_pick_thread_ok)

text \<open>
  Property C25. A thread of priority 31 (system class, high thread priority) breaks the queue: its bit
  is computed as a negative \<open>int\<close>, so the bitmap gets all bits from 31 upwards, the highest set bit
  is 63 and the pick indexes the 32-element array of lists out of bounds.\<close>

theorem sched_priority_31_out_of_bounds:
  "sched_inv s \<Longrightarrow> th_curr_prio (thread_of s t) = 31 \<Longrightarrow>
   sched_order s c = [] \<Longrightarrow>
   \<exists>s'. sched_queue_insert c Active t s = Some s' \<and> sched_pick_thread c s' = None"
proof -
  assume inv: "sched_inv s" and p: "th_curr_prio (thread_of s t) = 31" and e: "sched_order s c = []"
  let ?q = "sc_active (cpu_sched (cpu_of s c))"
  have q: "queue_ok ?q" using inv by (simp add: sched_inv_def runq_ok_def)
  have "t \<notin> set (sched_order s d)" for d using sched_orderD(4) [OF inv, of t d] p by auto
  then have un: "runq_unlink t s = s" by (rule runq_unlink_id)
  have len: "length (sq_threads ?q) = 32" using queue_okD(1) [OF q] by (simp add: PRIORITY_COUNT_def)
  have bm: "sq_bitmap ?q = 0" using queue_bitmap_zero [OF q] e by (simp add: sched_order_def)
  have f: "fls (prio_bit 31) = Some 63" by (simp add: fls_Some bit_prio_bit)
  then have nz: "prio_bit 31 \<noteq> 0" by (auto simp: fls_Some)
  show ?thesis
    using p len bm f nz un
    by (simp add: sched_queue_insert_def sched_pick_thread_def Let_def)
qed

section \<open>Queueing a thread\<close>

definition queue_inserted :: "nat \<Rightarrow> nat \<Rightarrow> sched_queue \<Rightarrow> sched_queue" where
  "queue_inserted p t q = q\<lparr>sq_threads := (sq_threads q)[p := sq_threads q ! p @ [t]],
     sq_bitmap := sq_bitmap q OR prio_bit p\<rparr>"

lemma queue_ok_inserted:
  assumes q: "queue_ok q" and p: "p < 31"
  shows "queue_ok (queue_inserted p t q)"
proof -
  have "bit (sq_bitmap (queue_inserted p t q)) i
      \<longleftrightarrow> i < PRIORITY_COUNT \<and> sq_threads (queue_inserted p t q) ! i \<noteq> []" for i
    using queue_okD(1) [OF q] queue_okD(3) [OF q, of i] p bit_prio_bit_31 [OF p, of i]
    by (cases "i = p") (auto simp: queue_inserted_def bit_or_iff nth_list_update PRIORITY_COUNT_def)
  then show ?thesis
    using queue_okD(1,2) [OF q] p by (simp add: queue_ok_def queue_inserted_def)
qed

lemma queue_threads_inserted:
  assumes "queue_ok q" and "queue_threads_ok th c q" and "p < 31"
    and "th_curr_prio (th t) = int p" "th_state (th t) = THREAD_READY" "th_cpu (th t) = Some c"
  shows "queue_threads_ok th c (queue_inserted p t q)"
  unfolding queue_threads_ok_def
proof (intro allI impI)
  fix i assume i: "i < PRIORITY_COUNT"
  have "set (sq_threads (queue_inserted p t q) ! i) \<subseteq> set (sq_threads q ! i) \<union> (if i = p then {t} else {})"
    using i queue_okD(1) [OF assms(1)] by (auto simp: queue_inserted_def nth_list_update)
  moreover have "\<forall>t\<in>set (sq_threads q ! i).
      th_curr_prio (th t) = int i \<and> th_state (th t) = THREAD_READY \<and> th_cpu (th t) = Some c"
    using assms(2) i unfolding queue_threads_ok_def by blast
  ultimately show "\<forall>t\<in>set (sq_threads (queue_inserted p t q) ! i).
      th_curr_prio (th t) = int i \<and> th_state (th t) = THREAD_READY \<and> th_cpu (th t) = Some c"
    using assms(4-6) by (auto split: if_splits)
qed

lemma runq_view_inserted:
  assumes q: "queue_ok q" and th: "queue_threads_ok th c q" and p: "p < 31"
  shows "runq_view (queue_inserted p t q)
    = filter (\<lambda>x. int p \<le> th_curr_prio (th x)) (runq_view q) @ t
      # filter (\<lambda>x. th_curr_prio (th x) < int p) (runq_view q)"
proof -
  let ?L = "sq_threads q"
  have len: "length ?L = PRIORITY_COUNT" "p < length ?L"
    using queue_okD(1) [OF q] p by (simp_all add: PRIORITY_COUNT_def)
  let ?hi = "concat (rev (drop (Suc p) ?L))" and ?lo = "concat (rev (take p ?L))"
  have prio: "th_curr_prio (th x) = int i" if "x \<in> set (?L ! i)" "i < PRIORITY_COUNT" for x i
    using th that unfolding queue_threads_ok_def by blast
  have hi: "\<forall>x\<in>set ?hi. int p \<le> th_curr_prio (th x)"
    using prio len by (fastforce simp: in_set_conv_nth [of _ "drop (Suc p) ?L"])
  have mid: "\<forall>x\<in>set (?L ! p). th_curr_prio (th x) = int p" using prio len by simp
  have lo: "\<forall>x\<in>set ?lo. th_curr_prio (th x) < int p"
    using prio len by (fastforce simp: in_set_conv_nth [of _ "take p ?L"])
  have view: "runq_view q = ?hi @ ?L ! p @ ?lo"
    using concat_rev_split [OF len(2)] by (simp add: runq_view_def)
  have "filter (\<lambda>x. int p \<le> th_curr_prio (th x)) (runq_view q) = ?hi @ ?L ! p"
    and "filter (\<lambda>x. th_curr_prio (th x) < int p) (runq_view q) = ?lo"
    unfolding view filter_append using hi mid lo
    by (simp_all add: filter_empty_conv not_le not_less del: set_concat set_rev)
  moreover have "runq_view (queue_inserted p t q) = ?hi @ (?L ! p @ [t]) @ ?lo"
    using concat_rev_split [of p "?L[p := ?L ! p @ [t]]"] len
    by (simp add: runq_view_def queue_inserted_def)
  ultimately show ?thesis by simp
qed

lemma sched_queue_insert_eq:
  assumes inv: "sched_inv s" and new: "\<And>d. t \<notin> set (sched_order s d)"
    and p: "th_curr_prio (thread_of s t) = int p" "p < 31"
  shows "sched_queue_insert c w t s = Some (upd_sched c (upd_runq w (queue_inserted p t)) s)"
proof -
  have "queue_ok (runq_of w (cpu_sched (cpu_of s c)))"
    using inv by (cases w) (simp_all add: sched_inv_def runq_ok_def)
  then have "length (sq_threads (runq_of w (cpu_sched (cpu_of s c)))) = 32"
    by (simp add: queue_okD PRIORITY_COUNT_def)
  with runq_unlink_id [OF new] p show ?thesis
    by (simp add: sched_queue_insert_def queue_inserted_def [abs_def])
qed

text \<open>The dispatch order after a thread of priority \<open>p\<close> has been queued.\<close>

definition prio_insert :: "(nat \<Rightarrow> thread) \<Rightarrow> nat \<Rightarrow> nat list \<Rightarrow> nat list" where
  "prio_insert th t xs =
     filter (\<lambda>x. th_curr_prio (th t) \<le> th_curr_prio (th x)) xs @ t
     # filter (\<lambda>x. th_curr_prio (th x) < th_curr_prio (th t)) xs"

fun order_insert :: "runq \<Rightarrow> (nat \<Rightarrow> thread) \<Rightarrow> nat \<Rightarrow> sched_cpu \<Rightarrow> nat list" where
  "order_insert Active th t sc = prio_insert th t (runq_view (sc_active sc)) @ runq_view (sc_expired sc)"
| "order_insert Expired th t sc = runq_view (sc_active sc) @ prio_insert th t (runq_view (sc_expired sc))"

lemma prio_insert_cong:
  "(\<And>x. th_curr_prio (th x) = th_curr_prio (th' x)) \<Longrightarrow> prio_insert th t xs = prio_insert th' t xs"
  by (simp add: prio_insert_def)

lemma set_prio_insert [simp]: "set (prio_insert th t xs) = insert t (set xs)"
  by (auto simp: prio_insert_def)

lemma distinct_prio_insert [simp]: "t \<notin> set xs \<Longrightarrow> distinct xs \<Longrightarrow> distinct (prio_insert th t xs)"
  by (auto simp: prio_insert_def)

lemma sched_queue_insert_inv:
  assumes inv: "sched_inv s" and new: "\<And>d. t \<notin> set (sched_order s d)"
    and p: "th_curr_prio (thread_of s t) = int p" "p < 31"
    and t: "th_state (thread_of s t) = THREAD_READY" "th_cpu (thread_of s t) = Some c"
    and s': "s' = upd_sched c (upd_runq w (queue_inserted p t)) s"
  shows "sched_inv s'" and "sched_order s' c = order_insert w (ks_threads s) t (cpu_sched (cpu_of s c))"
proof -
  let ?sc = "cpu_sched (cpu_of s c)"
  have ok: "queue_ok (runq_of v ?sc)" "queue_threads_ok (ks_threads s) c (runq_of v ?sc)" for v
    using inv by (cases v; simp add: sched_inv_def runq_ok_def)+
  have view: "runq_view (queue_inserted p t (runq_of v ?sc))
      = prio_insert (ks_threads s) t (runq_view (runq_of v ?sc))" for v
    using runq_view_inserted [OF ok p(2), of t v] p(1) by (simp add: prio_insert_def)
  show ord: "sched_order s' c = order_insert w (ks_threads s) t ?sc"
    using view [of Active] view [of Expired] by (cases w) (simp_all add: s' sched_order_def)
  have ins: "queue_ok (queue_inserted p t (runq_of v ?sc))"
      "queue_threads_ok (ks_threads s) c (queue_inserted p t (runq_of v ?sc))" for v
    using queue_ok_inserted [OF ok(1) p(2)] queue_threads_inserted [OF ok p(2) p(1) t] by simp_all
  have "distinct (sched_order s' c)"
    using inv new [of c] unfolding ord
    by (cases w) (auto simp: sched_inv_def runq_ok_def sched_order_def)
  then have "runq_ok s' c"
    using ins [of Active] ins [of Expired] ok [of Active] ok [of Expired]
    by (cases w) (simp_all add: s' runq_ok_def)
  then show "sched_inv s'" unfolding s' by (rule sched_inv_upd [OF inv])
qed

section \<open>Priorities\<close>

definition prio_ok :: "thread \<Rightarrow> bool" where
  "prio_ok x \<longleftrightarrow> 0 \<le> th_curr_prio x \<and> th_curr_prio x \<le> th_max_prio x \<and> th_max_prio x \<le> 30
     \<and> th_max_prio x - th_curr_prio x \<le> MAX_PENALTY"

text \<open>
  Further property. Priorities stay in range: the initial priority of a thread of normal or low priority
  is at most 29 in every process class, and tweaking keeps the current priority between the maximum
  minus the maximum penalty and the maximum, never below 0.\<close>

theorem sched_priority_bounds:
  "(0 \<le> th_owner_priority (thread_of s t) \<longrightarrow> th_owner_priority (thread_of s t) \<le> 3 \<longrightarrow>
      th_priority (thread_of s t) \<in> {0, 1} \<longrightarrow>
      prio_ok (thread_of (sched_calculate_priority t s) t)
      \<and> th_max_prio (thread_of (sched_calculate_priority t s) t) \<le> 29)
   \<and> (prio_ok (thread_of s t) \<longrightarrow>
      prio_ok (thread_of (sched_tweak_priority t s) t)
      \<and> (th_timeslice (thread_of s t) \<noteq> 0 \<longrightarrow>
           th_curr_prio (thread_of s t) \<le> th_curr_prio (thread_of (sched_tweak_priority t s) t))
      \<and> (th_timeslice (thread_of s t) = 0 \<longrightarrow>
           th_curr_prio (thread_of (sched_tweak_priority t s) t) \<le> th_curr_prio (thread_of s t)))"
  by (auto simp: sched_calculate_priority_def sched_tweak_priority_def upd_defs prio_ok_def
      MAX_PENALTY_def Let_def)

lemma prio_ok_tweak:
  "prio_ok (thread_of s t) \<Longrightarrow> prio_ok (thread_of (sched_tweak_priority t s) t)"
  by (auto simp: sched_tweak_priority_def upd_defs prio_ok_def MAX_PENALTY_def)

section \<open>Rescheduling: correctness\<close>

lemma sched_inv_cong:
  assumes "sched_inv s"
    and "\<And>c. sc_active (cpu_sched (cpu_of s' c)) = sc_active (cpu_sched (cpu_of s c))"
    and "\<And>c. sc_expired (cpu_sched (cpu_of s' c)) = sc_expired (cpu_sched (cpu_of s c))"
    and "\<And>t c. t \<in> set (sched_order s c) \<Longrightarrow> th_curr_prio (thread_of s' t) = th_curr_prio (thread_of s t)
      \<and> th_state (thread_of s' t) = th_state (thread_of s t) \<and> th_cpu (thread_of s' t) = th_cpu (thread_of s t)"
  shows "sched_inv s'"
  unfolding sched_inv_def
proof
  fix c
  have "runq_ok s c" using assms(1) by (simp add: sched_inv_def)
  then show "runq_ok s' c" by (rule runq_ok_cong) (use assms in auto)
qed

lemma not_ready_not_queued:
  "sched_inv s \<Longrightarrow> th_state (thread_of s t) \<noteq> THREAD_READY \<Longrightarrow> t \<notin> set (sched_order s d)"
  using sched_orderD(1) by blast

text \<open>The dispatch order once the thread that gives up the CPU has been dealt with.\<close>

definition order_put :: "ksys \<Rightarrow> nat \<Rightarrow> nat \<Rightarrow> nat list" where
  "order_put s c prev =
     (if th_state (thread_of s prev) = THREAD_RUNNING \<and> prev \<noteq> idle_of s c
      then order_insert Expired (ks_threads s) prev (cpu_sched (cpu_of s c))
      else sched_order s c)"

lemma sched_put_prev_ok:
  assumes inv: "sched_inv s" and st: "th_state (thread_of s prev) \<noteq> THREAD_READY"
    and cpu: "th_cpu (thread_of s prev) = Some c"
    and prio: "prev \<noteq> idle_of s c \<Longrightarrow> prio_ok (thread_of s prev)"
    and not_idle: "th_state (thread_of s prev) \<noteq> THREAD_RUNNING \<Longrightarrow> prev \<noteq> idle_of s c"
  shows "\<exists>sc' n. let s' = s\<lparr>ks_threads := (ks_threads s)(prev := (thread_of s prev)\<lparr>th_state :=
            (if th_state (thread_of s prev) = THREAD_RUNNING then THREAD_READY
             else th_state (thread_of s prev))\<rparr>),
         ks_cpus := (ks_cpus s)(c := (cpu_of s c)\<lparr>cpu_sched := sc'\<rparr>), ks_threads_running := n\<rparr>
    in sched_put_prev c prev s = Some s' \<and> sched_inv s' \<and> sc_idle_thread sc' = idle_of s c
      \<and> sched_order s' c = order_put s c prev"
proof -
  let ?r = "upd_thread prev (\<lambda>x. x\<lparr>th_state := THREAD_READY\<rparr>) s"
  have nq: "prev \<notin> set (sched_order s d)" for d using not_ready_not_queued [OF inv st] .
  have invr: "sched_inv ?r"
    by (rule sched_inv_cong [OF inv]) (use nq in \<open>auto simp: upd_defs\<close>)
  have ordr: "sched_order ?r d = sched_order s d" for d by (simp add: sched_order_def upd_defs)
  define p where "p = nat (th_curr_prio (thread_of s prev))"
  have p: "th_curr_prio (thread_of s prev) = int p" "p < 31" if "prev \<noteq> idle_of s c"
    using prio [OF that] by (auto simp: prio_ok_def p_def)
  consider (queue) "th_state (thread_of s prev) = THREAD_RUNNING" "prev \<noteq> idle_of s c"
    | (idle) "th_state (thread_of s prev) = THREAD_RUNNING" "prev = idle_of s c"
    | (gone) "th_state (thread_of s prev) \<noteq> THREAD_RUNNING" "prev \<noteq> idle_of s c"
    using not_idle by blast
  then show ?thesis
  proof cases
    case queue
    let ?s' = "upd_sched c (upd_runq Expired (queue_inserted p prev)) ?r"
    note p = p [OF queue(2)]
    have "sched_queue_insert c Expired prev ?r = Some ?s'"
      using sched_queue_insert_eq [OF invr, of prev p c Expired] nq ordr p by (simp add: upd_defs)
    then have "sched_put_prev c prev s = Some ?s'"
      using queue by (simp add: sched_put_prev_def Let_def)
    moreover have "sched_inv ?s'" and "sched_order ?s' c = order_insert Expired (ks_threads ?r) prev (cpu_sched (cpu_of ?r c))"
      using sched_queue_insert_inv [OF invr, of prev p c ?s' Expired] nq ordr p cpu
      by (simp_all add: upd_defs)
    moreover have "order_insert Expired (ks_threads ?r) prev (cpu_sched (cpu_of ?r c)) = order_put s c prev"
      using queue prio_insert_cong [of "ks_threads ?r" "ks_threads s"]
      by (simp add: order_put_def upd_defs)
    ultimately show ?thesis
      using queue by (intro exI [of _ "upd_runq Expired (queue_inserted p prev) (cpu_sched (cpu_of s c))"]
        exI [of _ "ks_threads_running s"]) (simp add: Let_def upd_sched_def upd_defs)
  next
    case idle
    then have "sched_put_prev c prev s = Some ?r" by (simp add: sched_put_prev_def Let_def)
    with invr ordr idle show ?thesis
      by (intro exI [of _ "cpu_sched (cpu_of s c)"] exI [of _ "ks_threads_running s"])
        (simp add: Let_def upd_defs order_put_def)
  next
    case gone
    let ?sc = "(cpu_sched (cpu_of s c))\<lparr>sc_total := size_dec (sc_total (cpu_sched (cpu_of s c)))\<rparr>"
    let ?s' = "s\<lparr>ks_cpus := (ks_cpus s)(c := (cpu_of s c)\<lparr>cpu_sched := ?sc\<rparr>),
       ks_threads_running := ks_threads_running s - 1\<rparr>"
    have "sched_put_prev c prev s = Some ?s'"
      using gone by (simp add: sched_put_prev_def Let_def upd_sched_def upd_defs)
    moreover have "sched_inv ?s'" by (rule sched_inv_cong [OF inv]) auto
    moreover have "sched_order ?s' c = order_put s c prev" using gone by (simp add: sched_order_def order_put_def)
    ultimately show ?thesis
      using gone by (intro exI [of _ ?sc] exI [of _ "ks_threads_running s - 1"]) (simp add: Let_def)
  qed
qed

text \<open>The thread that runs next: the head of the dispatch order, or the idle thread.\<close>

definition order_next :: "nat list \<Rightarrow> nat \<Rightarrow> nat" where
  "order_next ord idle = (case ord of [] \<Rightarrow> idle | t # _ \<Rightarrow> t)"

lemma sched_take_next_ok:
  assumes inv: "sched_inv s" and irq: "\<not> ks_irq s"
    and nxt: "nxt = order_next (sched_order s c) (idle_of s c)"
    and lock: "nxt \<noteq> prev \<Longrightarrow> sl_value (ks_locks s (ThreadLock nxt)) = 1"
  shows "\<exists>A E. let s' = s\<lparr>ks_locks := (if nxt \<noteq> prev then (ks_locks s)(ThreadLock nxt :=
           (ks_locks s (ThreadLock nxt))\<lparr>sl_value := 0\<rparr>) else ks_locks s),
       ks_threads := (ks_threads s)(nxt := (thread_of s nxt)\<lparr>th_timeslice :=
           if sched_order s c = [] then 0 else THREAD_TIMESLICE\<rparr>),
       ks_cpus := (ks_cpus s)(c := (cpu_of s c)
           \<lparr>cpu_sched := (cpu_sched (cpu_of s c))\<lparr>sc_active := A, sc_expired := E\<rparr>,
            cpu_idle := (sched_order s c = [])\<rparr>)\<rparr>
    in sched_take_next c prev s = Some (nxt, s') \<and> sched_inv s'
      \<and> sched_order s' c = tl (sched_order s c)"
proof -
  obtain A E where pick: "sched_pick_thread c s
      = Some (case sched_order s c of [] \<Rightarrow> None | t # _ \<Rightarrow> Some t,
              upd_sched c (\<lambda>sc. sc\<lparr>sc_active := A, sc_expired := E\<rparr>) s)"
    and inv': "sched_inv (upd_sched c (\<lambda>sc. sc\<lparr>sc_active := A, sc_expired := E\<rparr>) s)"
    and ord: "sched_order (upd_sched c (\<lambda>sc. sc\<lparr>sc_active := A, sc_expired := E\<rparr>) s) c = tl (sched_order s c)"
    using sched_pick_thread_ok [OF inv, of c] by (auto simp: Let_def)
  let ?s' = "s\<lparr>ks_locks := (if nxt \<noteq> prev then (ks_locks s)(ThreadLock nxt :=
           (ks_locks s (ThreadLock nxt))\<lparr>sl_value := 0\<rparr>) else ks_locks s),
       ks_threads := (ks_threads s)(nxt := (thread_of s nxt)\<lparr>th_timeslice :=
           if sched_order s c = [] then 0 else THREAD_TIMESLICE\<rparr>),
       ks_cpus := (ks_cpus s)(c := (cpu_of s c)
           \<lparr>cpu_sched := (cpu_sched (cpu_of s c))\<lparr>sc_active := A, sc_expired := E\<rparr>,
            cpu_idle := (sched_order s c = [])\<rparr>)\<rparr>"
  have "sched_inv ?s'"
    by (rule sched_inv_cong [OF inv']) (auto simp: upd_sched_def upd_defs)
  moreover have "sched_order ?s' c = tl (sched_order s c)"
    using ord by (simp add: sched_order_def)
  moreover have "sched_take_next c prev s = Some (nxt, ?s')"
    using pick nxt lock irq
    by (cases "sched_order s c"; cases "nxt = prev")
      (simp_all add: sched_take_next_def order_next_def ks_lock_noirq_eq upd_sched_def upd_defs Let_def)
  ultimately show ?thesis unfolding Let_def by blast
qed

text \<open>The fields of a thread that the scheduler does not write.\<close>

definition thread_rest :: "thread \<Rightarrow> thread" where
  "thread_rest x = x\<lparr>th_state := THREAD_CREATED, th_curr_prio := 0, th_timeslice := 0\<rparr>"

lemma thread_rest_simps [simp]:
  "thread_rest (x\<lparr>th_state := a\<rparr>) = thread_rest x"
  "thread_rest (x\<lparr>th_curr_prio := p\<rparr>) = thread_rest x"
  "thread_rest (x\<lparr>th_timeslice := n\<rparr>) = thread_rest x"
  by (simp_all add: thread_rest_def)

lemma thread_restD:
  assumes "thread_rest x = thread_rest y"
  shows "th_cpu x = th_cpu y" and "th_frame_irq x = th_frame_irq y" and "th_flags x = th_flags y"
    and "th_sleep_status x = th_sleep_status y" and "th_wait_lock x = th_wait_lock y"
  using assms by (cases x, cases y, simp add: thread_rest_def)+

lemma sched_tweaked_eq:
  "\<exists>p. sched_tweaked c prev s
     = s\<lparr>ks_threads := (ks_threads s)(prev := (thread_of s prev)\<lparr>th_curr_prio := p\<rparr>)\<rparr>"
  by (rule exI [of _ "th_curr_prio (thread_of (sched_tweaked c prev s) prev)"])
    (simp add: sched_tweaked_def sched_tweak_priority_def upd_defs)

definition idle_ok :: "ksys \<Rightarrow> nat \<Rightarrow> bool" where
  "idle_ok s c \<longleftrightarrow> th_cpu (thread_of s (idle_of s c)) = Some c
     \<and> (\<forall>d. idle_of s c \<notin> set (sched_order s d))"

lemma sched_switch_ok:
  assumes inv: "sched_inv s" and idle: "idle_ok s c" and irq: "\<not> ks_irq s"
    and st: "th_state (thread_of s prev) \<noteq> THREAD_READY"
    and cpu: "th_cpu (thread_of s prev) = Some c"
    and prio: "prev \<noteq> idle_of s c \<Longrightarrow> prio_ok (thread_of s prev)"
    and not_idle: "th_state (thread_of s prev) \<noteq> THREAD_RUNNING \<Longrightarrow> prev \<noteq> idle_of s c"
    and lock: "\<And>t. t \<noteq> prev \<Longrightarrow> sl_value (ks_locks s (ThreadLock t)) = 1"
    and ord: "ord = order_put (sched_tweaked c prev s) c prev"
    and nxt: "nxt = order_next ord (idle_of s c)"
  shows "\<exists>th sc n. let s' = s\<lparr>ks_threads_running := n,
       ks_locks := (if nxt \<noteq> prev then (ks_locks s)(ThreadLock nxt :=
           (ks_locks s (ThreadLock nxt))\<lparr>sl_value := 0\<rparr>) else ks_locks s),
       ks_threads := th,
       ks_cpus := (ks_cpus s)(c := (cpu_of s c)\<lparr>cpu_idle := (ord = []), cpu_sched := sc, cpu_thread := nxt\<rparr>)\<rparr>
    in sched_switch c prev s = Some (nxt, s') \<and> sched_inv s' \<and> sched_order s' c = tl ord
     \<and> sc_prev_thread sc = Some prev \<and> sc_idle_thread sc = idle_of s c
     \<and> (\<forall>t. thread_rest (th t) = thread_rest (thread_of s t))
     \<and> th_state (th nxt) = THREAD_RUNNING
     \<and> th_timeslice (th nxt) = (if ord = [] then 0 else THREAD_TIMESLICE)
     \<and> (nxt \<noteq> prev \<longrightarrow> th_state (th prev) =
          (if th_state (thread_of s prev) = THREAD_RUNNING then THREAD_READY else th_state (thread_of s prev)))
     \<and> (\<forall>t. t \<noteq> nxt \<longrightarrow> t \<noteq> prev \<longrightarrow> th t = thread_of s t)
     \<and> (\<forall>t. th_curr_prio (th t) = th_curr_prio (thread_of (sched_tweaked c prev s) t))"
proof -
  obtain p where tw: "sched_tweaked c prev s
      = s\<lparr>ks_threads := (ks_threads s)(prev := (thread_of s prev)\<lparr>th_curr_prio := p\<rparr>)\<rparr>"
    using sched_tweaked_eq by blast
  define s2 where "s2 = sched_tweaked c prev s"
  have nq: "prev \<notin> set (sched_order s d)" for d using not_ready_not_queued [OF inv st] .
  have inv2: "sched_inv s2" unfolding s2_def tw
    by (rule sched_inv_cong [OF inv]) (use nq in auto)
  have prio2: "prio_ok (thread_of s2 prev)" if "prev \<noteq> idle_of s2 c"
    using that prio prio_ok_tweak [of s prev] tw by (simp add: s2_def sched_tweaked_def split: if_splits)
  have s2: "th_state (thread_of s2 prev) \<noteq> THREAD_READY" "th_cpu (thread_of s2 prev) = Some c"
      "idle_of s2 c = idle_of s c" "th_state (thread_of s2 prev) = th_state (thread_of s prev)"
      "ks_cpus s2 = ks_cpus s" "ks_locks s2 = ks_locks s" "ks_irq s2 = ks_irq s"
    using st cpu by (simp_all add: s2_def tw)
  obtain s3 sc3 n where put: "sched_put_prev c prev s2 = Some s3" and inv3: "sched_inv s3"
    and idle3: "sc_idle_thread sc3 = idle_of s2 c" and ord3: "sched_order s3 c = ord"
    and s3: "s3 = s2\<lparr>ks_threads := (ks_threads s2)(prev := (thread_of s2 prev)\<lparr>th_state :=
            (if th_state (thread_of s2 prev) = THREAD_RUNNING then THREAD_READY
             else th_state (thread_of s2 prev))\<rparr>),
         ks_cpus := (ks_cpus s2)(c := (cpu_of s2 c)\<lparr>cpu_sched := sc3\<rparr>), ks_threads_running := n\<rparr>"
    using sched_put_prev_ok [OF inv2 s2(1,2) prio2] not_idle s2(3,4) unfolding Let_def ord s2_def [symmetric]
    by metis
  have n3: "nxt = order_next (sched_order s3 c) (idle_of s3 c)" "\<not> ks_irq s3"
      "nxt \<noteq> prev \<Longrightarrow> sl_value (ks_locks s3 (ThreadLock nxt)) = 1"
    using nxt ord3 idle3 s2 irq lock by (simp_all add: s3)
  obtain s4 A E where take: "sched_take_next c prev s3 = Some (nxt, s4)" and inv4: "sched_inv s4"
    and ord4: "sched_order s4 c = tl ord"
    and s4: "s4 = s3\<lparr>ks_locks := (if nxt \<noteq> prev then (ks_locks s3)(ThreadLock nxt :=
           (ks_locks s3 (ThreadLock nxt))\<lparr>sl_value := 0\<rparr>) else ks_locks s3),
       ks_threads := (ks_threads s3)(nxt := (thread_of s3 nxt)\<lparr>th_timeslice :=
           if ord = [] then 0 else THREAD_TIMESLICE\<rparr>),
       ks_cpus := (ks_cpus s3)(c := (cpu_of s3 c)
           \<lparr>cpu_sched := (cpu_sched (cpu_of s3 c))\<lparr>sc_active := A, sc_expired := E\<rparr>,
            cpu_idle := (ord = [])\<rparr>)\<rparr>"
    using sched_take_next_ok [OF inv3 n3(2,1,3)] unfolding Let_def ord3 by blast
  have rest: "thread_rest (thread_of s4 t) = thread_rest (thread_of s t)" for t
    by (simp add: s4 s3 s2_def tw)
  have cpu3: "th_cpu (thread_of s3 t) = th_cpu (thread_of s t)" for t
    by (simp add: s3 s2_def tw)
  have nxt_c: "th_cpu (thread_of s nxt) = Some c"
    using idle nxt sched_orderD(2) [OF inv3, of nxt c] cpu3 ord3
    by (cases ord) (auto simp: order_next_def idle_ok_def)
  have nq4: "nxt \<notin> set (sched_order s4 d)" for d
  proof (cases "d = c")
    case True
    have "distinct ord" using inv3 ord3 by (auto simp: sched_inv_def runq_ok_def)
    with True show ?thesis using nxt ord4 by (cases ord) (simp_all add: order_next_def)
  next
    case False
    then have "sched_order s4 d = sched_order s d" by (simp add: sched_order_def s4 s3 s2)
    with False nxt_c sched_orderD(2) [OF inv, of nxt d] show ?thesis by auto
  qed
  let ?th = "(ks_threads s4)(nxt := (thread_of s4 nxt)\<lparr>th_state := THREAD_RUNNING\<rparr>)"
  let ?sc = "(cpu_sched (cpu_of s4 c))\<lparr>sc_prev_thread := Some prev\<rparr>"
  let ?s' = "s\<lparr>ks_threads_running := n,
       ks_locks := (if nxt \<noteq> prev then (ks_locks s)(ThreadLock nxt :=
           (ks_locks s (ThreadLock nxt))\<lparr>sl_value := 0\<rparr>) else ks_locks s),
       ks_threads := ?th,
       ks_cpus := (ks_cpus s)(c := (cpu_of s c)\<lparr>cpu_idle := (ord = []), cpu_sched := ?sc, cpu_thread := nxt\<rparr>)\<rparr>"
  have c4: "th_cpu (thread_of s4 nxt) = Some c"
    using thread_restD(1) [OF rest [of nxt]] nxt_c by simp
  have "sched_switch c prev s = Some (nxt, upd_cpu c (\<lambda>x. x\<lparr>cpu_thread := nxt\<rparr>)
      (upd_thread nxt (\<lambda>x. x\<lparr>th_state := THREAD_RUNNING\<rparr>)
        (upd_sched c (\<lambda>sc. sc\<lparr>sc_prev_thread := Some prev\<rparr>) s4)))"
    using put take c4 by (simp add: sched_switch_def s2_def)
  also have "\<dots> = Some (nxt, ?s')"
    by (simp add: upd_sched_def upd_defs s4 s3 s2_def tw)
  finally have run: "sched_switch c prev s = Some (nxt, ?s')" .
  moreover have "sched_inv ?s'"
    by (rule sched_inv_cong [OF inv4]) (use nq4 in \<open>auto simp: s4 s3 s2\<close>)
  moreover have "sched_order ?s' c = tl ord" using ord4 by (simp add: sched_order_def)
  moreover have "sc_idle_thread ?sc = idle_of s c" using idle3 s2 by (simp add: s4 s3)
  moreover have "\<forall>t. thread_rest (?th t) = thread_rest (thread_of s t)" using rest by simp
  moreover have "th_timeslice (?th nxt) = (if ord = [] then 0 else THREAD_TIMESLICE)" by (simp add: s4)
  moreover have "nxt \<noteq> prev \<Longrightarrow> th_state (?th prev) =
          (if th_state (thread_of s prev) = THREAD_RUNNING then THREAD_READY else th_state (thread_of s prev))"
    by (simp add: s4 s3 s2)
  moreover have "\<forall>t. t \<noteq> nxt \<longrightarrow> t \<noteq> prev \<longrightarrow> ?th t = thread_of s t" by (simp add: s4 s3 s2_def tw)
  moreover have "\<forall>t. th_curr_prio (?th t) = th_curr_prio (thread_of (sched_tweaked c prev s) t)"
    by (simp add: s4 s3 s2_def tw)
  ultimately show ?thesis
    unfolding Let_def by (intro exI [of _ ?th] exI [of _ ?sc] exI [of _ n]) simp
qed

definition threads_prio_ok :: "ksys \<Rightarrow> bool" where
  "threads_prio_ok s \<longleftrightarrow>
     (\<forall>t. th_state (thread_of s t) \<in> {THREAD_READY, THREAD_RUNNING, THREAD_SLEEPING} \<longrightarrow>
        (\<exists>c. t = idle_of s c) \<or> prio_ok (thread_of s t))"

text \<open>
  The invariant of the system between operations, on the CPU that runs: run queues and timer lists
  are well formed, the idle thread is queued nowhere, priorities are in range, the current thread
  belongs to this CPU, and it is running.
\<close>

definition sys_ok :: "ksys \<Rightarrow> bool" where
  "sys_ok s \<longleftrightarrow> sched_inv s \<and> timers_inv s \<and> timer_armed s \<and> (\<forall>c. idle_ok s c) \<and> threads_prio_ok s
     \<and> th_cpu (thread_of s (curr_thread s)) = Some (ks_curr_cpu s)"

lemma prio_ok_cong:
  "thread_rest x = thread_rest y \<Longrightarrow> th_curr_prio x = th_curr_prio y \<Longrightarrow> prio_ok x = prio_ok y"
  by (cases x, cases y) (simp add: thread_rest_def prio_ok_def)

lemma timer_frame_sched:
  assumes "timer_frame s s'"
  shows "sched_inv s' = sched_inv s" and "idle_ok s' c = idle_ok s c" and "sched_order s' c = sched_order s c"
    and "idle_of s' c = idle_of s c" and "threads_prio_ok s' = threads_prio_ok s"
proof -
  have f: "ks_threads s' = ks_threads s" "\<And>c. cpu_sched (cpu_of s' c) = cpu_sched (cpu_of s c)"
    using assms by (simp_all add: timer_frame_def)
  show ord: "sched_order s' c = sched_order s c" for c by (simp add: sched_order_def f)
  show "sched_inv s' = sched_inv s" by (simp add: sched_inv_def runq_ok_def ord f)
  show "idle_ok s' c = idle_ok s c" by (simp add: idle_ok_def ord f)
  show "idle_of s' c = idle_of s c" by (simp add: f)
  show "threads_prio_ok s' = threads_prio_ok s" by (simp add: threads_prio_ok_def f)
qed

text \<open>Starting the preemption timer, which does nothing for the idle thread.\<close>

lemma sched_timer_start_ok:
  assumes "timers_inv s" and "timer_armed s" and "\<not> timer_linked s t"
    and "sl_value (ks_locks s (TimerLock (ks_curr_cpu s))) = 1"
  shows "\<exists>s'. timer_start t len mode s = Some s' \<and> timers_inv s' \<and> timer_armed s' \<and> timer_frame s s'
    \<and> (\<forall>x. x \<noteq> t \<longrightarrow> timer_linked s' x = timer_linked s x \<and> ks_timers s' x = ks_timers s x)"
proof (cases "0 < len")
  case True
  then show ?thesis using timer_start_ok [OF assms(1-3) True assms(4)] by blast
next
  case False
  then show ?thesis using assms by (simp add: timer_start_def)
qed

text \<open>The tail of \<open>sched_reschedule\<close>: both threads are unlocked and interrupts restored.\<close>

definition sched_finish :: "bool \<Rightarrow> nat \<Rightarrow> nat \<Rightarrow> ksys \<Rightarrow> ksys option" where
  "sched_finish state prev nxt s =
     (if nxt \<noteq> prev then do {
        let s = upd_thread prev (\<lambda>x. x\<lparr>th_frame_irq := state\<rparr>) s;
        sched_post_switch (th_frame_irq (thread_of s nxt)) s}
      else do {
        s \<leftarrow> ks_unlock_noirq (ThreadLock nxt) s;
        Some (local_irq_restore state s)})"

lemma sched_finish_ok:
  assumes "curr_thread s = nxt" and "sc_prev_thread (cpu_sched (curr_cpu s)) = Some prev"
    and "\<And>r. sl_value (ks_locks s r) = (if r = ThreadLock prev \<or> r = ThreadLock nxt then 0 else 1)"
  shows "\<exists>l. sched_finish state prev nxt s = Some (s\<lparr>
      ks_threads := (if nxt = prev then ks_threads s
        else (ks_threads s)(prev := (thread_of s prev)\<lparr>th_frame_irq := state\<rparr>)),
      ks_locks := l,
      ks_irq := (if nxt = prev then state else th_frame_irq (thread_of s nxt))\<rparr>)
    \<and> (\<forall>r. sl_value (l r) = 1)"
  using assms
  by (intro exI [of _ "(ks_locks s)(ThreadLock nxt := (ks_locks s (ThreadLock nxt))\<lparr>sl_value := 1\<rparr>,
      ThreadLock prev := (ks_locks s (ThreadLock prev))\<lparr>sl_value := 1\<rparr>)"], cases "nxt = prev")
    (auto simp: sched_finish_def sched_post_switch_def ks_unlock_noirq_eq local_irq_restore_def upd_defs)

lemma order_put_cong:
  "ks_threads s' = ks_threads s \<Longrightarrow> cpu_sched (cpu_of s' c) = cpu_sched (cpu_of s c) \<Longrightarrow>
   order_put (sched_tweaked c prev s') c prev = order_put (sched_tweaked c prev s) c prev"
  by (simp add: order_put_def sched_tweaked_def sched_tweak_priority_def sched_order_def upd_defs)

lemma set_order_put:
  "set (order_put (sched_tweaked c prev s) c prev)
     \<subseteq> set (sched_order s c) \<union> (if prev \<noteq> idle_of s c then {prev} else {})"
proof -
  obtain p where tw: "sched_tweaked c prev s
      = s\<lparr>ks_threads := (ks_threads s)(prev := (thread_of s prev)\<lparr>th_curr_prio := p\<rparr>)\<rparr>"
    using sched_tweaked_eq by blast
  show ?thesis unfolding tw by (auto simp: order_put_def sched_order_def)
qed

text \<open>The state after the switch satisfies the invariant of the system again.\<close>

lemma sys_ok_switched:
  assumes sys: "sched_inv s" "\<And>d. idle_ok s d" "threads_prio_ok s"
    and inv: "sched_inv s'" "timers_inv s'" "timer_armed s'"
    and ord: "sched_order s' c = tl ord" "ord = order_put (sched_tweaked c prev s) c prev"
    and nxt: "nxt = order_next ord (idle_of s c)"
    and cpu: "\<And>d. d \<noteq> c \<Longrightarrow> sched_order s' d = sched_order s d" "\<And>d. idle_of s' d = idle_of s d"
      "ks_curr_cpu s' = c" "curr_thread s' = nxt" "th_cpu (thread_of s prev) = Some c"
    and rest: "\<And>t. th_cpu (thread_of s' t) = th_cpu (thread_of s t)"
    and prio: "\<And>t. t \<noteq> prev \<Longrightarrow> prio_ok (thread_of s' t) = prio_ok (thread_of s t)"
      "prev \<noteq> idle_of s c \<Longrightarrow> prio_ok (thread_of s' prev)"
    and state: "\<And>t. t \<noteq> nxt \<Longrightarrow> t \<noteq> prev \<Longrightarrow> th_state (thread_of s' t) = th_state (thread_of s t)"
  shows "sys_ok s'"
proof -
  have sub: "set ord \<subseteq> set (sched_order s c) \<union> (if prev \<noteq> idle_of s c then {prev} else {})"
    unfolding ord(2) by (rule set_order_put)
  have nx: "nxt = idle_of s c \<or> nxt = prev \<or> nxt \<in> set (sched_order s c)"
    using nxt sub by (cases ord) (auto simp: order_next_def split: if_splits)
  have idle: "idle_ok s' d" for d
    unfolding idle_ok_def
  proof (intro conjI allI)
    show own: "th_cpu (thread_of s' (idle_of s' d)) = Some d"
      using sys(2) [of d] rest cpu(2) by (simp add: idle_ok_def)
    fix e
    show "idle_of s' d \<notin> set (sched_order s' e)"
    proof
      assume q: "idle_of s' d \<in> set (sched_order s' e)"
      then have "e = d" using sched_orderD(2) [OF inv(1) q] own by simp
      have "d = c" using q cpu(1,2) sys(2) [of d] unfolding \<open>e = d\<close> idle_ok_def by metis
      then have "idle_of s c \<in> set ord"
        using q cpu(2) ord(1) unfolding \<open>e = d\<close> by (cases ord) auto
      with sub sys(2) [of c] show False
        by (auto simp: idle_ok_def split: if_splits)
    qed
  qed
  have "threads_prio_ok s'"
    unfolding threads_prio_ok_def
  proof (intro allI impI)
    fix t assume st: "th_state (thread_of s' t) \<in> {THREAD_READY, THREAD_RUNNING, THREAD_SLEEPING}"
    show "(\<exists>c. t = idle_of s' c) \<or> prio_ok (thread_of s' t)"
    proof (cases "t = prev")
      case True
      then show ?thesis using prio(2) cpu(2) by auto
    next
      case False
      then have "t = idle_of s c \<or> th_state (thread_of s t) \<in> {THREAD_READY, THREAD_RUNNING, THREAD_SLEEPING}"
        using st state [of t] nx sched_orderD(1) [OF sys(1), of t c] by (cases "t = nxt") auto
      then show ?thesis using sys(3) prio(1) [OF False] cpu(2) unfolding threads_prio_ok_def by metis
    qed
  qed
  moreover have "th_cpu (thread_of s' nxt) = Some c"
    using nx rest sys(2) [of c] cpu(5) sched_orderD(2) [OF sys(1), of nxt c] by (auto simp: idle_ok_def)
  ultimately show ?thesis using inv idle cpu by (simp add: sys_ok_def)
qed

lemma sched_reschedule_ok:
  "sys_ok s \<Longrightarrow> \<not> ks_irq s \<Longrightarrow> c = ks_curr_cpu s \<Longrightarrow> prev = curr_thread s \<Longrightarrow>
   th_state (thread_of s prev) \<noteq> THREAD_READY \<Longrightarrow>
   (if prev = idle_of s c then th_state (thread_of s prev) = THREAD_RUNNING
    else prio_ok (thread_of s prev)) \<Longrightarrow>
   (\<forall>r. sl_value (ks_locks s r) = (if r = ThreadLock prev then 0 else 1)) \<Longrightarrow>
   ord = order_put (sched_tweaked c prev s) c prev \<Longrightarrow>
   nxt = order_next ord (idle_of s c) \<Longrightarrow>
   \<exists>s'. sched_reschedule state s = Some s' \<and> sys_ok s' \<and> locks_free s'
     \<and> ks_curr_cpu s' = c \<and> curr_thread s' = nxt \<and> cpu_idle (curr_cpu s') = (ord = [])
     \<and> sched_order s' c = tl ord \<and> ks_waitq s' = ks_waitq s
     \<and> ks_irq s' = (if nxt = prev then state else th_frame_irq (thread_of s nxt))
     \<and> th_state (thread_of s' nxt) = THREAD_RUNNING
     \<and> (nxt \<noteq> prev \<longrightarrow> th_state (thread_of s' prev) =
          (if th_state (thread_of s prev) = THREAD_RUNNING then THREAD_READY
           else th_state (thread_of s prev)))
     \<and> (\<forall>t. t \<noteq> nxt \<longrightarrow> t \<noteq> prev \<longrightarrow> thread_of s' t = thread_of s t)
     \<and> (\<forall>t. th_flags (thread_of s' t) = th_flags (thread_of s t)
          \<and> th_sleep_status (thread_of s' t) = th_sleep_status (thread_of s t)
          \<and> th_wait_lock (thread_of s' t) = th_wait_lock (thread_of s t)
          \<and> th_cpu (thread_of s' t) = th_cpu (thread_of s t))
     \<and> (\<forall>d. idle_of s' d = idle_of s d)
     \<and> (\<forall>x. x \<noteq> SchedTimer c \<longrightarrow>
          timer_linked s' x = timer_linked s x \<and> ks_timers s' x = ks_timers s x)"
proof -
  assume sys: "sys_ok s" and irq: "\<not> ks_irq s" and c: "c = ks_curr_cpu s" and prev: "prev = curr_thread s"
    and st: "th_state (thread_of s prev) \<noteq> THREAD_READY"
    and pi: "if prev = idle_of s c then th_state (thread_of s prev) = THREAD_RUNNING
      else prio_ok (thread_of s prev)"
    and lv: "\<forall>r. sl_value (ks_locks s r) = (if r = ThreadLock prev then 0 else 1)"
    and ord: "ord = order_put (sched_tweaked c prev s) c prev"
    and nxt: "nxt = order_next ord (idle_of s c)"
  define u0 where "u0 = s\<lparr>ks_locks := (ks_locks s)(SchedLock c := (ks_locks s (SchedLock c))\<lparr>sl_value := 0\<rparr>)\<rparr>"
  have l0: "ks_lock_noirq (SchedLock c) s = Some u0"
    using irq lv by (simp add: ks_lock_noirq_eq u0_def)
  obtain u1 where u1: "timer_stop (SchedTimer c) u0 = Some u1" "timers_inv u1" "timer_armed u1"
      "timer_frame u0 u1" "\<not> timer_linked u1 (SchedTimer c)" "ks_timers u1 = ks_timers u0"
      "\<forall>x. x \<noteq> SchedTimer c \<longrightarrow> timer_linked u1 x = timer_linked u0 x"
    using timer_stop_ok [of u0 "SchedTimer c"] sys lv by (auto simp: u0_def sys_ok_def)
  have fr: "ks_threads u1 = ks_threads s" "\<And>d. cpu_sched (cpu_of u1 d) = cpu_sched (cpu_of s d)"
      "\<And>d. cpu_thread (cpu_of u1 d) = cpu_thread (cpu_of s d)" "ks_waitq u1 = ks_waitq s"
      "ks_irq u1 = ks_irq s" "ks_curr_cpu u1 = c"
    using u1(4) by (simp_all add: timer_frame_def u0_def c)
  have lv1: "sl_value (ks_locks u1 r) = (if r = ThreadLock prev \<or> r = SchedLock c then 0 else 1)" for r
    using u1(4) lv by (simp add: timer_frame_def u0_def)
  have inv1: "sched_inv u1" "\<And>d. idle_ok u1 d" "threads_prio_ok u1"
    using sys timer_frame_sched [OF u1(4)]
    by (simp_all add: sys_ok_def u0_def sched_inv_def runq_ok_def sched_order_def idle_ok_def threads_prio_ok_def)
  have cpu1: "th_cpu (thread_of u1 prev) = Some c" using sys c prev fr by (simp add: sys_ok_def)
  have ord1: "ord = order_put (sched_tweaked c prev u1) c prev"
    using ord order_put_cong [of u1 s c prev] fr by simp
  have id1: "idle_of u1 c = idle_of s c" using fr by simp
  obtain u2 th sc n where u2: "sched_switch c prev u1 = Some (nxt, u2)" "sched_inv u2" "sched_order u2 c = tl ord"
     "sc_prev_thread sc = Some prev" "sc_idle_thread sc = idle_of u1 c"
     "\<forall>t. thread_rest (th t) = thread_rest (thread_of u1 t)"
     "th_state (th nxt) = THREAD_RUNNING"
     "nxt \<noteq> prev \<longrightarrow> th_state (th prev) =
          (if th_state (thread_of u1 prev) = THREAD_RUNNING then THREAD_READY else th_state (thread_of u1 prev))"
     "\<forall>t. t \<noteq> nxt \<longrightarrow> t \<noteq> prev \<longrightarrow> th t = thread_of u1 t"
     "\<forall>t. th_curr_prio (th t) = th_curr_prio (thread_of (sched_tweaked c prev u1) t)"
     and u2_eq: "u2 = u1\<lparr>ks_threads_running := n,
       ks_locks := (if nxt \<noteq> prev then (ks_locks u1)(ThreadLock nxt :=
           (ks_locks u1 (ThreadLock nxt))\<lparr>sl_value := 0\<rparr>) else ks_locks u1),
       ks_threads := th,
       ks_cpus := (ks_cpus u1)(c := (cpu_of u1 c)\<lparr>cpu_idle := (ord = []), cpu_sched := sc, cpu_thread := nxt\<rparr>)\<rparr>"
    using sched_switch_ok [OF inv1(1) inv1(2) _ _ cpu1 _ _ _ ord1 nxt [folded id1]] st pi irq lv1
    unfolding Let_def fr(1,5) id1 by (simp split: if_splits) blast+
  define u3 where "u3 = u2\<lparr>ks_locks := (ks_locks u2)(SchedLock c := (ks_locks u2 (SchedLock c))\<lparr>sl_value := 1\<rparr>)\<rparr>"
  have l3: "ks_unlock_noirq (SchedLock c) u2 = Some u3"
    using lv1 [of "SchedLock c"] by (simp add: ks_unlock_noirq_eq u3_def u2_eq)
  have lv3: "sl_value (ks_locks u3 r) = (if r = ThreadLock prev \<or> r = ThreadLock nxt then 0 else 1)" for r
    using lv1 [of r] by (auto simp: u3_def u2_eq)
  have t3: "timers_inv u3" "timer_armed u3" "\<not> timer_linked u3 (SchedTimer c)"
    subgoal by (rule timers_inv_cong [OF u1(2)]) (simp_all add: u3_def u2_eq)
    subgoal by (rule timer_armed_cong [OF u1(3)]) (simp_all add: u3_def u2_eq)
    subgoal using u1(5) timer_linked_cong [of u3 "SchedTimer c" u1] by (simp add: u3_def u2_eq)
    done
  have lvT: "sl_value (ks_locks u3 (TimerLock (ks_curr_cpu u3))) = 1" using lv3 by simp
  obtain u4 where u4: "timer_start (SchedTimer c) (th_timeslice (thread_of u3 nxt)) TIMER_ONESHOT u3 = Some u4"
      "timers_inv u4" "timer_armed u4" "timer_frame u3 u4"
      "\<forall>x. x \<noteq> SchedTimer c \<longrightarrow> timer_linked u4 x = timer_linked u3 x \<and> ks_timers u4 x = ks_timers u3 x"
    using sched_timer_start_ok [OF t3 lvT, of "th_timeslice (thread_of u3 nxt)" TIMER_ONESHOT] by blast
  have f4: "ks_threads u4 = th" "ks_curr_cpu u4 = c" "curr_thread u4 = nxt" "ks_waitq u4 = ks_waitq s"
      "cpu_sched (cpu_of u4 c) = sc" "\<And>d. d \<noteq> c \<Longrightarrow> cpu_sched (cpu_of u4 d) = cpu_sched (cpu_of s d)"
      "cpu_idle (curr_cpu u4) = (ord = [])"
    using u4(4) fr by (simp_all add: timer_frame_def u3_def u2_eq)
  have lv4: "sl_value (ks_locks u4 r) = (if r = ThreadLock prev \<or> r = ThreadLock nxt then 0 else 1)" for r
    using u4(4) lv3 [of r] by (simp add: timer_frame_def)
  obtain l where fin: "sched_finish state prev nxt u4 = Some (u4\<lparr>
      ks_threads := (if nxt = prev then ks_threads u4
        else (ks_threads u4)(prev := (thread_of u4 prev)\<lparr>th_frame_irq := state\<rparr>)),
      ks_locks := l,
      ks_irq := (if nxt = prev then state else th_frame_irq (thread_of u4 nxt))\<rparr>)"
      "\<forall>r. sl_value (l r) = 1"
    using sched_finish_ok [OF f4(3) _ lv4, of state] f4(2,5) u2(4) by auto
  define s' where "s' = u4\<lparr>
      ks_threads := (if nxt = prev then ks_threads u4
        else (ks_threads u4)(prev := (thread_of u4 prev)\<lparr>th_frame_irq := state\<rparr>)),
      ks_locks := l,
      ks_irq := (if nxt = prev then state else th_frame_irq (thread_of u4 nxt))\<rparr>"
  have "sched_reschedule state s = Some s'"
    using fin(1) u4(1) u2(1) by (cases "nxt = prev") (simp_all add: sched_reschedule_def Let_def c [symmetric]
        prev [symmetric, folded c] l0 u1(1) fr st u2(1) l3 u4(1) sched_finish_def s'_def)
  moreover have th': "thread_of s' t = (if nxt \<noteq> prev \<and> t = prev then (th t)\<lparr>th_frame_irq := state\<rparr> else th t)" for t
    by (simp add: s'_def f4)
  have rest: "thread_rest (th t) = thread_rest (thread_of s t)" for t using u2(6) fr by simp
  note restD = thread_restD [OF rest]
  have cpus: "ks_curr_cpu s' = c" "cpu_of s' d = cpu_of u4 d" "ks_timers s' = ks_timers u4"
      "sched_order s' d = sched_order u4 d" for d
    using f4 by (simp_all add: s'_def sched_order_def)
  have inv4: "sched_inv u4" "sched_order u4 d = sched_order u2 d" for d
    using timer_frame_sched [OF u4(4)] u2(2)
    by (simp_all add: u3_def sched_inv_def runq_ok_def sched_order_def)
  have inv': "sched_inv s'"
    by (rule sched_inv_cong [OF inv4(1)]) (simp_all add: cpus th' f4)
  have tinv: "timers_inv s'" "timer_armed s'"
    using u4(2,3) by (auto simp: s'_def timers_inv_def timers_ok_def timer_armed_iff)
  obtain p where tw: "sched_tweaked c prev u1
      = u1\<lparr>ks_threads := (ks_threads u1)(prev := (thread_of u1 prev)\<lparr>th_curr_prio := p\<rparr>)\<rparr>"
    using sched_tweaked_eq by blast
  have idl: "idle_of s' d = idle_of s d" for d
    using f4(5) f4(6) [of d] u2(5) id1 by (cases "d = c") (simp_all add: cpus)
  have sys': "sys_ok s'"
  proof (rule sys_ok_switched [OF _ _ _ inv' tinv _ ord nxt])
    show "sched_inv s" "\<And>d. idle_ok s d" "threads_prio_ok s" using sys by (simp_all add: sys_ok_def)
    show "sched_order s' c = tl ord" using cpus inv4 u2(3) by simp
    show "sched_order s' d = sched_order s d" if "d \<noteq> c" for d
      using that f4(6) by (simp add: cpus sched_order_def)
    show "idle_of s' d = idle_of s d" for d by (rule idl)
    show "ks_curr_cpu s' = c" "curr_thread s' = nxt" using cpus f4 by simp_all
    show "th_cpu (thread_of s prev) = Some c" using cpu1 fr by simp
    show "th_cpu (thread_of s' t) = th_cpu (thread_of s t)" for t using restD by (simp add: th')
    show "prio_ok (thread_of s' t) = prio_ok (thread_of s t)" if "t \<noteq> prev" for t
    proof -
      have "th_curr_prio (th t) = th_curr_prio (thread_of s t)" using u2(10) tw that fr by simp
      then show ?thesis using prio_ok_cong [OF rest] that by (simp add: th')
    qed
    show "prio_ok (thread_of s' prev)" if "prev \<noteq> idle_of s c"
    proof -
      have "prio_ok (thread_of (sched_tweaked c prev u1) prev)"
        using prio_ok_tweak [of u1 prev] pi that fr id1 by (simp add: sched_tweaked_def)
      moreover have "thread_rest (th prev) = thread_rest (thread_of (sched_tweaked c prev u1) prev)"
        using rest fr by (simp add: tw)
      ultimately have "prio_ok (th prev)" using prio_ok_cong u2(10) by blast
      then show ?thesis by (simp add: th' prio_ok_def)
    qed
    show "th_state (thread_of s' t) = th_state (thread_of s t)" if "t \<noteq> nxt" "t \<noteq> prev" for t
      using u2(9) that fr by (simp add: th')
  qed
  have tmr: "timer_linked s' x = timer_linked s x \<and> ks_timers s' x = ks_timers s x" if "x \<noteq> SchedTimer c" for x
  proof -
    have "timer_linked s' x = timer_linked u4 x" "timer_linked u3 x = timer_linked u1 x"
        "timer_linked u0 x = timer_linked s x"
      by (rule timer_linked_cong; simp add: s'_def u3_def u2_eq u0_def)+
    moreover have "ks_timers u3 x = ks_timers s x" using u1(6) by (simp add: u3_def u2_eq u0_def)
    ultimately show ?thesis using that u4(5) u1(7) cpus(3) by simp
  qed
  have "locks_free s'" using fin(2) by (simp add: locks_free_def s'_def)
  moreover have "curr_thread s' = nxt \<and> cpu_idle (curr_cpu s') = (ord = []) \<and> sched_order s' c = tl ord
      \<and> ks_waitq s' = ks_waitq s"
    using cpus f4 inv4 u2(3) by (simp add: s'_def)
  moreover have "ks_irq s' = (if nxt = prev then state else th_frame_irq (thread_of s nxt))"
    using restD(2) f4 by (simp add: s'_def)
  moreover have "th_state (thread_of s' nxt) = THREAD_RUNNING"
    using u2(7) by (simp add: th')
  moreover have "nxt \<noteq> prev \<longrightarrow> th_state (thread_of s' prev) =
          (if th_state (thread_of s prev) = THREAD_RUNNING then THREAD_READY
           else th_state (thread_of s prev))"
    using u2(8) fr by (simp add: th')
  moreover have "\<forall>t. t \<noteq> nxt \<longrightarrow> t \<noteq> prev \<longrightarrow> thread_of s' t = thread_of s t"
    using u2(9) fr by (simp add: th')
  moreover have "\<forall>t. th_flags (thread_of s' t) = th_flags (thread_of s t)
          \<and> th_sleep_status (thread_of s' t) = th_sleep_status (thread_of s t)
          \<and> th_wait_lock (thread_of s' t) = th_wait_lock (thread_of s t)
          \<and> th_cpu (thread_of s' t) = th_cpu (thread_of s t)"
    using restD by (simp add: th')
  moreover have "\<forall>d. idle_of s' d = idle_of s d" using idl by simp
  ultimately show ?thesis using cpus(1) sys' tmr by blast
qed

text \<open>
  Property C3. \<open>sched_reschedule\<close>, called with interrupts off and only the current thread locked,
  returns in the thread that the dispatch order puts first: the head of the active threads, then of
  the expired ones, among which the caller has been requeued by its new priority if it is still
  running, or else the idle thread. That thread is running, the caller is ready or remains asleep or
  dead, no other thread changes, all locks are released, the interrupt state is the one saved by the
  thread that now runs, and the invariant of the system holds again.\<close>

theorem sched_reschedule_correct:
  "sys_ok s \<Longrightarrow> \<not> ks_irq s \<Longrightarrow> c = ks_curr_cpu s \<Longrightarrow> prev = curr_thread s \<Longrightarrow>
   th_state (thread_of s prev) \<noteq> THREAD_READY \<Longrightarrow>
   (if prev = idle_of s c then th_state (thread_of s prev) = THREAD_RUNNING
    else prio_ok (thread_of s prev)) \<Longrightarrow>
   (\<forall>r. sl_value (ks_locks s r) = (if r = ThreadLock prev then 0 else 1)) \<Longrightarrow>
   ord = order_put (sched_tweaked c prev s) c prev \<Longrightarrow>
   nxt = order_next ord (idle_of s c) \<Longrightarrow>
   \<exists>s'. sched_reschedule state s = Some s' \<and> sys_ok s' \<and> locks_free s'
     \<and> ks_curr_cpu s' = c \<and> curr_thread s' = nxt \<and> cpu_idle (curr_cpu s') = (ord = [])
     \<and> sched_order s' c = tl ord \<and> ks_waitq s' = ks_waitq s
     \<and> ks_irq s' = (if nxt = prev then state else th_frame_irq (thread_of s nxt))
     \<and> th_state (thread_of s' nxt) = THREAD_RUNNING
     \<and> (nxt \<noteq> prev \<longrightarrow> th_state (thread_of s' prev) =
          (if th_state (thread_of s prev) = THREAD_RUNNING then THREAD_READY
           else th_state (thread_of s prev)))
     \<and> (\<forall>t. t \<noteq> nxt \<longrightarrow> t \<noteq> prev \<longrightarrow> thread_of s' t = thread_of s t)"
  using sched_reschedule_ok [of s c prev ord nxt state] by blast

section \<open>Inserting a ready thread: correctness\<close>

text \<open>
  Further property. The CPU chosen for a thread is the one it ran on before, when that is not loaded above
  the average or no CPU is below it; otherwise it is the first running CPU with a load below the
  average number of threads per CPU. On a single-CPU system it is the current CPU.\<close>

theorem sched_allocate_cpu_balanced:
  "0 < ks_cpu_count s \<Longrightarrow> th_cpu (thread_of s t) = Some c \<Longrightarrow> 0 \<le> ks_threads_running s \<Longrightarrow>
   load = (\<lambda>d. sc_total (cpu_sched (cpu_of s d))) \<Longrightarrow>
   (if ks_cpu_count s = 1 then sched_allocate_cpu t s = ks_curr_cpu s
    else \<exists>average. int (ks_cpu_count s * average) \<ge> ks_threads_running s + 1
      \<and> int (ks_cpu_count s * average) < ks_threads_running s + 1 + int (ks_cpu_count s)
      \<and> (if load c \<le> average \<or> (\<forall>d\<in>set (ks_running_cpus s). average \<le> load d)
         then sched_allocate_cpu t s = c
         else sched_allocate_cpu t s \<in> set (ks_running_cpus s) \<and> load (sched_allocate_cpu t s) < average))"
proof -
  assume n: "0 < ks_cpu_count s" and c: "th_cpu (thread_of s t) = Some c"
    and r: "0 \<le> ks_threads_running s" and load: "load = (\<lambda>d. sc_total (cpu_sched (cpu_of s d)))"
  define total where "total = nat (ks_threads_running s) + 1"
  define average where "average = round_up total (ks_cpu_count s) div ks_cpu_count s"
  have avg: "ks_cpu_count s * average = round_up total (ks_cpu_count s)"
    using round_up_nat(3) [OF n, of total] by (simp add: average_def)
  then have bounds: "total \<le> ks_cpu_count s * average" "ks_cpu_count s * average < total + ks_cpu_count s"
    using round_up_nat(1,2) [OF n, of total] by simp_all
  have alloc: "sched_allocate_cpu t s = (if load c \<le> average then c
      else (case List.find (\<lambda>d. load d < average) (ks_running_cpus s) of Some d \<Rightarrow> d | None \<Rightarrow> c))"
    if "ks_cpu_count s \<noteq> 1"
    using that c by (simp add: sched_allocate_cpu_def Let_def total_def average_def load)
  have find: "(case List.find (\<lambda>d. load d < average) (ks_running_cpus s) of Some d \<Rightarrow> d | None \<Rightarrow> c)
      \<in> {d \<in> set (ks_running_cpus s). load d < average}"
    if "\<not> (\<forall>d\<in>set (ks_running_cpus s). average \<le> load d)"
    using that find_None_iff [of "\<lambda>d. load d < average" "ks_running_cpus s"]
    by (auto split: option.splits simp: find_Some_iff not_le)
  have none: "List.find (\<lambda>d. load d < average) (ks_running_cpus s) = None"
    if "\<forall>d\<in>set (ks_running_cpus s). average \<le> load d"
    using that by (auto simp: find_None_iff not_less)
  show ?thesis
  proof (cases "ks_cpu_count s = 1")
    case True
    then show ?thesis by (simp add: sched_allocate_cpu_def)
  next
    case False
    have "int (ks_cpu_count s * average) \<ge> ks_threads_running s + 1"
      "int (ks_cpu_count s * average) < ks_threads_running s + 1 + int (ks_cpu_count s)"
      using bounds r unfolding total_def by linarith+
    with alloc [OF False] find none show ?thesis
      unfolding if_not_P [OF False] by (intro exI [of _ average]) auto
  qed
qed

text \<open>The thread as \<open>sched_insert_thread\<close> leaves it: with a priority and a CPU.\<close>

definition thread_placed :: "nat \<Rightarrow> ksys \<Rightarrow> thread" where
  "thread_placed t s =
     (let s1 = (if th_max_prio (thread_of s t) < 0 then sched_calculate_priority t s else s)
      in if th_wired (thread_of s1 t) = 0 \<and> th_preempt_count (thread_of s1 t) = 0
         then (thread_of s1 t)\<lparr>th_cpu := Some (sched_allocate_cpu t s1)\<rparr> else thread_of s1 t)"

lemma thread_placed_fields [simp]:
  "th_state (thread_placed t s) = th_state (thread_of s t)"
  "th_flags (thread_placed t s) = th_flags (thread_of s t)"
  "th_sleep_status (thread_placed t s) = th_sleep_status (thread_of s t)"
  "th_wait_lock (thread_placed t s) = th_wait_lock (thread_of s t)"
  by (simp_all add: thread_placed_def sched_calculate_priority_def upd_defs Let_def)

text \<open>What inserting a thread leaves alone: all timer data, wait lists and locks.\<close>

definition sched_frame :: "ksys \<Rightarrow> ksys \<Rightarrow> bool" where
  "sched_frame s s' \<longleftrightarrow>
     tick_frame s s' \<and> ks_waitq s' = ks_waitq s
   \<and> (\<forall>r. sl_value (ks_locks s' r) = sl_value (ks_locks s r))
   \<and> (\<forall>r. (\<forall>c. r \<noteq> SchedLock c) \<longrightarrow> ks_locks s' r = ks_locks s r)
   \<and> (\<forall>c. cpu_next_tick (cpu_of s' c) = cpu_next_tick (cpu_of s c)
        \<and> cpu_thread (cpu_of s' c) = cpu_thread (cpu_of s c)
        \<and> cpu_idle (cpu_of s' c) = cpu_idle (cpu_of s c)
        \<and> idle_of s' c = idle_of s c)
   \<and> ks_cpu_count s' = ks_cpu_count s \<and> ks_running_cpus s' = ks_running_cpus s"

lemma sched_notify_eq:
  "\<exists>b i. sched_notify c t s = s\<lparr>ks_cpus := (ks_cpus s)(c := (cpu_of s c)\<lparr>cpu_should_preempt := b\<rparr>), ks_ipis := i\<rparr>"
  by (rule exI [of _ "cpu_should_preempt (cpu_of (sched_notify c t s) c)"],
      rule exI [of _ "ks_ipis (sched_notify c t s)"])
    (simp add: sched_notify_def Let_def upd_defs)

lemma sched_insert_thread_ok:
  assumes inv: "sched_inv s" and st: "th_state (thread_of s t) = THREAD_READY"
    and new: "\<And>d. t \<notin> set (sched_order s d)"
    and prio: "prio_ok (thread_placed t s)" and c: "th_cpu (thread_placed t s) = Some c"
    and lock: "sl_value (ks_locks s (SchedLock c)) = 1"
  shows "\<exists>s'. sched_insert_thread t s = Some s' \<and> sched_inv s' \<and> sched_frame s s'
    \<and> ks_threads s' = (ks_threads s)(t := thread_placed t s)
    \<and> sched_order s' c = order_insert Active ((ks_threads s)(t := thread_placed t s)) t (cpu_sched (cpu_of s c))
    \<and> (\<forall>d. d \<noteq> c \<longrightarrow> sched_order s' d = sched_order s d)"
proof -
  define s2 where "s2 = s\<lparr>ks_threads := (ks_threads s)(t := thread_placed t s)\<rparr>"
  let ?r = "SchedLock c"
  define s3 where "s3 = s2\<lparr>ks_irq := False, ks_locks := (ks_locks s)(?r := (ks_locks s ?r)\<lparr>sl_value := 0, sl_state := ks_irq s\<rparr>)\<rparr>"
  have place: "(let s1 = (if th_max_prio (thread_of s t) < 0 then sched_calculate_priority t s else s)
      in if th_wired (thread_of s1 t) = 0 \<and> th_preempt_count (thread_of s1 t) = 0
         then upd_thread t (\<lambda>x. x\<lparr>th_cpu := Some (sched_allocate_cpu t s1)\<rparr>) s1 else s1) = s2"
    by (simp add: s2_def thread_placed_def sched_calculate_priority_def upd_defs Let_def)
  have lock3: "ks_lock ?r s2 = Some s3" using lock by (simp add: ks_lock_eq s3_def s2_def)
  have inv3: "sched_inv s3"
    by (rule sched_inv_cong [OF inv]) (use new in \<open>auto simp: s3_def s2_def\<close>)
  have ord3: "sched_order s3 d = sched_order s d" for d by (simp add: sched_order_def s3_def s2_def)
  define p where "p = nat (th_curr_prio (thread_placed t s))"
  have p: "th_curr_prio (thread_of s3 t) = int p" "p < 31"
    using prio by (auto simp: prio_ok_def p_def s3_def s2_def)
  define s4 where "s4 = upd_sched c (upd_runq Active (queue_inserted p t)) s3"
  have ins: "sched_queue_insert c Active t s3 = Some s4"
    unfolding s4_def by (rule sched_queue_insert_eq [OF inv3 _ p]) (simp add: ord3 new)
  have inv4: "sched_inv s4" "sched_order s4 c = order_insert Active (ks_threads s3) t (cpu_sched (cpu_of s3 c))"
    by (rule sched_queue_insert_inv [OF inv3 _ p _ _ s4_def];
        use st c new ord3 in \<open>simp add: s3_def s2_def\<close>)+
  define s5 where "s5 = (upd_sched c (\<lambda>sc. sc\<lparr>sc_total := size_inc (sc_total sc)\<rparr>) s4)
    \<lparr>ks_threads_running := ks_threads_running s4 + 1\<rparr>"
  obtain b i where s6: "sched_notify c t s5
      = s5\<lparr>ks_cpus := (ks_cpus s5)(c := (cpu_of s5 c)\<lparr>cpu_should_preempt := b\<rparr>), ks_ipis := i\<rparr>"
    using sched_notify_eq by blast
  have L6: "ks_locks (sched_notify c t s5)
      = (ks_locks s)(?r := (ks_locks s ?r)\<lparr>sl_value := 0, sl_state := ks_irq s\<rparr>)"
    unfolding s6 by (simp add: s5_def s4_def s3_def)
  define s7 where "s7 = (sched_notify c t s5)\<lparr>ks_irq := ks_irq s,
    ks_locks := (ks_locks s)(?r := (ks_locks s ?r)\<lparr>sl_state := ks_irq s, sl_value := 1\<rparr>)\<rparr>"
  have unl: "ks_unlock ?r (sched_notify c t s5) = Some s7"
    by (simp add: ks_unlock_eq L6 s7_def)
  have cs: "th_cpu (thread_of s2 t) = Some c" using c by (simp add: s2_def)
  have run: "sched_insert_thread t s = Some s7"
    using st cs lock3 ins unl unfolding sched_insert_thread_def
    by (simp add: place [unfolded Let_def] Let_def s5_def)
  have "sched_inv s7" unfolding s7_def s6
    by (rule sched_inv_cong [OF inv4(1)]) (simp_all add: s5_def upd_sched_def upd_defs)
  moreover have "sched_frame s s7"
    unfolding s7_def s6 using lock
    by (auto simp: sched_frame_def tick_frame_def s5_def s4_def s3_def s2_def upd_sched_def upd_defs)
  moreover have "ks_threads s7 = (ks_threads s)(t := thread_placed t s)"
    unfolding s7_def s6 by (simp add: s5_def s4_def s3_def s2_def)
  moreover have "sched_order s7 d = sched_order s4 d" for d
    unfolding s7_def s6 by (simp add: sched_order_def s5_def upd_sched_def upd_defs)
  moreover have "sched_order s4 d = sched_order s d" if "d \<noteq> c" for d
    using that ord3 [of d] by (simp add: s4_def sched_order_def)
  ultimately show ?thesis
    using run inv4(2) by (auto simp: s3_def s2_def)
qed

section \<open>Initialisation\<close>

text \<open>
  The fields that \<open>thread_create\<close> sets, the queues that \<open>sched_init_percpu\<close> sets up, and the CPU with
  its idle thread running.
\<close>

definition thread_create_fields :: "u32 \<Rightarrow> int \<Rightarrow> bool \<Rightarrow> thread" where
  "thread_create_fields flags owner_priority owner_kernel =
     \<lparr>th_state = THREAD_CREATED, th_flags = flags, th_priority = 1, th_wired = 0,
      th_preempt_count = 0, th_max_prio = -1, th_curr_prio = -1, th_cpu = None, th_timeslice = 0,
      th_sleep_status = STATUS_SUCCESS, th_wait_lock = None, th_owner_priority = owner_priority,
      th_owner_kernel = owner_kernel, th_ipl = 0, th_interrupts = [], th_frame_irq = True\<rparr>"

definition sched_queue_init :: sched_queue where
  "sched_queue_init = \<lparr>sq_bitmap = 0, sq_threads = replicate PRIORITY_COUNT []\<rparr>"

definition sched_init_percpu :: "nat \<Rightarrow> ksys \<Rightarrow> ksys" where
  "sched_init_percpu idle s =
     (let c = ks_curr_cpu s;
          s = upd_sched c (\<lambda>sc. \<lparr>sc_prev_thread = None, sc_idle_thread = idle, sc_active = sched_queue_init,
                                 sc_expired = sched_queue_init, sc_total = 0\<rparr>) s;
          s = upd_thread idle (\<lambda>x. x\<lparr>th_wired := size_inc (th_wired x), th_cpu := Some c,
                                      th_state := THREAD_RUNNING\<rparr>) s;
          s = upd_timer (SchedTimer c) (\<lambda>_. timer_init 0) s
      in upd_cpu c (\<lambda>x. x\<lparr>cpu_thread := idle, cpu_idle := True\<rparr>) s)"

text \<open>
  A machine as it is after the scheduler has been set up on every CPU: thread \<open>2 * c\<close> is the idle
  thread of CPU \<open>c\<close>, thread \<open>2 * c + 1\<close> a kernel thread that has not been started.
\<close>

definition boot_thread :: "nat \<Rightarrow> thread" where
  "boot_thread t =
     (let x = thread_create_fields 0 3 True
      in if even t then x\<lparr>th_wired := 1, th_cpu := Some (t div 2), th_state := THREAD_RUNNING\<rparr> else x)"

definition boot_cpu :: "nat \<Rightarrow> cpu" where
  "boot_cpu c =
     \<lparr>cpu_thread = 2 * c, cpu_should_preempt = False, cpu_idle = True, cpu_timers = [],
      cpu_timer_enabled = True, cpu_next_tick = None,
      cpu_sched = \<lparr>sc_prev_thread = None, sc_idle_thread = 2 * c, sc_active = sched_queue_init,
                   sc_expired = sched_queue_init, sc_total = 0\<rparr>\<rparr>"

definition boot_sys :: ksys where
  "boot_sys =
     \<lparr>ks_threads = boot_thread, ks_cpus = boot_cpu, ks_timers = (\<lambda>_. timer_init 0),
      ks_locks = (\<lambda>_. spinlock_init), ks_waitq = (\<lambda>_. []), ks_running_cpus = [0, 1], ks_cpu_count = 2,
      ks_curr_cpu = 0, ks_irq = True, ks_now = 0, ks_timer_device = TIMER_DEVICE_ONESHOT,
      ks_threads_running = 0, ks_ipis = [], ks_dpcs = []\<rparr>"

lemma runq_view_init [simp]: "runq_view sched_queue_init = []"
  by (simp add: runq_view_def sched_queue_init_def)

lemma queue_init_ok: "queue_ok sched_queue_init" "queue_threads_ok th c sched_queue_init"
  by (auto simp: queue_ok_def queue_threads_ok_def sched_queue_init_def PRIORITY_COUNT_def)

lemma boot_sys_ok [simp]: "sys_ok boot_sys" "locks_free boot_sys"
proof -
  have "sched_inv boot_sys"
    by (simp add: sched_inv_def runq_ok_def sched_order_def boot_sys_def boot_cpu_def queue_init_ok)
  moreover have "idle_ok boot_sys c" for c
    by (simp add: idle_ok_def sched_order_def boot_sys_def boot_cpu_def boot_thread_def)
  moreover have "threads_prio_ok boot_sys"
    by (auto simp: threads_prio_ok_def boot_sys_def boot_cpu_def boot_thread_def
        thread_create_fields_def Let_def elim!: evenE)
  moreover have "timers_inv boot_sys" "timer_armed boot_sys"
    by (simp_all add: timers_inv_def timers_ok_def timer_armed_iff boot_sys_def boot_cpu_def)
  ultimately show "sys_ok boot_sys"
    by (simp add: sys_ok_def) (simp add: boot_sys_def boot_cpu_def boot_thread_def)
  show "locks_free boot_sys"
    by (simp add: locks_free_def boot_sys_def spinlock_init_def)
qed

lemma boot_sys_order [simp]: "sched_order boot_sys c = []"
  by (simp add: sched_order_def boot_sys_def boot_cpu_def)

lemma boot_sys_simps [simp]:
  "ks_threads boot_sys = boot_thread" "ks_cpus boot_sys = boot_cpu" "ks_curr_cpu boot_sys = 0"
  "ks_irq boot_sys" "ks_now boot_sys = 0" "ks_waitq boot_sys q = []"
  "sl_value (ks_locks boot_sys r) = 1" "idle_of boot_sys c = 2 * c" "cpu_thread (boot_cpu c) = 2 * c"
  "sc_idle_thread (cpu_sched (boot_cpu c)) = 2 * c"
  by (simp_all add: boot_sys_def boot_cpu_def spinlock_init_def)

lemma boot_sys_inv [simp]: "sched_inv boot_sys" "timers_inv boot_sys" "timer_armed boot_sys"
  using boot_sys_ok(1) by (simp_all add: sys_ok_def)

lemma boot_not_linked [simp]: "\<not> timer_linked boot_sys x"
  by (simp add: timer_linked_def boot_sys_def timer_init_def)


theorem timer_stop_correct_witness:
  "\<exists>s'. timer_stop (SleepTimer 1) boot_sys = Some s' \<and> \<not> timer_linked s' (SleepTimer 1)"
  using timer_stop_correct [of boot_sys "SleepTimer 1"] by auto

theorem sched_pick_thread_correct_witness:
  "\<exists>s'. sched_pick_thread 0 boot_sys = Some (None, s') \<and> sched_order s' 0 = []"
  using sched_pick_thread_correct [of boot_sys 0] by (auto simp: Let_def)

theorem sched_priority_31_out_of_bounds_witness:
  "\<exists>s'. sched_queue_insert 0 Active 1 (upd_thread 1 (\<lambda>x. x\<lparr>th_curr_prio := 31\<rparr>) boot_sys) = Some s'
     \<and> sched_pick_thread 0 s' = None"
proof -
  let ?s = "upd_thread 1 (\<lambda>x. x\<lparr>th_curr_prio := 31\<rparr>) boot_sys"
  have "sched_inv ?s" by (rule sched_inv_cong [OF boot_sys_inv(1)]) (simp_all add: upd_defs)
  moreover have "sched_order ?s 0 = []" using boot_sys_order [of 0] by (simp add: sched_order_def upd_defs)
  ultimately show ?thesis
    using sched_priority_31_out_of_bounds [of ?s 1 0] by (simp add: upd_defs)
qed

theorem sched_priority_bounds_witness:
  "prio_ok (thread_of (sched_calculate_priority 1 boot_sys) 1)
   \<and> th_max_prio (thread_of (sched_calculate_priority 1 boot_sys) 1) \<le> 29"
  using sched_priority_bounds [of boot_sys 1]
  by (simp add: boot_sys_def boot_thread_def thread_create_fields_def)

theorem sched_reschedule_correct_witness:
  "\<exists>s'. sched_reschedule True (boot_sys\<lparr>ks_irq := False,
       ks_locks := (\<lambda>_. spinlock_init)(ThreadLock 0 := \<lparr>sl_value = 0, sl_state = False\<rparr>)\<rparr>) = Some s'
     \<and> sys_ok s' \<and> locks_free s' \<and> curr_thread s' = 0 \<and> ks_irq s'"
proof -
  let ?s = "boot_sys\<lparr>ks_irq := False,
       ks_locks := (\<lambda>_. spinlock_init)(ThreadLock 0 := \<lparr>sl_value = 0, sl_state = False\<rparr>)\<rparr>"
  have ord: "sched_order ?s 0 = []" using boot_sys_order [of 0] by (simp add: sched_order_def)
  have "sys_ok ?s"
    using boot_sys_ok(1)
    by (simp add: sys_ok_def sched_inv_def runq_ok_def idle_ok_def threads_prio_ok_def sched_order_def)
  moreover have "order_put (sched_tweaked 0 0 ?s) 0 0 = []"
    using ord by (simp add: order_put_def sched_tweaked_def)
  moreover have "\<forall>r. sl_value (ks_locks ?s r) = (if r = ThreadLock 0 then 0 else 1)"
    by (simp add: spinlock_init_def)
  moreover have "th_state (thread_of ?s 0) = THREAD_RUNNING" by (simp add: boot_thread_def)
  ultimately obtain s' where "sched_reschedule True ?s = Some s'" "sys_ok s'" "locks_free s'"
      "curr_thread s' = 0" "ks_irq s'"
    using sched_reschedule_correct [of ?s 0 0 "[]" 0 True] by (auto simp: order_next_def)
  then show ?thesis by blast
qed

theorem sched_allocate_cpu_balanced_witness:
  "sched_allocate_cpu 0 boot_sys \<in> {0, 1}"
  using sched_allocate_cpu_balanced [of boot_sys 0 0 "\<lambda>d. sc_total (cpu_sched (cpu_of boot_sys d))"]
  by (auto simp: boot_sys_def boot_thread_def boot_cpu_def split: if_splits)

end
