(* ===== verification/Thread_Sleep.thy ===== *)
theory Thread_Sleep
  imports Sched
begin

text \<open>
  Model of the sleep, wake, interrupt and kill functions of \<open>proc/thread.c\<close>, and of the two functions
  that the kernel's own timers call. A call that puts the calling thread to sleep does not return
  while it sleeps: the model ends with the outcome \<open>Asleep\<close> and the state in which the next thread
  runs; the result of the call, when the sleeper is resumed, is its \<open>th_sleep_status\<close>.
\<close>

section \<open>Wiring\<close>

definition thread_wire :: "nat option \<Rightarrow> ksys \<Rightarrow> ksys option" where
  "thread_wire thread s =
     (case thread of
        None \<Rightarrow> Some s
      | Some t \<Rightarrow> do {
          s \<leftarrow> ks_lock (ThreadLock t) s;
          let s = upd_thread t (\<lambda>x. x\<lparr>th_wired := size_inc (th_wired x)\<rparr>) s;
          let s = (if th_cpu (thread_of s t) = None
                   then upd_thread t (\<lambda>x. x\<lparr>th_cpu := Some (ks_curr_cpu s)\<rparr>) s else s);
          ks_unlock (ThreadLock t) s})"

definition thread_unwire :: "nat option \<Rightarrow> ksys \<Rightarrow> ksys option" where
  "thread_unwire thread s =
     (case thread of
        None \<Rightarrow> Some s
      | Some t \<Rightarrow> do {
          s \<leftarrow> ks_lock (ThreadLock t) s;
          assert_k (0 < th_wired (thread_of s t));
          let s = upd_thread t (\<lambda>x. x\<lparr>th_wired := size_dec (th_wired x)\<rparr>) s;
          ks_unlock (ThreadLock t) s})"

section \<open>Waking\<close>

definition thread_wake_unsafe :: "nat \<Rightarrow> ksys \<Rightarrow> ksys option" where
  "thread_wake_unsafe t s = do {
     assert_k (th_state (thread_of s t) = THREAD_SLEEPING);
     assert_k (case th_wait_lock (thread_of s t) of
                 None \<Rightarrow> True | Some r \<Rightarrow> spinlock_held (ks_locks s r));
     s \<leftarrow> timer_stop (SleepTimer t) s;
     let s = wait_remove t s;
     let s = upd_thread t (\<lambda>x. x\<lparr>th_flags := th_flags x AND NOT THREAD_INTERRUPTIBLE,
                                  th_wait_lock := None, th_state := THREAD_READY\<rparr>) s;
     sched_insert_thread t s}"

partial_function (option) acquire_wait_lock :: "nat \<Rightarrow> ksys \<Rightarrow> (lock_ref option \<times> ksys) option" where
  "acquire_wait_lock t s =
     (case th_wait_lock (thread_of s t) of
        None \<Rightarrow> Some (None, s)
      | Some r \<Rightarrow> do {
          s \<leftarrow> ks_lock r s;
          if th_wait_lock (thread_of s t) = Some r then Some (Some r, s)
          else Option.bind (ks_unlock r s) (acquire_wait_lock t)})"

definition release_wait_lock :: "lock_ref option \<Rightarrow> ksys \<Rightarrow> ksys option" where
  "release_wait_lock lock s = (case lock of None \<Rightarrow> Some s | Some r \<Rightarrow> ks_unlock r s)"

definition thread_timeout :: "nat \<Rightarrow> ksys \<Rightarrow> (bool \<times> ksys) option" where
  "thread_timeout t s = do {
     (lock, s) \<leftarrow> acquire_wait_lock t s;
     s \<leftarrow> ks_lock (ThreadLock t) s;
     s \<leftarrow> (if th_state (thread_of s t) = THREAD_SLEEPING
           then thread_wake_unsafe t (upd_thread t (\<lambda>x. x\<lparr>th_sleep_status := STATUS_TIMED_OUT\<rparr>) s)
           else Some s);
     s \<leftarrow> ks_unlock (ThreadLock t) s;
     s \<leftarrow> release_wait_lock lock s;
     Some (False, s)}"

definition thread_wake :: "nat \<Rightarrow> ksys \<Rightarrow> ksys option" where
  "thread_wake t s = do {
     s \<leftarrow> ks_lock (ThreadLock t) s;
     s \<leftarrow> thread_wake_unsafe t s;
     ks_unlock (ThreadLock t) s}"

section \<open>Interrupting and killing\<close>

definition THREAD_IPL_MAX :: u32 where "THREAD_IPL_MAX = 15"

definition thread_interrupt_internal :: "nat \<Rightarrow> ksys \<Rightarrow> ksys option" where
  "thread_interrupt_internal t s =
     (let s = upd_thread t (\<lambda>x. x\<lparr>th_flags := th_flags x OR THREAD_INTERRUPTED\<rparr>) s
      in if th_state (thread_of s t) = THREAD_SLEEPING
            \<and> th_flags (thread_of s t) AND THREAD_INTERRUPTIBLE \<noteq> 0
         then thread_wake_unsafe t (upd_thread t (\<lambda>x. x\<lparr>th_sleep_status := STATUS_INTERRUPTED\<rparr>) s)
         else (case th_cpu (thread_of s t) of
                 None \<Rightarrow> None
               | Some c \<Rightarrow>
                   Some (if c \<noteq> ks_curr_cpu s \<and> th_state (thread_of s t) = THREAD_RUNNING
                         then s\<lparr>ks_ipis := ks_ipis s @ [c]\<rparr> else s)))"

definition thread_kill :: "nat \<Rightarrow> ksys \<Rightarrow> ksys option" where
  "thread_kill t s =
     (if th_owner_kernel (thread_of s t) then Some s
      else do {
        (lock, s) \<leftarrow> acquire_wait_lock t s;
        s \<leftarrow> ks_lock (ThreadLock t) s;
        let s = upd_thread t (\<lambda>x. x\<lparr>th_flags := th_flags x OR THREAD_KILLED\<rparr>) s;
        s \<leftarrow> thread_interrupt_internal t s;
        s \<leftarrow> ks_unlock (ThreadLock t) s;
        release_wait_lock lock s})"

text \<open>
  An interrupt is its priority and an identity. The insertion point is before the first queued
  interrupt of lower priority, else the end of the list. \<open>user_handler\<close> is whether the handler is a
  user address.
\<close>

fun interrupt_insert :: "u32 \<times> nat \<Rightarrow> (u32 \<times> nat) list \<Rightarrow> (u32 \<times> nat) list" where
  "interrupt_insert i [] = [i]"
| "interrupt_insert i (exist # es) =
     (if fst exist < fst i then i # exist # es else exist # interrupt_insert i es)"

definition thread_interrupt :: "bool \<Rightarrow> nat \<Rightarrow> u32 \<times> nat \<Rightarrow> ksys \<Rightarrow> ksys option" where
  "thread_interrupt user_handler t interrupt s =
     (if th_owner_kernel (thread_of s t) then Some s
      else do {
        assert_k (fst interrupt \<le> THREAD_IPL_MAX);
        assert_k user_handler;
        (lock, s) \<leftarrow> acquire_wait_lock t s;
        s \<leftarrow> ks_lock (ThreadLock t) s;
        let s = upd_thread t (\<lambda>x. x\<lparr>th_interrupts := interrupt_insert interrupt (th_interrupts x)\<rparr>) s;
        let exist = hd (th_interrupts (thread_of s t));
        s \<leftarrow> (if exist = interrupt \<and> th_ipl (thread_of s t) \<le> fst interrupt
              then thread_interrupt_internal t s else Some s);
        s \<leftarrow> ks_unlock (ThreadLock t) s;
        release_wait_lock lock s})"

section \<open>Sleeping\<close>

datatype sleep_result = Returned status | Asleep

definition thread_sleep_cancel ::
  "lock_ref option \<Rightarrow> status \<Rightarrow> ksys \<Rightarrow> (sleep_result \<times> ksys) option" where
  "thread_sleep_cancel lock ret s = do {
     let s = wait_remove (curr_thread s) s;
     s \<leftarrow> release_wait_lock lock s;
     Some (Returned ret, s)}"

definition thread_sleep ::
  "lock_ref option \<Rightarrow> int \<Rightarrow> u32 \<Rightarrow> ksys \<Rightarrow> (sleep_result \<times> ksys) option" where
  "thread_sleep lock timeout flags s =
     (let t = curr_thread s;
          timeout = (if flags AND SLEEP_ABSOLUTE \<noteq> 0 \<and> 0 < timeout
                     then (if timeout - ks_now s < 0 then 0 else timeout - ks_now s)
                     else timeout)
      in if timeout = 0 then thread_sleep_cancel lock STATUS_WOULD_BLOCK s
         else if flags AND SLEEP_INTERRUPTIBLE \<noteq> 0
              \<and> th_flags (thread_of s t) AND THREAD_INTERRUPTED \<noteq> 0
         then thread_sleep_cancel lock STATUS_INTERRUPTED s
         else do {
           let (state, s) = (case lock of
                               Some r \<Rightarrow> (sl_state (ks_locks s r), s)
                             | None \<Rightarrow> local_irq_disable s);
           s \<leftarrow> ks_lock_noirq (ThreadLock t) s;
           let s = upd_thread t (\<lambda>x. x\<lparr>th_sleep_status := STATUS_SUCCESS, th_wait_lock := lock\<rparr>) s;
           let s = (if flags AND SLEEP_INTERRUPTIBLE \<noteq> 0
                    then upd_thread t (\<lambda>x. x\<lparr>th_flags := th_flags x OR THREAD_INTERRUPTIBLE\<rparr>) s
                    else s);
           s \<leftarrow> (if 0 < timeout then timer_start (SleepTimer t) timeout TIMER_ONESHOT s else Some s);
           s \<leftarrow> (case lock of Some r \<Rightarrow> ks_unlock_noirq r s | None \<Rightarrow> Some s);
           let s = upd_thread t (\<lambda>x. x\<lparr>th_state := THREAD_SLEEPING\<rparr>) s;
           s \<leftarrow> sched_reschedule state s;
           Some (Asleep, s)})"

text \<open>\<open>delay_etc\<close> of \<open>time.c\<close>: the result of the call once the sleep has ended with \<open>ret\<close>.\<close>

definition delay_result :: "status \<Rightarrow> status" where
  "delay_result ret = (if ret = STATUS_TIMED_OUT \<or> ret = STATUS_WOULD_BLOCK then STATUS_SUCCESS else ret)"

definition delay_etc :: "int \<Rightarrow> u32 \<Rightarrow> ksys \<Rightarrow> (sleep_result \<times> ksys) option" where
  "delay_etc nsecs flags s = do {
     assert_k (0 \<le> nsecs);
     (r, s) \<leftarrow> thread_sleep None nsecs flags s;
     Some (case r of Returned ret \<Rightarrow> Returned (delay_result ret) | Asleep \<Rightarrow> Asleep, s)}"

section \<open>The functions of the timers\<close>

text \<open>
  The functions of the kernel's timers. User timers are created with \<open>TIMER_THREAD\<close>, their function
  never runs in the tick handler.
\<close>

fun kernel_timer_func :: "timer_ref \<Rightarrow> ksys \<Rightarrow> (bool \<times> ksys) option" where
  "kernel_timer_func (SleepTimer t) s = thread_timeout t s"
| "kernel_timer_func (SchedTimer c) s = Some (sched_timer_handler s)"
| "kernel_timer_func (UserTimer n) s = None"

section \<open>Waking: correctness\<close>

lemma timer_linked_upd [simp]:
  "timer_linked (s\<lparr>ks_threads := a\<rparr>) x = timer_linked s x" "timer_linked (s\<lparr>ks_ipis := b\<rparr>) x = timer_linked s x"
  "timer_linked (s\<lparr>ks_locks := l\<rparr>) x = timer_linked s x" "timer_linked (s\<lparr>ks_irq := i\<rparr>) x = timer_linked s x"
  "timer_linked (s\<lparr>ks_waitq := w\<rparr>) x = timer_linked s x"
  by (rule timer_linked_cong; simp)+

text \<open>The thread a wake-up leaves, before it is given a CPU.\<close>

definition woken :: "thread \<Rightarrow> thread" where
  "woken x = x\<lparr>th_flags := th_flags x AND NOT THREAD_INTERRUPTIBLE, th_wait_lock := None,
     th_state := THREAD_READY\<rparr>"

lemma woken_simps [simp]:
  "th_state (woken x) = THREAD_READY" "th_wait_lock (woken x) = None"
  "th_flags (woken x) = th_flags x AND NOT THREAD_INTERRUPTIBLE"
  "th_sleep_status (woken x) = th_sleep_status x" "th_cpu (woken x) = th_cpu x"
  "th_max_prio (woken x) = th_max_prio x" "th_curr_prio (woken x) = th_curr_prio x"
  by (simp_all add: woken_def)

lemma thread_placed_prio:
  "prio_ok (thread_of s t) \<Longrightarrow> prio_ok (thread_placed t s)"
  by (auto simp: thread_placed_def prio_ok_def Let_def)

lemma thread_placed_cpu:
  "th_cpu (thread_of s t) \<noteq> None \<Longrightarrow> th_max_prio (thread_of s t) \<ge> 0 \<Longrightarrow>
   \<exists>c. th_cpu (thread_placed t s) = Some c"
  by (auto simp: thread_placed_def Let_def)

text \<open>What waking a thread leaves alone, besides the thread itself, its lists and its timer.\<close>

definition wake_frame :: "nat \<Rightarrow> ksys \<Rightarrow> ksys \<Rightarrow> bool" where
  "wake_frame t s s' \<longleftrightarrow>
     (\<forall>u. u \<noteq> t \<longrightarrow> thread_of s' u = thread_of s u)
   \<and> (\<forall>r. sl_value (ks_locks s' r) = sl_value (ks_locks s r))
   \<and> (\<forall>r. (\<forall>c. r \<noteq> SchedLock c \<and> r \<noteq> TimerLock c) \<longrightarrow> ks_locks s' r = ks_locks s r)
   \<and> ks_irq s' = ks_irq s \<and> ks_now s' = ks_now s \<and> ks_curr_cpu s' = ks_curr_cpu s
   \<and> (\<forall>c. cpu_thread (cpu_of s' c) = cpu_thread (cpu_of s c) \<and> idle_of s' c = idle_of s c)
   \<and> (\<forall>x. tm_flags (ks_timers s' x) = tm_flags (ks_timers s x))
   \<and> (\<forall>x. x \<noteq> SleepTimer t \<longrightarrow> timer_linked s' x = timer_linked s x)"

lemma set_order_insert [simp]:
  "set (order_insert w th t sc) = insert t (set (runq_view (sc_active sc)) \<union> set (runq_view (sc_expired sc)))"
  by (cases w) auto

text \<open>The part of the invariant that does not concern timers.\<close>

definition core_ok :: "ksys \<Rightarrow> bool" where
  "core_ok s \<longleftrightarrow> sched_inv s \<and> (\<forall>c. idle_ok s c) \<and> threads_prio_ok s
     \<and> th_cpu (thread_of s (curr_thread s)) = Some (ks_curr_cpu s)"

lemma sys_ok_core: "sys_ok s \<longleftrightarrow> core_ok s \<and> timers_inv s \<and> timer_armed s"
  by (auto simp: sys_ok_def core_ok_def)

text \<open>Inserting a thread that was asleep or new keeps the invariant of the system.\<close>

lemma core_ok_inserted:
  assumes sys: "core_ok s" and idle: "\<And>c. t \<noteq> idle_of s c" and curr: "t \<noteq> curr_thread s"
    and inv: "sched_inv s'" and fr: "sched_frame s0 s'"
    and s0: "\<And>c. cpu_sched (cpu_of s0 c) = cpu_sched (cpu_of s c)" "\<And>c. cpu_thread (cpu_of s0 c) = cpu_thread (cpu_of s c)"
      "ks_curr_cpu s0 = ks_curr_cpu s" "\<And>u. u \<noteq> t \<Longrightarrow> thread_of s0 u = thread_of s u"
    and th: "ks_threads s' = (ks_threads s0)(t := thread_placed t s0)" "prio_ok (thread_placed t s0)"
    and ord: "sched_order s' c = order_insert Active th t (cpu_sched (cpu_of s0 c))"
      "\<And>d. d \<noteq> c \<Longrightarrow> sched_order s' d = sched_order s0 d"
  shows "core_ok s'"
proof -
  have sub: "set (sched_order s' d) \<subseteq> insert t (set (sched_order s d))" for d
    using ord s0(1) by (cases "d = c") (auto simp: sched_order_def)
  have id: "idle_of s' d = idle_of s d" for d using fr s0(1) by (simp add: sched_frame_def)
  have thr: "thread_of s' u = thread_of s u" if "u \<noteq> t" for u using that th(1) s0(4) by simp
  have "idle_ok s' d" for d
    using sys sub idle [of d] thr [of "idle_of s d"] unfolding idle_ok_def id core_ok_def by (metis insertE subsetD)
  moreover have "threads_prio_ok s'"
    using sys th thr unfolding threads_prio_ok_def id core_ok_def by (metis fun_upd_same)
  moreover have c: "ks_curr_cpu s' = ks_curr_cpu s" "curr_thread s' = curr_thread s"
    using fr s0 by (simp_all add: sched_frame_def tick_frame_def)
  moreover have "th_cpu (thread_of s' (curr_thread s')) = Some (ks_curr_cpu s')"
    using c thr [of "curr_thread s"] curr sys by (simp add: core_ok_def)
  ultimately show ?thesis using inv by (simp add: core_ok_def)
qed

lemma timers_sched_frame:
  assumes "sched_frame s s'"
  shows "timers_inv s \<Longrightarrow> timers_inv s'" and "timer_armed s \<Longrightarrow> timer_armed s'"
    and "timer_linked s' x = timer_linked s x"
proof -
  note fr = assms [unfolded sched_frame_def tick_frame_def]
  show "timers_inv s'" if "timers_inv s"
    by (rule timers_inv_cong [OF that]) (use fr in simp_all)
  show "timer_armed s'" if "timer_armed s"
    by (rule timer_armed_cong [OF that]) (use fr in simp_all)
  show "timer_linked s' x = timer_linked s x"
    by (rule timer_linked_cong) (use fr in simp_all)
qed

lemma thread_wake_unsafe_core:
  assumes sys: "core_ok s" and st: "th_state (thread_of s t) = THREAD_SLEEPING"
    and held: "\<And>r. th_wait_lock (thread_of s t) = Some r \<Longrightarrow> sl_value (ks_locks s r) \<noteq> 1"
    and idle: "\<And>c. t \<noteq> idle_of s c" and curr: "t \<noteq> curr_thread s" and cpu: "th_cpu (thread_of s t) \<noteq> None"
    and locks: "\<And>c. sl_value (ks_locks s (SchedLock c)) = 1"
    and tmr: "timer_linked s (SleepTimer t) \<Longrightarrow>
      timers_inv s \<and> timer_armed s \<and> (\<forall>c. sl_value (ks_locks s (TimerLock c)) = 1)"
  shows "\<exists>s' c. thread_wake_unsafe t s = Some s' \<and> core_ok s' \<and> wake_frame t s s'
    \<and> th_state (thread_of s' t) = THREAD_READY \<and> t \<in> set (sched_order s' c)
    \<and> th_sleep_status (thread_of s' t) = th_sleep_status (thread_of s t)
    \<and> th_wait_lock (thread_of s' t) = None
    \<and> th_flags (thread_of s' t) = th_flags (thread_of s t) AND NOT THREAD_INTERRUPTIBLE
    \<and> \<not> timer_linked s' (SleepTimer t) \<and> ks_waitq s' = (\<lambda>q. removeAll t (ks_waitq s q))
    \<and> (\<not> timer_linked s (SleepTimer t) \<longrightarrow> tick_frame s s')
    \<and> (timers_inv s \<and> timer_armed s \<longrightarrow> timers_inv s' \<and> timer_armed s')"
proof -
  obtain s1 where s1: "timer_stop (SleepTimer t) s = Some s1"
      "timers_inv s \<and> timer_armed s \<longrightarrow> timers_inv s1 \<and> timer_armed s1"
      "timer_frame s s1" "\<not> timer_linked s1 (SleepTimer t)"
      "\<forall>x. x \<noteq> SleepTimer t \<longrightarrow> timer_linked s1 x = timer_linked s x"
    using timer_stop_ok [of s "SleepTimer t"] tmr by (cases "timer_linked s (SleepTimer t)") auto
  define s3 where "s3 = s1\<lparr>ks_waitq := (\<lambda>q. removeAll t (ks_waitq s1 q)),
    ks_threads := (ks_threads s1)(t := woken (thread_of s1 t))\<rparr>"
  have fr: "ks_threads s1 = ks_threads s" "ks_waitq s1 = ks_waitq s" "\<And>c. cpu_sched (cpu_of s1 c) = cpu_sched (cpu_of s c)"
      "\<And>c. cpu_thread (cpu_of s1 c) = cpu_thread (cpu_of s c)" "ks_curr_cpu s1 = ks_curr_cpu s"
      "\<And>r. sl_value (ks_locks s1 r) = sl_value (ks_locks s r)" "ks_irq s1 = ks_irq s" "ks_now s1 = ks_now s"
    using s1(3) by (simp_all add: timer_frame_def)
  have nq: "t \<notin> set (sched_order s d)" for d
    using not_ready_not_queued [of s t d] sys st by (simp add: core_ok_def)
  have "prio_ok (thread_of s t)" using sys st idle unfolding core_ok_def threads_prio_ok_def by fastforce
  then have prio3: "prio_ok (thread_of s3 t)" "0 \<le> th_max_prio (thread_of s3 t)"
    by (auto simp: s3_def fr prio_ok_def)
  have inv3: "sched_inv s3"
    by (rule sched_inv_cong [of s]) (use sys nq in \<open>auto simp: s3_def fr core_ok_def\<close>)
  have ord3: "sched_order s3 d = sched_order s d" for d by (simp add: s3_def sched_order_def fr)
  obtain c where c: "th_cpu (thread_placed t s3) = Some c"
    using thread_placed_cpu [OF _ prio3(2)] cpu by (auto simp: s3_def fr)
  note placed = thread_placed_prio [OF prio3(1)]
  obtain s' where s': "sched_insert_thread t s3 = Some s'" "sched_inv s'" "sched_frame s3 s'"
      "ks_threads s' = (ks_threads s3)(t := thread_placed t s3)"
      "sched_order s' c = order_insert Active ((ks_threads s3)(t := thread_placed t s3)) t (cpu_sched (cpu_of s3 c))"
      "\<forall>d. d \<noteq> c \<longrightarrow> sched_order s' d = sched_order s3 d"
    using sched_insert_thread_ok [OF inv3 _ _ placed c] nq ord3 locks by (auto simp: s3_def fr)
  have t3: "timers_inv s1 \<Longrightarrow> timers_inv s3" "timer_armed s1 \<Longrightarrow> timer_armed s3"
    subgoal by (rule timers_inv_cong [of s1]) (simp_all add: s3_def)
    subgoal by (rule timer_armed_cong [of s1]) (simp_all add: s3_def)
    done
  have lkx: "timer_linked s3 x = timer_linked s1 x" for x
    by (rule timer_linked_cong) (simp_all add: s3_def)
  have lk3: "\<not> timer_linked s3 (SleepTimer t)"
    using s1(4) timer_linked_cong [of s3 "SleepTimer t" s1] by (simp add: s3_def)
  have "(case th_wait_lock (thread_of s t) of None \<Rightarrow> True | Some r \<Rightarrow> spinlock_held (ks_locks s r))"
    using held by (auto simp: spinlock_held_def split: option.splits)
  then have "thread_wake_unsafe t s = Some s'"
    using st s1(1) s'(1) by (simp add: thread_wake_unsafe_def upd_defs s3_def woken_def)
  moreover have "core_ok s'"
    by (rule core_ok_inserted [OF sys idle curr s'(2,3) _ _ _ _ s'(4) placed s'(5)])
      (use s'(6) in \<open>simp_all add: s3_def fr\<close>)
  moreover have "wake_frame t s s'"
    using s'(3,4) s1(3,5) timers_sched_frame(3) [OF s'(3)] lkx
    by (auto simp: wake_frame_def sched_frame_def tick_frame_def timer_frame_def s3_def)
  moreover have "t \<in> set (sched_order s' c)" using s'(5) by simp
  moreover have "\<not> timer_linked s' (SleepTimer t)" using lk3 timers_sched_frame(3) [OF s'(3)] by simp
  moreover have "ks_waitq s' = (\<lambda>q. removeAll t (ks_waitq s q))"
    using s'(3) by (simp add: sched_frame_def s3_def fr)
  moreover have "tick_frame s s'" if "\<not> timer_linked s (SleepTimer t)"
    using s'(3) that s1(1) by (simp add: sched_frame_def tick_frame_def s3_def)
  moreover have "timers_inv s \<and> timer_armed s \<longrightarrow> timers_inv s' \<and> timer_armed s'"
    using s1(2) t3 timers_sched_frame [OF s'(3)] by blast
  ultimately show ?thesis
    using s'(4) by (auto simp: s3_def fr)
qed

lemma thread_wake_unsafe_ok:
  assumes sys: "sys_ok s" and st: "th_state (thread_of s t) = THREAD_SLEEPING"
    and held: "\<And>r. th_wait_lock (thread_of s t) = Some r \<Longrightarrow> sl_value (ks_locks s r) \<noteq> 1"
    and idle: "\<And>c. t \<noteq> idle_of s c" and curr: "t \<noteq> curr_thread s" and cpu: "th_cpu (thread_of s t) \<noteq> None"
    and locks: "\<And>c. sl_value (ks_locks s (TimerLock c)) = 1" "\<And>c. sl_value (ks_locks s (SchedLock c)) = 1"
  shows "\<exists>s' c. thread_wake_unsafe t s = Some s' \<and> sys_ok s' \<and> wake_frame t s s'
    \<and> th_state (thread_of s' t) = THREAD_READY \<and> t \<in> set (sched_order s' c)
    \<and> th_sleep_status (thread_of s' t) = th_sleep_status (thread_of s t)
    \<and> th_wait_lock (thread_of s' t) = None
    \<and> th_flags (thread_of s' t) = th_flags (thread_of s t) AND NOT THREAD_INTERRUPTIBLE
    \<and> \<not> timer_linked s' (SleepTimer t) \<and> ks_waitq s' = (\<lambda>q. removeAll t (ks_waitq s q))"
  using thread_wake_unsafe_core [of s t] assms unfolding sys_ok_core by blast

lemma sys_ok_locks [simp]:
  "sys_ok (s\<lparr>ks_irq := i, ks_locks := l\<rparr>) = sys_ok s" "sys_ok (s\<lparr>ks_locks := l\<rparr>) = sys_ok s"
  "sys_ok (s\<lparr>ks_irq := i\<rparr>) = sys_ok s" "sys_ok (s\<lparr>ks_waitq := w\<rparr>) = sys_ok s"
  by (simp_all add: sys_ok_def sched_inv_def runq_ok_def idle_ok_def threads_prio_ok_def sched_order_def
      timers_inv_def timers_ok_def timer_armed_iff)

lemma sys_ok_timer:
  "sys_ok s \<Longrightarrow> timer_frame s s' \<Longrightarrow> timers_inv s' \<Longrightarrow> timer_armed s' \<Longrightarrow> sys_ok s'"
  using timer_frame_sched [of s s'] by (simp add: sys_ok_def timer_frame_def)

text \<open>Writing fields of a thread that is not queued.\<close>

lemma sys_ok_upd_thread:
  assumes sys: "sys_ok s" and st: "th_state (thread_of s t) \<noteq> THREAD_READY" "th_state x \<noteq> THREAD_READY"
    and x: "th_cpu x = th_cpu (thread_of s t)" "prio_ok x = prio_ok (thread_of s t)"
      "th_state x \<in> {THREAD_RUNNING, THREAD_SLEEPING} \<Longrightarrow>
       th_state (thread_of s t) \<in> {THREAD_RUNNING, THREAD_SLEEPING}"
  shows "sys_ok (s\<lparr>ks_threads := (ks_threads s)(t := x)\<rparr>)" (is "sys_ok ?s")
proof -
  have nq: "t \<notin> set (sched_order s d)" for d
    using not_ready_not_queued [of s t d] sys st by (simp add: sys_ok_def)
  have ord: "sched_order ?s d = sched_order s d" for d by (simp add: sched_order_def)
  have "sched_inv ?s" by (rule sched_inv_cong [of s]) (use sys nq in \<open>auto simp: sys_ok_def\<close>)
  moreover have "timers_inv ?s" "timer_armed ?s"
    using sys by (simp_all add: sys_ok_def timers_inv_def timers_ok_def timer_armed_iff)
  moreover have "idle_ok ?s c" for c
    using sys x(1) ord unfolding sys_ok_def idle_ok_def by auto
  moreover have "threads_prio_ok ?s"
    using sys x(2,3) st(2) unfolding sys_ok_def threads_prio_ok_def by auto
  ultimately show ?thesis using sys x(1) by (auto simp: sys_ok_def)
qed

lemma ks_bracket:
  assumes "sl_value (ks_locks s r) = 1" and "ks_locks s1 r = (ks_locks s r)\<lparr>sl_value := 0, sl_state := ks_irq s\<rparr>"
  shows "ks_unlock r s1 = Some (s1\<lparr>ks_irq := ks_irq s,
    ks_locks := (ks_locks s1)(r := (ks_locks s r)\<lparr>sl_state := ks_irq s, sl_value := 1\<rparr>)\<rparr>)"
  using assms by (simp add: ks_unlock_eq)

text \<open>A lock named by a sleeping thread is the lock of a wait list.\<close>

definition wait_lock_ok :: "ksys \<Rightarrow> nat \<Rightarrow> bool" where
  "wait_lock_ok s t \<longleftrightarrow> (\<forall>r. th_wait_lock (thread_of s t) = Some r \<longrightarrow> (\<exists>q. r = WaitLock q))"

text \<open>A sleeping thread that can be woken: not the current one, not idle, with a CPU.\<close>

definition sleeper_ok :: "ksys \<Rightarrow> nat \<Rightarrow> bool" where
  "sleeper_ok s t \<longleftrightarrow> th_state (thread_of s t) = THREAD_SLEEPING \<and> wait_lock_ok s t
     \<and> (\<forall>c. t \<noteq> idle_of s c) \<and> t \<noteq> curr_thread s \<and> th_cpu (thread_of s t) \<noteq> None"

lemma thread_wake_ok:
  assumes sys: "sys_ok s" and sl: "sleeper_ok s t"
    and held: "\<And>q. th_wait_lock (thread_of s t) = Some (WaitLock q) \<Longrightarrow> sl_value (ks_locks s (WaitLock q)) \<noteq> 1"
    and locks: "\<And>c. sl_value (ks_locks s (TimerLock c)) = 1" "\<And>c. sl_value (ks_locks s (SchedLock c)) = 1"
      "sl_value (ks_locks s (ThreadLock t)) = 1"
  shows "\<exists>s' c. thread_wake t s = Some s' \<and> sys_ok s'
    \<and> (\<forall>u. u \<noteq> t \<longrightarrow> thread_of s' u = thread_of s u)
    \<and> (\<forall>r. sl_value (ks_locks s' r) = sl_value (ks_locks s r))
    \<and> (\<forall>q. ks_locks s' (WaitLock q) = ks_locks s (WaitLock q))
    \<and> ks_irq s' = ks_irq s \<and> ks_now s' = ks_now s \<and> ks_curr_cpu s' = ks_curr_cpu s \<and> curr_thread s' = curr_thread s
    \<and> th_state (thread_of s' t) = THREAD_READY \<and> t \<in> set (sched_order s' c)
    \<and> th_sleep_status (thread_of s' t) = th_sleep_status (thread_of s t)
    \<and> th_wait_lock (thread_of s' t) = None
    \<and> th_flags (thread_of s' t) = th_flags (thread_of s t) AND NOT THREAD_INTERRUPTIBLE
    \<and> \<not> timer_linked s' (SleepTimer t) \<and> ks_waitq s' = (\<lambda>q. removeAll t (ks_waitq s q))
    \<and> (\<forall>c. idle_of s' c = idle_of s c)
    \<and> (\<forall>x. x \<noteq> SleepTimer t \<longrightarrow> timer_linked s' x = timer_linked s x)"
proof -
  let ?r = "ThreadLock t"
  define s0 where "s0 = s\<lparr>ks_irq := False, ks_locks := (ks_locks s)(?r := (ks_locks s ?r)\<lparr>sl_value := 0, sl_state := ks_irq s\<rparr>)\<rparr>"
  have l0: "ks_lock ?r s = Some s0" using locks by (simp add: ks_lock_eq s0_def)
  have held0: "sl_value (ks_locks s0 r) \<noteq> 1" if "th_wait_lock (thread_of s0 t) = Some r" for r
    using that held sl by (auto simp: s0_def sleeper_ok_def wait_lock_ok_def)
  obtain s1 c where s1: "thread_wake_unsafe t s0 = Some s1" "sys_ok s1" "wake_frame t s0 s1"
    "th_state (thread_of s1 t) = THREAD_READY" "t \<in> set (sched_order s1 c)"
    "th_sleep_status (thread_of s1 t) = th_sleep_status (thread_of s t)"
    "th_wait_lock (thread_of s1 t) = None"
    "th_flags (thread_of s1 t) = th_flags (thread_of s t) AND NOT THREAD_INTERRUPTIBLE"
    "\<not> timer_linked s1 (SleepTimer t)" "ks_waitq s1 = (\<lambda>q. removeAll t (ks_waitq s q))"
    using thread_wake_unsafe_ok [of s0 t] held0 sys sl locks by (auto simp: s0_def sleeper_ok_def)
  define s' where "s' = s1\<lparr>ks_irq := ks_irq s,
    ks_locks := (ks_locks s1)(?r := (ks_locks s ?r)\<lparr>sl_state := ks_irq s, sl_value := 1\<rparr>)\<rparr>"
  have u: "ks_unlock ?r s1 = Some s'"
    unfolding s'_def by (rule ks_bracket) (use locks s1(3) in \<open>auto simp: wake_frame_def s0_def\<close>)
  have "thread_wake t s = Some s'" using l0 s1(1) u by (simp add: thread_wake_def)
  moreover have "timer_linked s' x = timer_linked s1 x" "sched_order s' d = sched_order s1 d" for x d
    by (simp_all add: s'_def sched_order_def timer_linked_def split: option.splits)
  moreover have "\<forall>r. sl_value (ks_locks s' r) = sl_value (ks_locks s r)"
    using s1(3) locks by (auto simp: s'_def wake_frame_def s0_def)
  moreover have "\<forall>q. ks_locks s' (WaitLock q) = ks_locks s (WaitLock q)"
    using s1(3) by (auto simp: s'_def wake_frame_def s0_def)
  ultimately show ?thesis
    using s1 by (auto simp: s'_def wake_frame_def s0_def)
qed

text \<open>
  Property C2. Waking a sleeping thread whose wait lock is held returns, with the locks and the
  interrupt state as before: the thread is ready, queued on a CPU, on no wait list (the other
  waiters keep their order), its sleep timer is stopped, its sleep status is kept, no other thread
  changes, and the invariant of the system holds.\<close>

theorem thread_wake_correct:
  "sys_ok s \<Longrightarrow> locks_free (s\<lparr>ks_locks := (ks_locks s)(WaitLock q := spinlock_init)\<rparr>) \<Longrightarrow>
   sl_value (ks_locks s (WaitLock q)) \<noteq> 1 \<Longrightarrow> sleeper_ok s t \<Longrightarrow>
   th_wait_lock (thread_of s t) = Some (WaitLock q) \<Longrightarrow>
   \<exists>s' c. thread_wake t s = Some s' \<and> sys_ok s' \<and> ks_irq s' = ks_irq s
    \<and> (\<forall>r. sl_value (ks_locks s' r) = sl_value (ks_locks s r))
    \<and> th_state (thread_of s' t) = THREAD_READY \<and> t \<in> set (sched_order s' c)
    \<and> th_sleep_status (thread_of s' t) = th_sleep_status (thread_of s t)
    \<and> ks_waitq s' = (\<lambda>q. removeAll t (ks_waitq s q))
    \<and> \<not> timer_linked s' (SleepTimer t)
    \<and> (\<forall>u. u \<noteq> t \<longrightarrow> thread_of s' u = thread_of s u)"
proof -
  assume a: "sys_ok s" "locks_free (s\<lparr>ks_locks := (ks_locks s)(WaitLock q := spinlock_init)\<rparr>)"
    "sl_value (ks_locks s (WaitLock q)) \<noteq> 1" "sleeper_ok s t" "th_wait_lock (thread_of s t) = Some (WaitLock q)"
  have free: "sl_value (ks_locks s r) = 1" if "r \<noteq> WaitLock q" for r
    using a(2) that by (auto simp: locks_free_def split: if_splits dest: spec [of _ r])
  show ?thesis
    using thread_wake_ok [OF a(1,4)] a(3,5) free by auto
qed

section \<open>Sleeping: correctness\<close>

definition sleep_timeout :: "u32 \<Rightarrow> int \<Rightarrow> int \<Rightarrow> int" where
  "sleep_timeout flags timeout now =
     (if flags AND SLEEP_ABSOLUTE \<noteq> 0 \<and> 0 < timeout then max 0 (timeout - now) else timeout)"

definition sleep_cancelled :: "u32 \<Rightarrow> int \<Rightarrow> ksys \<Rightarrow> status option" where
  "sleep_cancelled flags timeout s =
     (if sleep_timeout flags timeout (ks_now s) = 0 then Some STATUS_WOULD_BLOCK
      else if flags AND SLEEP_INTERRUPTIBLE \<noteq> 0
           \<and> th_flags (thread_of s (curr_thread s)) AND THREAD_INTERRUPTED \<noteq> 0
      then Some STATUS_INTERRUPTED else None)"

text \<open>The fields of the caller when it goes to sleep.\<close>

definition sleeping :: "lock_ref option \<Rightarrow> u32 \<Rightarrow> thread \<Rightarrow> thread" where
  "sleeping lock flags x = x\<lparr>th_sleep_status := STATUS_SUCCESS, th_wait_lock := lock,
     th_flags := (if flags AND SLEEP_INTERRUPTIBLE \<noteq> 0 then th_flags x OR THREAD_INTERRUPTIBLE
                  else th_flags x),
     th_state := THREAD_SLEEPING\<rparr>"

text \<open>The caller holds the lock of the wait list, if any, and no other lock.\<close>

definition sleep_locks :: "lock_ref option \<Rightarrow> ksys \<Rightarrow> bool" where
  "sleep_locks lock s \<longleftrightarrow>
     (case lock of
        None \<Rightarrow> locks_free s
      | Some r \<Rightarrow> (\<exists>q. r = WaitLock q) \<and> \<not> ks_irq s
          \<and> (\<forall>x. sl_value (ks_locks s x) = (if x = r then 0 else 1)))"

lemma thread_sleep_cancel_ok:
  assumes "sleep_cancelled flags timeout s = Some ret" and "sleep_locks lock s"
  shows "\<exists>s'. thread_sleep lock timeout flags s = Some (Returned ret, s')
    \<and> locks_free s' \<and> ks_irq s' = (case lock of None \<Rightarrow> ks_irq s | Some r \<Rightarrow> sl_state (ks_locks s r))
    \<and> ks_waitq s' = (\<lambda>q. removeAll (curr_thread s) (ks_waitq s q))
    \<and> ks_threads s' = ks_threads s \<and> ks_cpus s' = ks_cpus s \<and> ks_timers s' = ks_timers s
    \<and> ks_curr_cpu s' = ks_curr_cpu s \<and> (sys_ok s \<longrightarrow> sys_ok s')
    \<and> (\<forall>x. Some x \<noteq> lock \<longrightarrow> ks_locks s' x = ks_locks s x)"
proof -
  have "thread_sleep lock timeout flags s = thread_sleep_cancel lock ret s"
    using assms(1) by (auto simp: thread_sleep_def sleep_cancelled_def sleep_timeout_def max_def Let_def
        split: if_splits)
  with assms(2) show ?thesis
    by (cases lock) (auto simp: thread_sleep_cancel_def release_wait_lock_def sleep_locks_def upd_defs
        ks_unlock_eq locks_free_def)
qed

lemma thread_sleep_ok:
  assumes sys: "sys_ok s" and t: "t = curr_thread s" and st: "th_state (thread_of s t) = THREAD_RUNNING"
    and idle: "\<And>c. t \<noteq> idle_of s c" and nc: "sleep_cancelled flags timeout s = None"
    and lk: "sleep_locks lock s" and nl: "\<not> timer_linked s (SleepTimer t)"
    and to: "to = sleep_timeout flags timeout (ks_now s)"
  shows "\<exists>s'. thread_sleep lock timeout flags s = Some (Asleep, s') \<and> sys_ok s' \<and> locks_free s'
    \<and> th_state (thread_of s' t) = THREAD_SLEEPING \<and> th_wait_lock (thread_of s' t) = lock
    \<and> th_sleep_status (thread_of s' t) = STATUS_SUCCESS
    \<and> ks_waitq s' = ks_waitq s
    \<and> (timer_linked s' (SleepTimer t) \<longleftrightarrow> 0 < to)
    \<and> (0 < to \<longrightarrow> target_of s' (SleepTimer t) = ks_now s + to)
    \<and> curr_thread s' = order_next (sched_order s (ks_curr_cpu s)) (idle_of s (ks_curr_cpu s))
    \<and> curr_thread s' \<noteq> t \<and> th_state (thread_of s' (curr_thread s')) = THREAD_RUNNING
    \<and> ks_irq s' = th_frame_irq (thread_of s (curr_thread s'))
    \<and> ks_curr_cpu s' = ks_curr_cpu s
    \<and> (\<forall>u. u \<noteq> t \<longrightarrow> u \<noteq> curr_thread s' \<longrightarrow> thread_of s' u = thread_of s u)
    \<and> (\<forall>u. u \<noteq> t \<longrightarrow> th_sleep_status (thread_of s' u) = th_sleep_status (thread_of s u)
         \<and> th_wait_lock (thread_of s' u) = th_wait_lock (thread_of s u)
         \<and> th_flags (thread_of s' u) = th_flags (thread_of s u))
    \<and> th_flags (thread_of s' t) = (if flags AND SLEEP_INTERRUPTIBLE \<noteq> 0
         then th_flags (thread_of s t) OR THREAD_INTERRUPTIBLE else th_flags (thread_of s t))
    \<and> (\<forall>u. th_cpu (thread_of s' u) = th_cpu (thread_of s u)) \<and> (\<forall>c. idle_of s' c = idle_of s c)"
proof -
  define state where "state = (case lock of Some r \<Rightarrow> sl_state (ks_locks s r) | None \<Rightarrow> ks_irq s)"
  define s1 where "s1 = s\<lparr>ks_irq := False,
    ks_locks := (ks_locks s)(ThreadLock t := (ks_locks s (ThreadLock t))\<lparr>sl_value := 0\<rparr>),
    ks_threads := (ks_threads s)(t := (sleeping lock flags (thread_of s t))\<lparr>th_state := THREAD_RUNNING\<rparr>)\<rparr>"
  have prio: "prio_ok (thread_of s t)"
    using sys st idle unfolding sys_ok_def threads_prio_ok_def by fastforce
  have sl: "th_state (sleeping l f x) = THREAD_SLEEPING" "th_cpu (sleeping l f x) = th_cpu x"
      "prio_ok (sleeping l f x) = prio_ok x" "th_wait_lock (sleeping l f x) = l"
      "th_sleep_status (sleeping l f x) = STATUS_SUCCESS" for l f x
    by (simp_all add: sleeping_def prio_ok_def)
  have sys1: "sys_ok s1"
  proof -
    let ?s0 = "s\<lparr>ks_irq := False, ks_locks := (ks_locks s)(ThreadLock t := (ks_locks s (ThreadLock t))\<lparr>sl_value := 0\<rparr>)\<rparr>"
    have "sys_ok (?s0\<lparr>ks_threads := (ks_threads ?s0)(t := (sleeping lock flags (thread_of s t))\<lparr>th_state := THREAD_RUNNING\<rparr>)\<rparr>)"
      by (rule sys_ok_upd_thread) (use sys st sl prio in \<open>auto simp: prio_ok_def sleeping_def\<close>)
    then show ?thesis by (simp add: s1_def)
  qed
  have lv: "sl_value (ks_locks s1 x) = (if x = ThreadLock t \<or> Some x = lock then 0 else 1)" for x
    using lk by (auto simp: s1_def sleep_locks_def split: option.splits)
  have nl1: "\<not> timer_linked s1 (SleepTimer t)" using nl timer_linked_cong [of s1 "SleepTimer t" s] by (simp add: s1_def)
  have lT: "sl_value (ks_locks s1 (TimerLock (ks_curr_cpu s1))) = 1"
    using lv lk by (auto simp: sleep_locks_def split: option.splits)
  obtain s2 where s2: "(if 0 < to then timer_start (SleepTimer t) to TIMER_ONESHOT s1 else Some s1) = Some s2"
      "timers_inv s2" "timer_armed s2" "timer_frame s1 s2" "timer_linked s2 (SleepTimer t) \<longleftrightarrow> 0 < to"
      "0 < to \<longrightarrow> target_of s2 (SleepTimer t) = ks_now s + to"
    using timer_start_ok [OF _ _ nl1 _ lT, of to TIMER_ONESHOT] sys1 nl1
    by (cases "0 < to") (auto simp: sys_ok_def s1_def)
  have sys2: "sys_ok s2" using sys_ok_timer [OF sys1 s2(4,2,3)] .
  have fr: "ks_threads s2 = ks_threads s1" "ks_waitq s2 = ks_waitq s" "\<And>c. cpu_sched (cpu_of s2 c) = cpu_sched (cpu_of s c)"
      "\<And>c. cpu_thread (cpu_of s2 c) = cpu_thread (cpu_of s c)" "ks_curr_cpu s2 = ks_curr_cpu s" "\<not> ks_irq s2"
      "\<And>x. sl_value (ks_locks s2 x) = sl_value (ks_locks s1 x)"
    using s2(4) by (simp_all add: timer_frame_def s1_def)
  define l3 where "l3 = (case lock of None \<Rightarrow> ks_locks s2 | Some r \<Rightarrow> (ks_locks s2)(r := (ks_locks s2 r)\<lparr>sl_value := 1\<rparr>))"
  define s4 where "s4 = s2\<lparr>ks_locks := l3, ks_threads := (ks_threads s2)(t := sleeping lock flags (thread_of s t))\<rparr>"
  have un: "(case lock of Some r \<Rightarrow> ks_unlock_noirq r s2 | None \<Rightarrow> Some s2) = Some (s2\<lparr>ks_locks := l3\<rparr>)"
    using lv fr(7) by (auto simp: l3_def ks_unlock_noirq_eq split: option.splits)
  have sys4: "sys_ok s4"
  proof -
    have "sys_ok ((s2\<lparr>ks_locks := l3\<rparr>)\<lparr>ks_threads := (ks_threads (s2\<lparr>ks_locks := l3\<rparr>))(t := sleeping lock flags (thread_of s t))\<rparr>)"
      by (rule sys_ok_upd_thread) (use sys2 st sl in \<open>auto simp: fr s1_def prio_ok_def sleeping_def\<close>)
    then show ?thesis by (simp add: s4_def)
  qed
  have cur4: "t = curr_thread s4" "ks_curr_cpu s4 = ks_curr_cpu s" using t fr by (simp_all add: s4_def)
  have id4: "idle_of s4 c = idle_of s c" "sched_order s4 c = sched_order s c" for c
    by (simp_all add: s4_def fr sched_order_def)
  have lv4: "\<forall>x. sl_value (ks_locks s4 x) = (if x = ThreadLock t then 0 else 1)"
    using lv fr(7) lk by (auto simp: s4_def l3_def sleep_locks_def split: option.splits)
  have ord: "sched_order s (ks_curr_cpu s) = order_put (sched_tweaked (ks_curr_cpu s) t s4) (ks_curr_cpu s) t"
  proof -
    obtain p where tw: "sched_tweaked (ks_curr_cpu s) t s4
        = s4\<lparr>ks_threads := (ks_threads s4)(t := (thread_of s4 t)\<lparr>th_curr_prio := p\<rparr>)\<rparr>"
      using sched_tweaked_eq by blast
    show ?thesis unfolding tw using id4(2) sl(1) by (simp add: order_put_def s4_def sched_order_def)
  qed
  let ?nxt = "order_next (sched_order s (ks_curr_cpu s)) (idle_of s (ks_curr_cpu s))"
  have nt: "?nxt \<noteq> t"
    using idle not_ready_not_queued [of s t "ks_curr_cpu s"] sys st
    by (cases "sched_order s (ks_curr_cpu s)") (auto simp: order_next_def sys_ok_def)
  obtain s' where s': "sched_reschedule state s4 = Some s'" "sys_ok s'" "locks_free s'"
     "ks_curr_cpu s' = ks_curr_cpu s" "curr_thread s' = ?nxt" "ks_waitq s' = ks_waitq s4"
     "ks_irq s' = th_frame_irq (thread_of s4 ?nxt)"
     "th_state (thread_of s' ?nxt) = THREAD_RUNNING"
     "th_state (thread_of s' t) = THREAD_SLEEPING"
     "\<forall>u. u \<noteq> ?nxt \<longrightarrow> u \<noteq> t \<longrightarrow> thread_of s' u = thread_of s4 u"
     "\<forall>u. th_sleep_status (thread_of s' u) = th_sleep_status (thread_of s4 u)
          \<and> th_wait_lock (thread_of s' u) = th_wait_lock (thread_of s4 u)"
     "\<forall>u. th_flags (thread_of s' u) = th_flags (thread_of s4 u) \<and> th_cpu (thread_of s' u) = th_cpu (thread_of s4 u)"
     "\<forall>c. idle_of s' c = idle_of s4 c"
     "timer_linked s' (SleepTimer t) = timer_linked s4 (SleepTimer t)"
     "ks_timers s' (SleepTimer t) = ks_timers s4 (SleepTimer t)"
    using sched_reschedule_ok [OF sys4 _ cur4(2) [symmetric] cur4(1) _ _ lv4 ord, of ?nxt state] nt id4 idle sl prio fr
    by (auto simp: s4_def)
  have x1: "th_state (thread_of s t) = THREAD_RUNNING \<Longrightarrow> (sleeping lock flags (thread_of s t))\<lparr>th_state := THREAD_RUNNING\<rparr>
      = (thread_of s t)\<lparr>th_sleep_status := STATUS_SUCCESS, th_wait_lock := lock,
          th_flags := (if flags AND SLEEP_INTERRUPTIBLE \<noteq> 0 then th_flags (thread_of s t) OR THREAD_INTERRUPTIBLE
                  else th_flags (thread_of s t))\<rparr>"
    by (cases "thread_of s t") (simp add: sleeping_def)
  let ?a = "s\<lparr>ks_irq := False, ks_locks := (ks_locks s)(ThreadLock t := (ks_locks s (ThreadLock t))\<lparr>sl_value := 0\<rparr>)\<rparr>"
  have st1: "(case lock of Some r \<Rightarrow> (sl_state (ks_locks s r), s) | None \<Rightarrow> local_irq_disable s)
      = (state, s\<lparr>ks_irq := False\<rparr>)"
    using lk by (auto simp: state_def local_irq_disable_def sleep_locks_def split: option.splits)
  have st2: "ks_lock_noirq (ThreadLock t) (s\<lparr>ks_irq := False\<rparr>) = Some ?a"
    using lk by (auto simp: ks_lock_noirq_eq sleep_locks_def split: option.splits)
  let ?b = "upd_thread t (\<lambda>x. x\<lparr>th_sleep_status := STATUS_SUCCESS, th_wait_lock := lock\<rparr>) ?a"
  have st3: "(if flags AND SLEEP_INTERRUPTIBLE \<noteq> 0
      then upd_thread t (\<lambda>x. x\<lparr>th_flags := th_flags x OR THREAD_INTERRUPTIBLE\<rparr>) ?b else ?b) = s1"
    using x1 [OF st] by (simp add: s1_def upd_defs)
  have st4: "upd_thread t (\<lambda>x. x\<lparr>th_state := THREAD_SLEEPING\<rparr>) (s2\<lparr>ks_locks := l3\<rparr>) = s4"
    by (simp add: s4_def upd_defs fr s1_def) (simp add: sleeping_def)
  have to': "(if flags AND SLEEP_ABSOLUTE \<noteq> 0 \<and> 0 < timeout
      then (if timeout - ks_now s < 0 then 0 else timeout - ks_now s) else timeout) = to"
    by (simp add: to sleep_timeout_def max_def)
  have nz: "to \<noteq> 0" "\<not> (flags AND SLEEP_INTERRUPTIBLE \<noteq> 0 \<and> th_flags (thread_of s t) AND THREAD_INTERRUPTED \<noteq> 0)"
    using nc to t by (auto simp: sleep_cancelled_def split: if_splits)
  have "thread_sleep lock timeout flags s = Some (Asleep, s')"
    unfolding thread_sleep_def Let_def t [symmetric] to' if_not_P [OF nz(1)] if_not_P [OF nz(2)] st1 prod.case st2
      bind.bind_lunit st3 s2(1) un st4 s'(1) by (rule refl)
  moreover have "timer_linked s' (SleepTimer t) \<longleftrightarrow> 0 < to"
    using s'(14) s2(5) timer_linked_cong [of s4 "SleepTimer t" s2] by (simp add: s4_def)
  moreover have "th_flags (thread_of s4 t) = (if flags AND SLEEP_INTERRUPTIBLE \<noteq> 0
         then th_flags (thread_of s t) OR THREAD_INTERRUPTIBLE else th_flags (thread_of s t))"
    by (simp add: s4_def sleeping_def)
  moreover have "th_cpu (thread_of s4 u) = th_cpu (thread_of s u)" for u
    by (simp add: s4_def sl fr s1_def)
  moreover have "thread_of s4 u = thread_of s u" if "u \<noteq> t" for u
    using that by (simp add: s4_def fr s1_def)
  ultimately show ?thesis
    using s' nt sl s2(6) fr id4 by (auto simp: s4_def s1_def)
qed

section \<open>Timeouts, interrupts and kills: correctness\<close>

definition lock_taken :: "lock_ref \<Rightarrow> ksys \<Rightarrow> ksys" where
  "lock_taken r s = s\<lparr>ks_irq := False,
     ks_locks := (ks_locks s)(r := (ks_locks s r)\<lparr>sl_value := 0, sl_state := ks_irq s\<rparr>)\<rparr>"

definition wait_lock_taken :: "lock_ref option \<Rightarrow> ksys \<Rightarrow> ksys" where
  "wait_lock_taken lock s = (case lock of None \<Rightarrow> s | Some r \<Rightarrow> lock_taken r s)"

lemma lock_taken_proj [simp]:
  "ks_threads (lock_taken r s) = ks_threads s" "ks_cpus (lock_taken r s) = ks_cpus s"
  "ks_timers (lock_taken r s) = ks_timers s" "ks_waitq (lock_taken r s) = ks_waitq s"
  "ks_curr_cpu (lock_taken r s) = ks_curr_cpu s" "ks_now (lock_taken r s) = ks_now s"
  "ks_timer_device (lock_taken r s) = ks_timer_device s" "ks_ipis (lock_taken r s) = ks_ipis s"
  by (simp_all add: lock_taken_def)

lemma wait_lock_taken_proj [simp]:
  "ks_threads (wait_lock_taken k s) = ks_threads s" "ks_cpus (wait_lock_taken k s) = ks_cpus s"
  "ks_timers (wait_lock_taken k s) = ks_timers s" "ks_waitq (wait_lock_taken k s) = ks_waitq s"
  "ks_curr_cpu (wait_lock_taken k s) = ks_curr_cpu s" "ks_now (wait_lock_taken k s) = ks_now s"
  "ks_timer_device (wait_lock_taken k s) = ks_timer_device s" "ks_ipis (wait_lock_taken k s) = ks_ipis s"
  by (simp_all add: wait_lock_taken_def split: option.splits)

lemma ks_lock_taken: "sl_value (ks_locks s r) = 1 \<Longrightarrow> ks_lock r s = Some (lock_taken r s)"
  by (simp add: ks_lock_eq lock_taken_def)

lemma acquire_wait_lock_ok:
  assumes "\<And>r. th_wait_lock (thread_of s t) = Some r \<Longrightarrow> sl_value (ks_locks s r) = 1"
  shows "acquire_wait_lock t s
    = Some (th_wait_lock (thread_of s t), wait_lock_taken (th_wait_lock (thread_of s t)) s)"
  using assms
  by (subst acquire_wait_lock.simps)
    (auto simp: wait_lock_taken_def ks_lock_taken split: option.splits)

text \<open>
  Work between taking the wait lock and the thread lock and releasing both: if it restores nothing
  of these two locks, both are free afterwards and the interrupt state is the caller's.
\<close>

lemma both_unlock:
  assumes w: "\<And>r. lock = Some r \<Longrightarrow> sl_value (ks_locks s r) = 1 \<and> r \<noteq> ThreadLock t"
    and t: "sl_value (ks_locks s (ThreadLock t)) = 1"
    and s1: "s1 = lock_taken (ThreadLock t) (wait_lock_taken lock s)"
    and same: "\<And>r. r = ThreadLock t \<or> lock = Some r \<Longrightarrow> ks_locks s2 r = ks_locks s1 r"
    and val: "\<And>r. sl_value (ks_locks s2 r) = sl_value (ks_locks s1 r)"
  shows "\<exists>l. Option.bind (ks_unlock (ThreadLock t) s2) (release_wait_lock lock)
      = Some (s2\<lparr>ks_irq := ks_irq s, ks_locks := l\<rparr>)
    \<and> (\<forall>r. sl_value (l r) = sl_value (ks_locks s r))
    \<and> (\<forall>r. r \<noteq> ThreadLock t \<longrightarrow> lock \<noteq> Some r \<longrightarrow> l r = ks_locks s2 r)"
proof (cases lock)
  case None
  then show ?thesis
    using t same [of "ThreadLock t"] val unfolding s1
    by (auto simp: wait_lock_taken_def lock_taken_def ks_unlock_eq release_wait_lock_def)
next
  case (Some r)
  have l2: "ks_locks s2 r = (ks_locks s r)\<lparr>sl_value := 0, sl_state := ks_irq s\<rparr>"
    "ks_locks s2 (ThreadLock t) = (ks_locks s (ThreadLock t))\<lparr>sl_value := 0, sl_state := False\<rparr>"
    using Some w [of r] same [of r] same [of "ThreadLock t"] unfolding s1
    by (auto simp: wait_lock_taken_def lock_taken_def)
  show ?thesis
    using Some t w [of r] l2 val unfolding s1
    by (auto simp: wait_lock_taken_def lock_taken_def ks_unlock_eq release_wait_lock_def)
qed

lemma core_ok_cong:
  assumes "core_ok s" and "ks_threads s' = ks_threads s" and "ks_cpus s' = ks_cpus s"
    and "ks_curr_cpu s' = ks_curr_cpu s"
  shows "core_ok s'"
  using assms by (simp add: core_ok_def sched_inv_def runq_ok_def sched_order_def idle_ok_def threads_prio_ok_def)

lemma core_ok_upd:
  assumes sys: "core_ok s"
    and x: "th_cpu x = th_cpu (thread_of s t)" "prio_ok x = prio_ok (thread_of s t)"
      "th_state x = th_state (thread_of s t)" "th_curr_prio x = th_curr_prio (thread_of s t)"
  shows "core_ok (s\<lparr>ks_threads := (ks_threads s)(t := x)\<rparr>)" (is "core_ok ?s")
proof -
  have ord: "sched_order ?s d = sched_order s d" for d by (simp add: sched_order_def)
  have "sched_inv ?s" by (rule sched_inv_cong [of s]) (use sys x in \<open>auto simp: core_ok_def\<close>)
  moreover have "idle_ok ?s c" for c
    using sys x(1) ord unfolding core_ok_def idle_ok_def by auto
  moreover have "threads_prio_ok ?s"
    using sys x unfolding core_ok_def threads_prio_ok_def by auto
  ultimately show ?thesis using sys x(1) by (auto simp: core_ok_def)
qed

text \<open>The common shape of \<open>thread_timeout\<close>, \<open>thread_kill\<close> and \<open>thread_interrupt\<close>.\<close>

definition with_thread_locks :: "nat \<Rightarrow> (ksys \<Rightarrow> ksys option) \<Rightarrow> ksys \<Rightarrow> ksys option" where
  "with_thread_locks t f s = do {
     (lock, s) \<leftarrow> acquire_wait_lock t s;
     s \<leftarrow> ks_lock (ThreadLock t) s;
     s \<leftarrow> f s;
     s \<leftarrow> ks_unlock (ThreadLock t) s;
     release_wait_lock lock s}"

definition thread_locked :: "nat \<Rightarrow> ksys \<Rightarrow> ksys" where
  "thread_locked t s = lock_taken (ThreadLock t) (wait_lock_taken (th_wait_lock (thread_of s t)) s)"

definition other_locks_free :: "ksys \<Rightarrow> bool" where
  "other_locks_free s \<longleftrightarrow> (\<forall>r. (\<forall>c. r \<noteq> TimerLock c) \<longrightarrow> sl_value (ks_locks s r) = 1)"

lemma thread_locked_proj [simp]:
  "ks_threads (thread_locked t s) = ks_threads s" "ks_cpus (thread_locked t s) = ks_cpus s"
  "ks_timers (thread_locked t s) = ks_timers s" "ks_waitq (thread_locked t s) = ks_waitq s"
  "ks_curr_cpu (thread_locked t s) = ks_curr_cpu s" "ks_now (thread_locked t s) = ks_now s"
  "ks_timer_device (thread_locked t s) = ks_timer_device s" "ks_ipis (thread_locked t s) = ks_ipis s"
  by (simp_all add: thread_locked_def)

lemma thread_locked_locks:
  "sl_value (ks_locks (thread_locked t s) r)
     = (if r = ThreadLock t \<or> th_wait_lock (thread_of s t) = Some r then 0 else sl_value (ks_locks s r))"
  "wait_lock_ok s t \<Longrightarrow> ks_locks (thread_locked t s) (TimerLock c) = ks_locks s (TimerLock c)"
  by (auto simp: thread_locked_def lock_taken_def wait_lock_taken_def wait_lock_ok_def split: option.splits)

lemma thread_locked_linked [simp]: "timer_linked (thread_locked t s) x = timer_linked s x"
  by (rule timer_linked_cong) simp_all

lemma thread_locked_core: "core_ok s \<Longrightarrow> core_ok (thread_locked t s)"
  by (rule core_ok_cong [of s]) simp_all

lemma with_thread_locks_ok:
  assumes wl: "wait_lock_ok s t" and free: "other_locks_free s"
    and f: "f (thread_locked t s) = Some s2" and fr: "wake_frame t (thread_locked t s) s2"
  shows "\<exists>l. with_thread_locks t f s = Some (s2\<lparr>ks_irq := ks_irq s, ks_locks := l\<rparr>)
    \<and> (\<forall>r. sl_value (l r) = sl_value (ks_locks s r))
    \<and> (\<forall>c. l (TimerLock c) = ks_locks s2 (TimerLock c))"
proof -
  define lock where "lock = th_wait_lock (thread_of s t)"
  have wf: "sl_value (ks_locks s r) = 1 \<and> r \<noteq> ThreadLock t" if "lock = Some r" for r
    using wl free that by (auto simp: wait_lock_ok_def lock_def other_locks_free_def)
  have acq: "acquire_wait_lock t s = Some (lock, wait_lock_taken lock s)"
    using acquire_wait_lock_ok [of s t] wf by (simp add: lock_def)
  have tf: "sl_value (ks_locks s (ThreadLock t)) = 1" using free by (simp add: other_locks_free_def)
  have tl: "ks_lock (ThreadLock t) (wait_lock_taken lock s) = Some (thread_locked t s)"
    using tf wf unfolding thread_locked_def lock_def [symmetric]
    by (intro ks_lock_taken) (auto simp: wait_lock_taken_def lock_taken_def split: option.splits)
  have same2: "ks_locks s2 r = ks_locks (thread_locked t s) r" if "r = ThreadLock t \<or> lock = Some r" for r
    using fr that wl by (auto simp: wake_frame_def lock_def wait_lock_ok_def)
  obtain l where l: "Option.bind (ks_unlock (ThreadLock t) s2) (release_wait_lock lock)
      = Some (s2\<lparr>ks_irq := ks_irq s, ks_locks := l\<rparr>)" "\<forall>r. sl_value (l r) = sl_value (ks_locks s r)"
      "\<forall>r. r \<noteq> ThreadLock t \<longrightarrow> lock \<noteq> Some r \<longrightarrow> l r = ks_locks s2 r"
    using both_unlock [OF wf tf _ same2, of lock] fr
    unfolding lock_def thread_locked_def wake_frame_def by blast
  have "with_thread_locks t f s = Some (s2\<lparr>ks_irq := ks_irq s, ks_locks := l\<rparr>)"
    using l(1) acq tl f by (simp add: with_thread_locks_def del: bind_Some_iff)
  moreover have "l (TimerLock c) = ks_locks s2 (TimerLock c)" for c
    using l(3) wl by (auto simp: lock_def wait_lock_ok_def)
  ultimately show ?thesis using l(2) by blast
qed

lemma thread_timeout_eq:
  "thread_timeout t s = do {
     s \<leftarrow> with_thread_locks t (\<lambda>s.
       if th_state (thread_of s t) = THREAD_SLEEPING
       then thread_wake_unsafe t (upd_thread t (\<lambda>x. x\<lparr>th_sleep_status := STATUS_TIMED_OUT\<rparr>) s)
       else Some s) s;
     Some (False, s)}"
  by (cases "acquire_wait_lock t s") (auto simp: thread_timeout_def with_thread_locks_def)

lemma thread_kill_eq:
  "thread_kill t s = (if th_owner_kernel (thread_of s t) then Some s
     else with_thread_locks t (\<lambda>s. thread_interrupt_internal t
       (upd_thread t (\<lambda>x. x\<lparr>th_flags := th_flags x OR THREAD_KILLED\<rparr>) s)) s)"
  by (cases "acquire_wait_lock t s") (auto simp: thread_kill_def with_thread_locks_def Let_def)

text \<open>Waking a sleeper with a given status, under both locks.\<close>

lemma wake_with_status:
  assumes core: "core_ok s" and free: "other_locks_free s" and sl: "sleeper_ok s t"
    and x: "th_state x = THREAD_SLEEPING" "th_cpu x = th_cpu (thread_of s t)"
      "prio_ok x = prio_ok (thread_of s t)" "th_curr_prio x = th_curr_prio (thread_of s t)"
      "th_wait_lock x = th_wait_lock (thread_of s t)"
    and tmr: "timer_linked s (SleepTimer t) \<Longrightarrow>
      timers_inv s \<and> timer_armed s \<and> (\<forall>c. sl_value (ks_locks s (TimerLock c)) = 1)"
    and u: "u = (thread_locked t s)\<lparr>ks_threads := (ks_threads s)(t := x)\<rparr>"
  shows "\<exists>s2 c. thread_wake_unsafe t u = Some s2 \<and> core_ok s2 \<and> wake_frame t (thread_locked t s) s2
      \<and> th_state (thread_of s2 t) = THREAD_READY \<and> t \<in> set (sched_order s2 c)
      \<and> th_sleep_status (thread_of s2 t) = th_sleep_status x
      \<and> th_wait_lock (thread_of s2 t) = None
      \<and> th_flags (thread_of s2 t) = th_flags x AND NOT THREAD_INTERRUPTIBLE
      \<and> \<not> timer_linked s2 (SleepTimer t) \<and> ks_waitq s2 = (\<lambda>q. removeAll t (ks_waitq s q))
      \<and> (\<not> timer_linked s (SleepTimer t) \<longrightarrow> tick_frame (thread_locked t s) s2)
      \<and> (timers_inv s \<and> timer_armed s \<longrightarrow> timers_inv s2 \<and> timer_armed s2)"
proof -
  let ?l = "thread_locked t s"
  have "core_ok (?l\<lparr>ks_threads := (ks_threads ?l)(t := x)\<rparr>)"
    by (rule core_ok_upd [OF thread_locked_core [OF core]]) (use x sl in \<open>simp_all add: sleeper_ok_def\<close>)
  then have cu: "core_ok u" by (simp add: u)
  have ul: "timer_linked u (SleepTimer t) = timer_linked s (SleepTimer t)"
    by (rule timer_linked_cong) (simp_all add: u)
  have ut: "timers_inv s \<Longrightarrow> timers_inv u" "timer_armed s \<Longrightarrow> timer_armed u"
    subgoal by (rule timers_inv_cong [of s]) (simp_all add: u)
    subgoal by (rule timer_armed_cong [of s]) (simp_all add: u)
    done
  have free_r: "sl_value (ks_locks s r) = 1" if "\<forall>c. r \<noteq> TimerLock c" for r
    using free that by (simp add: other_locks_free_def)
  have "\<exists>s' c. thread_wake_unsafe t u = Some s' \<and> core_ok s' \<and> wake_frame t u s'
      \<and> th_state (thread_of s' t) = THREAD_READY \<and> t \<in> set (sched_order s' c)
      \<and> th_sleep_status (thread_of s' t) = th_sleep_status (thread_of u t)
      \<and> th_wait_lock (thread_of s' t) = None
      \<and> th_flags (thread_of s' t) = th_flags (thread_of u t) AND NOT THREAD_INTERRUPTIBLE
      \<and> \<not> timer_linked s' (SleepTimer t) \<and> ks_waitq s' = (\<lambda>q. removeAll t (ks_waitq u q))
      \<and> (\<not> timer_linked u (SleepTimer t) \<longrightarrow> tick_frame u s')
      \<and> (timers_inv u \<and> timer_armed u \<longrightarrow> timers_inv s' \<and> timer_armed s')"
    using x sl tmr ut
    by (intro thread_wake_unsafe_core [OF cu])
      (auto simp: u ul [unfolded u] thread_locked_locks free_r sleeper_ok_def wait_lock_ok_def)
  then show ?thesis
    using ul ut by (fastforce simp: u wake_frame_def tick_frame_def)
qed

lemma tick_frame_trans: "tick_frame s t \<Longrightarrow> tick_frame t u \<Longrightarrow> tick_frame s u"
  by (simp add: tick_frame_def)

lemma thread_timeout_core:
  assumes core: "core_ok s" and wl: "wait_lock_ok s t" and free: "other_locks_free s"
    and sl: "th_state (thread_of s t) = THREAD_SLEEPING \<Longrightarrow> sleeper_ok s t"
    and tmr: "timer_linked s (SleepTimer t) \<Longrightarrow>
      timers_inv s \<and> timer_armed s \<and> (\<forall>c. sl_value (ks_locks s (TimerLock c)) = 1)"
  shows "\<exists>s'. thread_timeout t s = Some (False, s') \<and> core_ok s'
    \<and> (\<forall>r. sl_value (ks_locks s' r) = sl_value (ks_locks s r)) \<and> ks_irq s' = ks_irq s
    \<and> (\<forall>u. u \<noteq> t \<longrightarrow> thread_of s' u = thread_of s u)
    \<and> ks_curr_cpu s' = ks_curr_cpu s
    \<and> (\<forall>c. idle_of s' c = idle_of s c \<and> cpu_thread (cpu_of s' c) = cpu_thread (cpu_of s c))
    \<and> (\<not> timer_linked s (SleepTimer t) \<longrightarrow> tick_frame s s')
    \<and> (timers_inv s \<and> timer_armed s \<longrightarrow> timers_inv s' \<and> timer_armed s')
    \<and> (if th_state (thread_of s t) = THREAD_SLEEPING
       then th_state (thread_of s' t) = THREAD_READY \<and> th_wait_lock (thread_of s' t) = None
         \<and> th_sleep_status (thread_of s' t) = STATUS_TIMED_OUT
         \<and> ks_waitq s' = (\<lambda>q. removeAll t (ks_waitq s q))
       else thread_of s' t = thread_of s t \<and> ks_waitq s' = ks_waitq s)"
proof -
  let ?l = "thread_locked t s"
  define f where "f s = (if th_state (thread_of s t) = THREAD_SLEEPING
       then thread_wake_unsafe t (upd_thread t (\<lambda>x. x\<lparr>th_sleep_status := STATUS_TIMED_OUT\<rparr>) s)
       else Some s)" for s
  have lt: "timers_inv s \<Longrightarrow> timers_inv ?l" "timer_armed s \<Longrightarrow> timer_armed ?l"
    subgoal by (rule timers_inv_cong [of s]) simp_all
    subgoal by (rule timer_armed_cong [of s]) simp_all
    done
  have "\<exists>s2. f ?l = Some s2 \<and> core_ok s2 \<and> wake_frame t ?l s2
    \<and> (\<not> timer_linked s (SleepTimer t) \<longrightarrow> tick_frame ?l s2)
    \<and> (timers_inv s \<and> timer_armed s \<longrightarrow> timers_inv s2 \<and> timer_armed s2)
    \<and> (if th_state (thread_of s t) = THREAD_SLEEPING
       then th_state (thread_of s2 t) = THREAD_READY \<and> th_wait_lock (thread_of s2 t) = None
         \<and> th_sleep_status (thread_of s2 t) = STATUS_TIMED_OUT
         \<and> ks_waitq s2 = (\<lambda>q. removeAll t (ks_waitq s q))
       else thread_of s2 t = thread_of s t \<and> ks_waitq s2 = ks_waitq s)"
  proof (cases "th_state (thread_of s t) = THREAD_SLEEPING")
    case False
    then show ?thesis
      using thread_locked_core [OF core] lt by (simp add: f_def wake_frame_def tick_frame_def)
  next
    case True
    let ?x = "(thread_of s t)\<lparr>th_sleep_status := STATUS_TIMED_OUT\<rparr>"
    have "f ?l = thread_wake_unsafe t (?l\<lparr>ks_threads := (ks_threads s)(t := ?x)\<rparr>)"
      using True by (simp add: f_def upd_defs)
    with wake_with_status [OF core free sl [OF True] _ _ _ _ _ tmr refl, of ?x] True show ?thesis
      by (auto simp: prio_ok_def)
  qed
  then obtain s2 where s2: "f ?l = Some s2" "core_ok s2" "wake_frame t ?l s2"
    "\<not> timer_linked s (SleepTimer t) \<longrightarrow> tick_frame ?l s2"
    "timers_inv s \<and> timer_armed s \<longrightarrow> timers_inv s2 \<and> timer_armed s2"
    "if th_state (thread_of s t) = THREAD_SLEEPING
       then th_state (thread_of s2 t) = THREAD_READY \<and> th_wait_lock (thread_of s2 t) = None
         \<and> th_sleep_status (thread_of s2 t) = STATUS_TIMED_OUT
         \<and> ks_waitq s2 = (\<lambda>q. removeAll t (ks_waitq s q))
       else thread_of s2 t = thread_of s t \<and> ks_waitq s2 = ks_waitq s" by blast
  obtain l where l: "with_thread_locks t f s = Some (s2\<lparr>ks_irq := ks_irq s, ks_locks := l\<rparr>)"
      "\<forall>r. sl_value (l r) = sl_value (ks_locks s r)" "\<forall>c. l (TimerLock c) = ks_locks s2 (TimerLock c)"
    using with_thread_locks_ok [where f = f, OF wl free s2(1,3)] by blast
  let ?s' = "s2\<lparr>ks_irq := ks_irq s, ks_locks := l\<rparr>"
  have "thread_timeout t s = Some (False, ?s')"
    using l(1) by (simp add: thread_timeout_eq f_def [abs_def])
  moreover have "core_ok ?s'" by (rule core_ok_cong [OF s2(2)]) simp_all
  moreover have "tick_frame s ?s'" if "\<not> timer_linked s (SleepTimer t)"
    using s2(4) that l(3) thread_locked_locks(2) [OF wl] by (simp add: tick_frame_def)
  ultimately show ?thesis
    using s2(3,5,6) l(2) by (auto simp: wake_frame_def split: if_splits)
qed

text \<open>
  The kernel's timer functions satisfy the contract of the tick handler. The invariant: run queues
  and locks other than timer locks in order, and every sleeping thread can be woken.
\<close>

definition tick_inv :: "ksys \<Rightarrow> bool" where
  "tick_inv s \<longleftrightarrow> core_ok s \<and> other_locks_free s \<and> (\<forall>t. wait_lock_ok s t)
     \<and> (\<forall>t. th_state (thread_of s t) = THREAD_SLEEPING \<longrightarrow> sleeper_ok s t)
     \<and> (\<forall>n. tm_flags (ks_timers s (UserTimer n)) AND TIMER_THREAD \<noteq> 0)"

lemma tick_inv_thread:
  assumes inv: "tick_inv s" and s': "core_ok s'" "\<forall>r. sl_value (ks_locks s' r) = sl_value (ks_locks s r)"
      "\<forall>u. u \<noteq> t \<longrightarrow> thread_of s' u = thread_of s u" "ks_curr_cpu s' = ks_curr_cpu s"
      "\<forall>c. idle_of s' c = idle_of s c \<and> cpu_thread (cpu_of s' c) = cpu_thread (cpu_of s c)"
      "ks_timers s' = ks_timers s"
    and t: "thread_of s' t = thread_of s t \<or>
      th_state (thread_of s' t) = THREAD_READY \<and> th_wait_lock (thread_of s' t) = None"
  shows "tick_inv s'"
proof -
  have "wait_lock_ok s' u" for u
    using inv s'(3) t by (cases "u = t") (auto simp: wait_lock_ok_def tick_inv_def)
  moreover have "sleeper_ok s' u" if "th_state (thread_of s' u) = THREAD_SLEEPING" for u
  proof -
    have "thread_of s' u = thread_of s u" using s'(3) t that by (cases "u = t") auto
    then show ?thesis
      using inv that s'(4,5) unfolding tick_inv_def sleeper_ok_def wait_lock_ok_def by auto
  qed
  ultimately show ?thesis
    using inv s' by (simp add: tick_inv_def other_locks_free_def)
qed

interpretation kt: timer_handler kernel_timer_func tick_inv
proof
  fix s t
  assume inv: "tick_inv s" and nl: "\<not> timer_linked s t"
    and fl: "tm_flags (ks_timers s t) AND TIMER_THREAD = 0"
  show "\<exists>p s'. kernel_timer_func t s = Some (p, s') \<and> tick_inv s' \<and> tick_frame s s'"
  proof (cases t)
    case (SleepTimer u)
    have "wait_lock_ok s u" "core_ok s" "other_locks_free s"
      "th_state (thread_of s u) = THREAD_SLEEPING \<Longrightarrow> sleeper_ok s u" "\<not> timer_linked s (SleepTimer u)"
      using inv nl SleepTimer by (simp_all add: tick_inv_def)
    from thread_timeout_core [OF this(2,1,3,4)] this(5)
    have "\<exists>s'. thread_timeout u s = Some (False, s') \<and> core_ok s'
        \<and> (\<forall>r. sl_value (ks_locks s' r) = sl_value (ks_locks s r)) \<and> (\<forall>v. v \<noteq> u \<longrightarrow> thread_of s' v = thread_of s v)
        \<and> ks_curr_cpu s' = ks_curr_cpu s
        \<and> (\<forall>c. idle_of s' c = idle_of s c \<and> cpu_thread (cpu_of s' c) = cpu_thread (cpu_of s c))
        \<and> tick_frame s s' \<and> (thread_of s' u = thread_of s u \<or>
          th_state (thread_of s' u) = THREAD_READY \<and> th_wait_lock (thread_of s' u) = None)"
      by (metis (full_types))
    then obtain s' where s': "thread_timeout u s = Some (False, s')" "core_ok s'"
        "\<forall>r. sl_value (ks_locks s' r) = sl_value (ks_locks s r)" "\<forall>v. v \<noteq> u \<longrightarrow> thread_of s' v = thread_of s v"
        "ks_curr_cpu s' = ks_curr_cpu s"
        "\<forall>c. idle_of s' c = idle_of s c \<and> cpu_thread (cpu_of s' c) = cpu_thread (cpu_of s c)"
        "tick_frame s s'" "thread_of s' u = thread_of s u \<or>
          th_state (thread_of s' u) = THREAD_READY \<and> th_wait_lock (thread_of s' u) = None"
      by blast
    then have "tick_inv s'" using tick_inv_thread [OF inv s'(2-6) _ s'(8)] by (simp add: tick_frame_def)
    with s' SleepTimer show ?thesis by (intro exI [of _ False] exI [of _ s']) simp
  next
    case (SchedTimer c)
    let ?c = "curr_thread s"
    let ?s = "s\<lparr>ks_threads := (ks_threads s)(?c := (thread_of s ?c)\<lparr>th_timeslice := 0\<rparr>)\<rparr>"
    have "core_ok ?s" by (rule core_ok_upd) (use inv in \<open>simp_all add: tick_inv_def prio_ok_def\<close>)
    then have "tick_inv ?s"
      using inv by (auto simp: tick_inv_def other_locks_free_def wait_lock_ok_def sleeper_ok_def)
    with SchedTimer show ?thesis
      by (intro exI [of _ True] exI [of _ ?s]) (simp add: sched_timer_handler_def upd_defs tick_frame_def)
  next
    case (UserTimer n)
    then show ?thesis using fl inv by (simp add: tick_inv_def)
  qed
next
  fix s s' d
  assume inv: "tick_inv s" and fr: "timer_frame s s'"
  have "core_ok (s'\<lparr>ks_dpcs := d\<rparr>)"
    using inv timer_frame_sched [OF fr] fr
    by (simp add: tick_inv_def core_ok_def sched_inv_def runq_ok_def idle_ok_def threads_prio_ok_def
        sched_order_def timer_frame_def)
  then show "tick_inv (s'\<lparr>ks_dpcs := d\<rparr>)"
    using inv fr by (simp add: tick_inv_def other_locks_free_def wait_lock_ok_def sleeper_ok_def timer_frame_def)
qed

lemma or_and_other: "a AND b = 0 \<Longrightarrow> (x OR a) AND b = x AND b" for a b x :: u32
  by (simp add: bit.conj_disj_distrib2)

lemma ks_lock_threads: "ks_lock r s = Some s' \<Longrightarrow> ks_threads s' = ks_threads s"
  by (auto simp: ks_lock_eq split: if_splits)

lemma ks_unlock_threads: "ks_unlock r s = Some s' \<Longrightarrow> ks_threads s' = ks_threads s"
  by (auto simp: ks_unlock_eq split: if_splits)

lemma acquire_wait_lock_threads:
  assumes "acquire_wait_lock t s = Some (l, s')"
  shows "ks_threads s' = ks_threads s"
proof -
  have "ks_threads (snd y) = ks_threads s" if "acquire_wait_lock t s = Some y" for y
    by (rule acquire_wait_lock.raw_induct [OF _ that, of "\<lambda>t s y. ks_threads (snd y) = ks_threads s"])
      (auto split: option.splits if_splits dest!: ks_lock_threads ks_unlock_threads)
  from this [OF assms] show ?thesis by simp
qed

text \<open>Marking a thread interrupted under its two locks wakes it if its sleep can be interrupted.\<close>

lemma interrupt_internal_ok:
  assumes core: "core_ok s" and free: "other_locks_free s" and cpu: "th_cpu (thread_of s t) \<noteq> None"
    and sl: "th_state (thread_of s t) = THREAD_SLEEPING \<Longrightarrow> sleeper_ok s t"
    and x: "th_state x = th_state (thread_of s t)" "th_cpu x = th_cpu (thread_of s t)"
      "prio_ok x = prio_ok (thread_of s t)" "th_curr_prio x = th_curr_prio (thread_of s t)"
      "th_wait_lock x = th_wait_lock (thread_of s t)"
    and tmr: "timers_inv s \<and> timer_armed s \<and> (\<forall>c. sl_value (ks_locks s (TimerLock c)) = 1)"
    and u: "u = (thread_locked t s)\<lparr>ks_threads := (ks_threads s)(t := x)\<rparr>"
  shows "\<exists>s2. thread_interrupt_internal t u = Some s2 \<and> core_ok s2 \<and> wake_frame t (thread_locked t s) s2
    \<and> (if th_state x = THREAD_SLEEPING \<and> th_flags x AND THREAD_INTERRUPTIBLE \<noteq> 0
       then th_state (thread_of s2 t) = THREAD_READY \<and> th_sleep_status (thread_of s2 t) = STATUS_INTERRUPTED
         \<and> th_flags (thread_of s2 t) = (th_flags x OR THREAD_INTERRUPTED) AND NOT THREAD_INTERRUPTIBLE
         \<and> ks_waitq s2 = (\<lambda>q. removeAll t (ks_waitq s q))
       else thread_of s2 t = x\<lparr>th_flags := th_flags x OR THREAD_INTERRUPTED\<rparr> \<and> ks_waitq s2 = ks_waitq s)"
proof -
  let ?y = "x\<lparr>th_flags := th_flags x OR THREAD_INTERRUPTED\<rparr>"
  let ?v = "(thread_locked t s)\<lparr>ks_threads := (ks_threads s)(t := ?y)\<rparr>"
  have fl: "(th_flags x OR THREAD_INTERRUPTED) AND THREAD_INTERRUPTIBLE = th_flags x AND THREAD_INTERRUPTIBLE"
    by (simp add: or_and_other flag_defs)
  have up: "upd_thread t (\<lambda>x. x\<lparr>th_flags := th_flags x OR THREAD_INTERRUPTED\<rparr>) u = ?v" by (simp add: u upd_defs)
  show ?thesis
  proof (cases "th_state x = THREAD_SLEEPING \<and> th_flags x AND THREAD_INTERRUPTIBLE \<noteq> 0")
    case True
    let ?z = "?y\<lparr>th_sleep_status := STATUS_INTERRUPTED\<rparr>"
    have "thread_interrupt_internal t u
        = thread_wake_unsafe t ((thread_locked t s)\<lparr>ks_threads := (ks_threads s)(t := ?z)\<rparr>)"
      using True fl unfolding thread_interrupt_internal_def up by (simp add: upd_defs)
    moreover have "prio_ok ?z = prio_ok (thread_of s t)" using x(3) by (simp add: prio_ok_def)
    ultimately show ?thesis
      using wake_with_status [OF core free sl _ _ _ _ _ tmr refl, of ?z] x True by auto
  next
    case False
    have y: "prio_ok ?y = prio_ok (thread_of s t)" using x(3) by (simp add: prio_ok_def)
    have "core_ok ((thread_locked t s)\<lparr>ks_threads := (ks_threads (thread_locked t s))(t := ?y)\<rparr>)"
      by (rule core_ok_upd [OF thread_locked_core [OF core]]) (use x y in simp_all)
    then have cv: "core_ok ?v" by simp
    have ci: "core_ok (?v\<lparr>ks_ipis := i\<rparr>)" for i by (rule core_ok_cong [OF cv]) simp_all
    show ?thesis
      using False fl cpu x cv ci unfolding thread_interrupt_internal_def up Let_def
      by (auto simp: wake_frame_def)
  qed
qed

lemma thread_kill_ok:
  assumes inv: "tick_inv s" and tmr: "timers_inv s" "timer_armed s" "\<And>c. sl_value (ks_locks s (TimerLock c)) = 1"
    and cpu: "th_cpu (thread_of s t) \<noteq> None" and user: "\<not> th_owner_kernel (thread_of s t)"
  shows "\<exists>s'. thread_kill t s = Some s' \<and> core_ok s' \<and> ks_irq s' = ks_irq s
    \<and> (\<forall>r. sl_value (ks_locks s' r) = sl_value (ks_locks s r))
    \<and> (\<forall>u. u \<noteq> t \<longrightarrow> thread_of s' u = thread_of s u)
    \<and> (if th_state (thread_of s t) = THREAD_SLEEPING \<and> th_flags (thread_of s t) AND THREAD_INTERRUPTIBLE \<noteq> 0
       then th_state (thread_of s' t) = THREAD_READY \<and> th_sleep_status (thread_of s' t) = STATUS_INTERRUPTED
         \<and> ks_waitq s' = (\<lambda>q. removeAll t (ks_waitq s q))
       else thread_of s' t = (thread_of s t)\<lparr>th_flags :=
           (th_flags (thread_of s t) OR THREAD_KILLED) OR THREAD_INTERRUPTED\<rparr> \<and> ks_waitq s' = ks_waitq s)"
proof -
  let ?x = "(thread_of s t)\<lparr>th_flags := th_flags (thread_of s t) OR THREAD_KILLED\<rparr>"
  let ?l = "thread_locked t s"
  let ?int = "th_state (thread_of s t) = THREAD_SLEEPING \<and> th_flags (thread_of s t) AND THREAD_INTERRUPTIBLE \<noteq> 0"
  have pre: "core_ok s" "other_locks_free s" "wait_lock_ok s t"
      "th_state (thread_of s t) = THREAD_SLEEPING \<Longrightarrow> sleeper_ok s t"
    using inv by (simp_all add: tick_inv_def)
  define f where "f s = thread_interrupt_internal t
       (upd_thread t (\<lambda>x. x\<lparr>th_flags := th_flags x OR THREAD_KILLED\<rparr>) s)" for s
  have fl: "th_flags ?x AND THREAD_INTERRUPTIBLE = th_flags (thread_of s t) AND THREAD_INTERRUPTIBLE"
    by (simp add: or_and_other flag_defs)
  have fe: "f ?l = thread_interrupt_internal t (?l\<lparr>ks_threads := (ks_threads s)(t := ?x)\<rparr>)"
    by (simp add: f_def upd_defs)
  have px: "prio_ok ?x = prio_ok (thread_of s t)" by (simp add: prio_ok_def)
  obtain s2 where s2: "f ?l = Some s2" "core_ok s2" "wake_frame t ?l s2"
      "if ?int then th_state (thread_of s2 t) = THREAD_READY \<and> th_sleep_status (thread_of s2 t) = STATUS_INTERRUPTED
         \<and> ks_waitq s2 = (\<lambda>q. removeAll t (ks_waitq s q))
       else thread_of s2 t = ?x\<lparr>th_flags := th_flags ?x OR THREAD_INTERRUPTED\<rparr> \<and> ks_waitq s2 = ks_waitq s"
    using interrupt_internal_ok [OF pre(1,2) cpu pre(4), of ?x] px tmr fl fe by (auto split: if_splits)
  obtain l where l: "with_thread_locks t f s = Some (s2\<lparr>ks_irq := ks_irq s, ks_locks := l\<rparr>)"
      "\<forall>r. sl_value (l r) = sl_value (ks_locks s r)"
    using with_thread_locks_ok [where f = f, OF pre(3,2) s2(1,3)] by blast
  have "thread_kill t s = Some (s2\<lparr>ks_irq := ks_irq s, ks_locks := l\<rparr>)"
    using l(1) user by (simp add: thread_kill_eq f_def [abs_def])
  moreover have "core_ok (s2\<lparr>ks_irq := ks_irq s, ks_locks := l\<rparr>)" by (rule core_ok_cong [OF s2(2)]) simp_all
  ultimately show ?thesis
    using s2(3,4) l(2) by (auto simp: wake_frame_def split: if_splits)
qed

section \<open>Properties\<close>


text \<open>
  Further property. When the sleep timer of a sleeping thread fires, the thread is woken with
  \<open>STATUS_TIMED_OUT\<close> and taken off its wait list; a thread that was woken meanwhile is left alone. The
  handler returns, does not ask for preemption and leaves every lock and interrupt state as it was.\<close>

theorem thread_timeout_correct:
  assumes "tick_inv s" and "\<not> timer_linked s (SleepTimer t)"
  shows "\<exists>s'. thread_timeout t s = Some (False, s') \<and> tick_inv s' \<and> tick_frame s s'
    \<and> (\<forall>u. u \<noteq> t \<longrightarrow> thread_of s' u = thread_of s u)
    \<and> (if th_state (thread_of s t) = THREAD_SLEEPING
       then th_state (thread_of s' t) = THREAD_READY \<and> th_sleep_status (thread_of s' t) = STATUS_TIMED_OUT
         \<and> ks_waitq s' = (\<lambda>q. removeAll t (ks_waitq s q))
       else thread_of s' t = thread_of s t \<and> ks_waitq s' = ks_waitq s)"
proof -
  have pre: "core_ok s" "wait_lock_ok s t" "other_locks_free s"
      "th_state (thread_of s t) = THREAD_SLEEPING \<Longrightarrow> sleeper_ok s t"
    using assms(1) by (simp_all add: tick_inv_def)
  obtain s' where s': "thread_timeout t s = Some (False, s')" "core_ok s'"
      "\<forall>r. sl_value (ks_locks s' r) = sl_value (ks_locks s r)" "\<forall>v. v \<noteq> t \<longrightarrow> thread_of s' v = thread_of s v"
      "ks_curr_cpu s' = ks_curr_cpu s"
      "\<forall>c. idle_of s' c = idle_of s c \<and> cpu_thread (cpu_of s' c) = cpu_thread (cpu_of s c)" "tick_frame s s'"
      "if th_state (thread_of s t) = THREAD_SLEEPING
       then th_state (thread_of s' t) = THREAD_READY \<and> th_wait_lock (thread_of s' t) = None
         \<and> th_sleep_status (thread_of s' t) = STATUS_TIMED_OUT
         \<and> ks_waitq s' = (\<lambda>q. removeAll t (ks_waitq s q))
       else thread_of s' t = thread_of s t \<and> ks_waitq s' = ks_waitq s"
    using thread_timeout_core [OF pre] assms(2) by blast
  have "thread_of s' t = thread_of s t \<or>
      th_state (thread_of s' t) = THREAD_READY \<and> th_wait_lock (thread_of s' t) = None"
    using s'(8) by argo
  with tick_inv_thread [OF assms(1) s'(2-6)] s'(7) have "tick_inv s'" by (simp add: tick_frame_def)
  with s' show ?thesis by (intro exI [of _ s']) argo
qed


text \<open>
  Property C22. Killing a thread of a user process that has been given a CPU returns with the locks
  and interrupt state as before: if it sleeps interruptibly it is woken with \<open>STATUS_INTERRUPTED\<close>,
  else it is marked killed and interrupted and nothing else about it changes.\<close>

theorem thread_kill_correct:
  assumes "tick_inv s" and "timers_inv s" and "timer_armed s" and "locks_free s"
    and "th_cpu (thread_of s t) \<noteq> None" and "\<not> th_owner_kernel (thread_of s t)"
  shows "\<exists>s'. thread_kill t s = Some s' \<and> core_ok s' \<and> locks_free s' \<and> ks_irq s' = ks_irq s
    \<and> (if th_state (thread_of s t) = THREAD_SLEEPING \<and> th_flags (thread_of s t) AND THREAD_INTERRUPTIBLE \<noteq> 0
       then th_state (thread_of s' t) = THREAD_READY \<and> th_sleep_status (thread_of s' t) = STATUS_INTERRUPTED
         \<and> ks_waitq s' = (\<lambda>q. removeAll t (ks_waitq s q))
       else thread_of s' t = (thread_of s t)\<lparr>th_flags :=
           (th_flags (thread_of s t) OR THREAD_KILLED) OR THREAD_INTERRUPTED\<rparr> \<and> ks_waitq s' = ks_waitq s)"
proof -
  have "sl_value (ks_locks s (TimerLock c)) = 1" for c using assms(4) by (simp add: locks_free_def)
  from thread_kill_ok [OF assms(1-3) this assms(5,6)] show ?thesis
    by (rule ex_forward) (use assms(4) in \<open>simp add: locks_free_def\<close>)
qed

text \<open>
  Property C23. Killing a thread that was created and never run dereferences its null CPU pointer: the
  wake-up path of \<open>thread_interrupt_internal\<close> looks at \<open>thread->cpu\<close> of every thread that is not
  sleeping interruptibly.\<close>

theorem thread_kill_unstarted_halts:
  "th_cpu (thread_of s t) = None \<Longrightarrow> th_state (thread_of s t) = THREAD_CREATED \<Longrightarrow>
   \<not> th_owner_kernel (thread_of s t) \<Longrightarrow> thread_kill t s = None"
proof -
  assume a: "th_cpu (thread_of s t) = None" "th_state (thread_of s t) = THREAD_CREATED"
    "\<not> th_owner_kernel (thread_of s t)"
  show ?thesis
  proof (rule ccontr)
    assume "thread_kill t s \<noteq> None"
    then obtain l s1 s2 where s12: "acquire_wait_lock t s = Some (l, s1)" "ks_lock (ThreadLock t) s1 = Some s2"
        "thread_interrupt_internal t (upd_thread t (\<lambda>x. x\<lparr>th_flags := th_flags x OR THREAD_KILLED\<rparr>) s2) \<noteq> None"
      using a(3) by (auto simp: thread_kill_def Let_def)
    then have "ks_threads s2 = ks_threads s" using ks_lock_threads [OF s12(2)] acquire_wait_lock_threads [OF s12(1)] by simp
    with s12(3) a show False by (simp add: thread_interrupt_internal_def upd_defs)
  qed
qed

text \<open>
  Further property. The queue of pending interrupts is kept in order of falling priority, and an interrupt
  goes behind every queued one of the same or a higher priority.\<close>

theorem interrupt_insert_correct:
  "sorted_wrt (\<lambda>a b. fst b \<le> fst a) es \<Longrightarrow>
   interrupt_insert i es = filter (\<lambda>e. fst i \<le> fst e) es @ i # filter (\<lambda>e. fst e < fst i) es
   \<and> sorted_wrt (\<lambda>a b. fst b \<le> fst a) (interrupt_insert i es)"
proof (induction es)
  case (Cons e es)
  show ?case
  proof (cases "fst e < fst i")
    case True
    with Cons.prems have "filter (\<lambda>e. fst i \<le> fst e) (e # es) = []" "filter (\<lambda>e. fst e < fst i) (e # es) = e # es"
      by (force simp: filter_empty_conv filter_id_conv)+
    with True Cons.prems show ?thesis by auto
  next
    case False
    with Cons show ?thesis by (auto simp: not_less)
  qed
qed simp

section \<open>A concrete system\<close>

text \<open>
  CPU 0 runs thread 1, thread 3 sleeps interruptibly on wait list 0, thread 5 has been created; all
  belong to a user process.
\<close>

definition demo_thread :: "nat \<Rightarrow> thread" where
  "demo_thread t =
     (let x = (thread_create_fields 0 3 False)\<lparr>th_max_prio := 17, th_curr_prio := 17, th_cpu := Some 0\<rparr>
      in if t = 1 then x\<lparr>th_state := THREAD_RUNNING\<rparr>
         else if t = 3 then x\<lparr>th_state := THREAD_SLEEPING, th_wait_lock := Some (WaitLock 0),
           th_flags := THREAD_INTERRUPTIBLE\<rparr>
         else if t = 5 then thread_create_fields 0 3 False
         else boot_thread t)"

definition demo_sys :: ksys where
  "demo_sys = boot_sys\<lparr>ks_threads := demo_thread,
     ks_cpus := boot_cpu(0 := (boot_cpu 0)\<lparr>cpu_thread := 1, cpu_idle := False\<rparr>),
     ks_timers := (\<lambda>x. case x of UserTimer n \<Rightarrow> timer_init TIMER_THREAD | _ \<Rightarrow> timer_init 0),
     ks_waitq := (\<lambda>q. if q = 0 then [3] else [])\<rparr>"

lemma even_odd_numbers: "2 * c \<noteq> Suc 0" "2 * c \<noteq> 3" "3 \<noteq> 2 * c" "2 * c \<noteq> 5" for c :: nat
  by presburger+

lemma boot_cpu_timers [simp]: "cpu_timers (boot_cpu c) = []" "cpu_timer_enabled (boot_cpu c)"
  by (simp_all add: boot_cpu_def)

lemma demo_sys_simps [simp]:
  "ks_threads demo_sys = demo_thread" "curr_thread demo_sys = 1" "ks_curr_cpu demo_sys = 0"
  "idle_of demo_sys c = 2 * c" "ks_irq demo_sys" "ks_now demo_sys = 0"
  "sl_value (ks_locks demo_sys r) = 1" "cpu_timers (cpu_of demo_sys c) = []"
  "ks_waitq demo_sys q = (if q = 0 then [3] else [])" "cpu_timer_enabled (cpu_of demo_sys c)"
  "sched_order demo_sys c = []" "ks_cpus demo_sys c = (if c = 0 then (boot_cpu 0)\<lparr>cpu_thread := 1, cpu_idle := False\<rparr> else boot_cpu c)"
  by (simp_all add: demo_sys_def sched_order_def boot_cpu_def)

lemma demo_thread_simps [simp]:
  "th_state (demo_thread (Suc 0)) = THREAD_RUNNING" "th_state (demo_thread 3) = THREAD_SLEEPING"
  "th_wait_lock (demo_thread 3) = Some (WaitLock 0)" "th_cpu (demo_thread 3) = Some 0"
  "th_flags (demo_thread 3) = THREAD_INTERRUPTIBLE" "th_flags (demo_thread (Suc 0)) = 0"
  "\<not> th_owner_kernel (demo_thread 3)" "th_cpu (demo_thread 5) = None"
  "th_state (demo_thread 5) = THREAD_CREATED" "\<not> th_owner_kernel (demo_thread 5)"
  by (simp_all add: demo_thread_def thread_create_fields_def)

lemma demo_timer_flags: "tm_flags (ks_timers demo_sys (UserTimer n)) AND TIMER_THREAD \<noteq> 0"
  by (simp add: demo_sys_def timer_init_def TIMER_THREAD_def)

lemma demo_not_linked [simp]: "\<not> timer_linked demo_sys x"
  by (simp add: timer_linked_def split: option.splits)

lemma demo_timers [simp]: "timers_inv demo_sys" "timer_armed demo_sys"
  by (simp_all add: timers_inv_def timers_ok_def timer_armed_iff)

lemma demo_locks_free [simp]: "locks_free demo_sys"
  by (simp add: locks_free_def)

lemma demo_prio:
  assumes "th_state (demo_thread t) = THREAD_READY \<or> th_state (demo_thread t) = THREAD_RUNNING
    \<or> th_state (demo_thread t) = THREAD_SLEEPING"
  shows "(\<exists>c. t = 2 * c) \<or> prio_ok (demo_thread t)"
proof (cases "even t")
  case False
  then have "t = 1 \<or> t = 3"
    using assms by (auto simp: demo_thread_def boot_thread_def thread_create_fields_def Let_def split: if_splits)
  then show ?thesis
    by (auto simp: demo_thread_def prio_ok_def MAX_PENALTY_def)
qed (auto elim: evenE)

lemma demo_core [simp]: "core_ok demo_sys"
proof -
  have "sched_inv demo_sys"
    by (simp add: sched_inv_def runq_ok_def demo_sys_simps(11)) (simp add: boot_cpu_def queue_init_ok)
  moreover have "idle_ok demo_sys c" for c
    by (simp add: idle_ok_def demo_thread_def boot_thread_def even_odd_numbers)
  moreover have "threads_prio_ok demo_sys"
    using demo_prio unfolding threads_prio_ok_def demo_sys_simps(1,4) by blast
  ultimately show ?thesis by (simp add: core_ok_def demo_thread_def)
qed

lemma demo_sys_ok [simp]: "sys_ok demo_sys"
  by (simp add: sys_ok_core)

lemma demo_sleeper [simp]: "sleeper_ok demo_sys 3"
  by (simp add: sleeper_ok_def wait_lock_ok_def even_odd_numbers)

lemma demo_tick_inv [simp]: "tick_inv demo_sys"
proof -
  have "wait_lock_ok demo_sys t" for t
    by (auto simp: wait_lock_ok_def demo_thread_def boot_thread_def thread_create_fields_def Let_def split: if_splits)
  moreover have "th_state (demo_thread t) = THREAD_SLEEPING \<Longrightarrow> t = 3" for t
    by (auto simp: demo_thread_def boot_thread_def thread_create_fields_def Let_def split: if_splits)
  moreover have "sleeper_ok demo_sys t" if "th_state (demo_thread t) = THREAD_SLEEPING" for t
    using calculation(2) [OF that] demo_sleeper by blast
  ultimately show ?thesis
    by (auto simp: tick_inv_def other_locks_free_def demo_timer_flags)
qed

theorem thread_wake_correct_witness:
  "\<exists>s' c. thread_wake 3 (demo_sys\<lparr>ks_locks := (ks_locks demo_sys)(WaitLock 0 := \<lparr>sl_value = 0, sl_state = True\<rparr>)\<rparr>) = Some s'
     \<and> ks_waitq s' 0 = [] \<and> 3 \<in> set (sched_order s' c)"
proof -
  let ?s = "demo_sys\<lparr>ks_locks := (ks_locks demo_sys)(WaitLock 0 := \<lparr>sl_value = 0, sl_state = True\<rparr>)\<rparr>"
  have "sleeper_ok ?s 3" using demo_sleeper by (simp add: sleeper_ok_def wait_lock_ok_def)
  moreover have "locks_free (?s\<lparr>ks_locks := (ks_locks ?s)(WaitLock 0 := spinlock_init)\<rparr>)"
    by (simp add: locks_free_def spinlock_init_def)
  ultimately obtain s' c where "thread_wake 3 ?s = Some s'" "ks_waitq s' = (\<lambda>q. removeAll 3 (ks_waitq ?s q))"
      "3 \<in> set (sched_order s' c)"
    using thread_wake_correct [of ?s 0 3] by auto
  then show ?thesis by auto
qed


theorem thread_timeout_correct_witness:
  "\<exists>s'. thread_timeout 3 demo_sys = Some (False, s') \<and> th_sleep_status (thread_of s' 3) = STATUS_TIMED_OUT"
  using thread_timeout_correct [of demo_sys 3] by auto


theorem thread_kill_correct_witness:
  "\<exists>s'. thread_kill 3 demo_sys = Some s' \<and> th_state (thread_of s' 3) = THREAD_READY"
  using thread_kill_correct [of demo_sys 3] by (auto simp: THREAD_INTERRUPTIBLE_def)

theorem thread_kill_unstarted_halts_witness: "thread_kill 5 demo_sys = None"
  using thread_kill_unstarted_halts [of demo_sys 5] by simp

theorem interrupt_insert_correct_witness:
  "interrupt_insert (2, 7) [(3, 1), (2, 2), (1, 3)] = [(3, 1), (2, 2), (2, 7), (1, 3)]"
  using interrupt_insert_correct [of "[(3, 1), (2, 2), (1, 3)]" "(2, 7)"] by simp

end
