(* ===== verification/Wait_Queue.thy ===== *)
theory Wait_Queue
  imports Thread_Sleep
begin

text \<open>
  What the synchronisation primitives share: a list of threads that sleep on an object, protected by
  the object's spinlock. The object \<open>q\<close> has the lock \<open>WaitLock q\<close> and the list \<open>ks_waitq s q\<close>.
  \<open>wait_first_woken\<close> and \<open>wait_blocked\<close> state once what waking a waiter and blocking on the list do;
  the theories of the primitives build on them.
\<close>

section \<open>Invariant\<close>

definition waitq_ok :: "ksys \<Rightarrow> nat \<Rightarrow> bool" where
  "waitq_ok s q \<longleftrightarrow> distinct (ks_waitq s q)
     \<and> (\<forall>t\<in>set (ks_waitq s q). sleeper_ok s t \<and> th_wait_lock (thread_of s t) = Some (WaitLock q))"

definition sync_inv :: "ksys \<Rightarrow> bool" where
  "sync_inv s \<longleftrightarrow> sys_ok s \<and> (\<forall>q. waitq_ok s q)"

text \<open>Exactly the locks of the given objects are held, with interrupts off.\<close>

definition holds :: "nat set \<Rightarrow> ksys \<Rightarrow> bool" where
  "holds Q s \<longleftrightarrow> \<not> ks_irq s \<and> (\<forall>r. sl_value (ks_locks s r) = (if r \<in> WaitLock ` Q then 0 else 1))"

text \<open>A thread that may block: it runs, is not an idle thread and its sleep timer is not running.\<close>

definition caller_ok :: "ksys \<Rightarrow> bool" where
  "caller_ok s \<longleftrightarrow> th_state (thread_of s (curr_thread s)) = THREAD_RUNNING
     \<and> (\<forall>c. curr_thread s \<noteq> idle_of s c) \<and> \<not> timer_linked s (SleepTimer (curr_thread s))"

lemma sync_invD:
  "sync_inv s \<Longrightarrow> sys_ok s" "sync_inv s \<Longrightarrow> distinct (ks_waitq s q)"
  "sync_inv s \<Longrightarrow> t \<in> set (ks_waitq s q) \<Longrightarrow> sleeper_ok s t"
  "sync_inv s \<Longrightarrow> t \<in> set (ks_waitq s q) \<Longrightarrow> th_wait_lock (thread_of s t) = Some (WaitLock q)"
  by (auto simp: sync_inv_def waitq_ok_def)

lemma curr_not_waiting: "sync_inv s \<Longrightarrow> curr_thread s \<notin> set (ks_waitq s q)"
  using sync_invD(3) by (auto simp: sleeper_ok_def)

lemma waiter_one_queue: "sync_inv s \<Longrightarrow> t \<in> set (ks_waitq s p) \<Longrightarrow> t \<in> set (ks_waitq s q) \<Longrightarrow> p = q"
  using sync_invD(4) [of s t p] sync_invD(4) [of s t q] by simp

lemma sync_inv_locks [simp]: "sync_inv (s\<lparr>ks_irq := i, ks_locks := l\<rparr>) = sync_inv s"
  by (simp add: sync_inv_def waitq_ok_def sleeper_ok_def wait_lock_ok_def)

lemma caller_ok_locks [simp]: "caller_ok (s\<lparr>ks_irq := i, ks_locks := l\<rparr>) = caller_ok s"
  using timer_linked_cong [of "s\<lparr>ks_irq := i, ks_locks := l\<rparr>" "SleepTimer (curr_thread s)" s]
  by (simp add: caller_ok_def)

section \<open>Locking an object\<close>

abbreviation object_locked :: "nat \<Rightarrow> ksys \<Rightarrow> ksys" where
  "object_locked q s \<equiv> lock_taken (WaitLock q) s"

lemma object_lock: "locks_free s \<Longrightarrow> ks_lock (WaitLock q) s = Some (object_locked q s)"
  by (rule ks_lock_taken) (simp add: locks_free_def)

lemma object_locked_inv [simp]:
  "sync_inv (object_locked q s) = sync_inv s" "caller_ok (object_locked q s) = caller_ok s"
  by (simp_all add: lock_taken_def)

lemma object_locked_cancelled [simp]:
  "sleep_cancelled flags timeout (object_locked q s) = sleep_cancelled flags timeout s"
  by (simp add: sleep_cancelled_def)

lemma object_locked_state [simp]: "sl_state (ks_locks (object_locked q s) (WaitLock q)) = ks_irq s"
  by (simp add: lock_taken_def)

lemma object_locked_holds: "locks_free s \<Longrightarrow> holds {q} (object_locked q s)"
  by (simp add: holds_def lock_taken_def locks_free_def)

text \<open>Releasing the last lock that is held restores the interrupt state saved in it.\<close>

lemma object_unlock:
  assumes "holds {q} s"
  shows "\<exists>l. ks_unlock (WaitLock q) s = Some (s\<lparr>ks_irq := sl_state (ks_locks s (WaitLock q)), ks_locks := l\<rparr>)
    \<and> (\<forall>r. sl_value (l r) = 1)"
  using assms by (simp add: holds_def ks_unlock_eq) auto

lemma locks_free_locks [simp]: "locks_free (s\<lparr>ks_irq := i, ks_locks := l\<rparr>) \<longleftrightarrow> (\<forall>r. sl_value (l r) = 1)"
  by (simp add: locks_free_def)

text \<open>Locks of objects may nest: the condition variables unlock a mutex under their own lock.\<close>

definition objects_held :: "nat set \<Rightarrow> ksys \<Rightarrow> bool" where
  "objects_held Q s \<longleftrightarrow> (\<forall>r. sl_value (ks_locks s r) = (if r \<in> WaitLock ` Q then 0 else 1))"

lemma holds_objects: "holds Q s \<longleftrightarrow> \<not> ks_irq s \<and> objects_held Q s"
  by (simp add: holds_def objects_held_def)

lemma objects_held_empty: "objects_held {} s \<longleftrightarrow> locks_free s"
  by (simp add: objects_held_def locks_free_def)

lemma object_lock_nested:
  assumes "objects_held Q s" and "q \<notin> Q"
  shows "ks_lock (WaitLock q) s = Some (object_locked q s)" and "holds (insert q Q) (object_locked q s)"
proof -
  show "ks_lock (WaitLock q) s = Some (object_locked q s)"
    by (rule ks_lock_taken) (use assms in \<open>auto simp: objects_held_def\<close>)
  show "holds (insert q Q) (object_locked q s)"
    using assms by (auto simp: holds_def objects_held_def lock_taken_def)
qed

section \<open>Waking a waiter\<close>

definition sync_frame :: "ksys \<Rightarrow> ksys \<Rightarrow> bool" where
  "sync_frame s s' \<longleftrightarrow> ks_irq s' = ks_irq s \<and> ks_curr_cpu s' = ks_curr_cpu s \<and> curr_thread s' = curr_thread s
     \<and> (\<forall>q. ks_locks s' (WaitLock q) = ks_locks s (WaitLock q))
     \<and> (\<forall>r. sl_value (ks_locks s' r) = sl_value (ks_locks s r)) \<and> (\<forall>c. idle_of s' c = idle_of s c)
     \<and> ks_now s' = ks_now s
     \<and> thread_of s' (curr_thread s) = thread_of s (curr_thread s)
     \<and> timer_linked s' (SleepTimer (curr_thread s)) = timer_linked s (SleepTimer (curr_thread s))"

lemma sync_frame_refl [simp]: "sync_frame s s"
  by (simp add: sync_frame_def)

lemma sync_frame_trans: "sync_frame s t \<Longrightarrow> sync_frame t u \<Longrightarrow> sync_frame s u"
  unfolding sync_frame_def by metis

lemma sync_frame_holds: "sync_frame s s' \<Longrightarrow> holds Q s' = holds Q s"
  by (simp add: sync_frame_def holds_def)

lemma sync_frame_curr: "sync_frame s s' \<Longrightarrow> curr_thread s' = curr_thread s"
  unfolding sync_frame_def by blast

lemma sync_frame_caller:
  assumes "sync_frame s s'"
  shows "caller_ok s' = caller_ok s" and "sleep_cancelled flags timeout s' = sleep_cancelled flags timeout s"
proof -
  note c = sync_frame_curr [OF assms]
  show "caller_ok s' = caller_ok s" using assms unfolding caller_ok_def c by (simp add: sync_frame_def)
  show "sleep_cancelled flags timeout s' = sleep_cancelled flags timeout s"
    using assms unfolding sleep_cancelled_def c by (simp add: sync_frame_def)
qed

lemma object_frame:
  assumes "sync_frame (object_locked q s) s'" and "locks_free s"
  shows "holds {q} s'" and "curr_thread s' = curr_thread s" and "idle_of s' c = idle_of s c"
    and "\<exists>l. ks_unlock (WaitLock q) s' = Some (s'\<lparr>ks_irq := ks_irq s, ks_locks := l\<rparr>) \<and> (\<forall>r. sl_value (l r) = 1)"
proof -
  show h: "holds {q} s'" using sync_frame_holds [OF assms(1)] object_locked_holds [OF assms(2)] by simp
  show "curr_thread s' = curr_thread s" using sync_frame_curr [OF assms(1)] by simp
  show "idle_of s' c = idle_of s c" using assms(1) by (simp add: sync_frame_def)
  have "sl_state (ks_locks s' (WaitLock q)) = ks_irq s" using assms(1) by (simp add: sync_frame_def)
  with object_unlock [OF h] show "\<exists>l. ks_unlock (WaitLock q) s'
      = Some (s'\<lparr>ks_irq := ks_irq s, ks_locks := l\<rparr>) \<and> (\<forall>r. sl_value (l r) = 1)" by simp
qed

lemma object_unlock_nested:
  assumes "sync_frame (object_locked q s) s'" and "objects_held Q s" and "q \<notin> Q"
  shows "\<exists>l. ks_unlock (WaitLock q) s' = Some (s'\<lparr>ks_irq := ks_irq s, ks_locks := l\<rparr>)
    \<and> (\<forall>r. sl_value (l r) = sl_value (ks_locks s r))
    \<and> (\<forall>p. p \<noteq> q \<longrightarrow> l (WaitLock p) = ks_locks s (WaitLock p))"
proof -
  have l: "ks_locks s' (WaitLock p) = ks_locks (object_locked q s) (WaitLock p)"
      "sl_value (ks_locks s' r) = sl_value (ks_locks (object_locked q s) r)" for p r
    using assms(1) by (simp_all add: sync_frame_def)
  moreover have "sl_value (ks_locks s (WaitLock q)) = 1" using assms(2,3) by (auto simp: objects_held_def)
  ultimately show ?thesis by (auto simp: ks_unlock_eq lock_taken_def)
qed

text \<open>A thread woken by the object: ready, queued on a CPU, off every wait list, its status kept.\<close>

definition woken_up :: "ksys \<Rightarrow> ksys \<Rightarrow> nat \<Rightarrow> bool" where
  "woken_up s s' t \<longleftrightarrow> th_state (thread_of s' t) = THREAD_READY \<and> (\<exists>c. t \<in> set (sched_order s' c))
     \<and> th_sleep_status (thread_of s' t) = th_sleep_status (thread_of s t)
     \<and> th_flags (thread_of s' t) = th_flags (thread_of s t) AND NOT THREAD_INTERRUPTIBLE
     \<and> \<not> timer_linked s' (SleepTimer t)"

lemma wait_woken:
  assumes inv: "sync_inv s" and held: "holds Q s" "q \<in> Q" and t: "t \<in> set (ks_waitq s q)"
  shows "\<exists>s'. thread_wake t s = Some s' \<and> sync_inv s' \<and> sync_frame s s' \<and> woken_up s s' t
    \<and> ks_waitq s' = (ks_waitq s)(q := removeAll t (ks_waitq s q))
    \<and> (\<forall>u. u \<noteq> t \<longrightarrow> thread_of s' u = thread_of s u)"
proof -
  note st = sync_invD(3,4) [OF inv t]
  have free: "sl_value (ks_locks s r) = 1" if "\<forall>q. r \<noteq> WaitLock q" for r
    using held(1) that by (auto simp: holds_def)
  have qh: "sl_value (ks_locks s (WaitLock q')) \<noteq> 1" if "th_wait_lock (thread_of s t) = Some (WaitLock q')" for q'
    using that st(2) held by (auto simp: holds_def)
  obtain s' c where s': "thread_wake t s = Some s'" "sys_ok s'" "\<forall>u. u \<noteq> t \<longrightarrow> thread_of s' u = thread_of s u"
      "\<forall>r. sl_value (ks_locks s' r) = sl_value (ks_locks s r)"
      "\<forall>q. ks_locks s' (WaitLock q) = ks_locks s (WaitLock q)"
      "ks_irq s' = ks_irq s" "ks_curr_cpu s' = ks_curr_cpu s" "curr_thread s' = curr_thread s"
      "th_state (thread_of s' t) = THREAD_READY" "t \<in> set (sched_order s' c)"
      "th_sleep_status (thread_of s' t) = th_sleep_status (thread_of s t)"
      "th_flags (thread_of s' t) = th_flags (thread_of s t) AND NOT THREAD_INTERRUPTIBLE"
      "\<not> timer_linked s' (SleepTimer t)" "ks_waitq s' = (\<lambda>q. removeAll t (ks_waitq s q))"
      "\<forall>c. idle_of s' c = idle_of s c" "\<forall>x. x \<noteq> SleepTimer t \<longrightarrow> timer_linked s' x = timer_linked s x"
      "ks_now s' = ks_now s"
    using thread_wake_ok [OF sync_invD(1) [OF inv] st(1) qh] free by blast
  have wq: "ks_waitq s' = (ks_waitq s)(q := removeAll t (ks_waitq s q))"
  proof
    show "ks_waitq s' p = ((ks_waitq s)(q := removeAll t (ks_waitq s q))) p" for p
      using s'(14) waiter_one_queue [OF inv t, of p] by (cases "t \<in> set (ks_waitq s p)") (auto simp: removeAll_id)
  qed
  have "waitq_ok s' q'" for q'
  proof -
    have "sleeper_ok s' u \<and> th_wait_lock (thread_of s' u) = Some (WaitLock q')" if "u \<in> set (ks_waitq s' q')" for u
    proof -
      have u: "u \<noteq> t" "u \<in> set (ks_waitq s q')" using that s'(14) by auto
      then have "thread_of s' u = thread_of s u" using s'(3) by blast
      then show ?thesis
        using sync_invD(3,4) [OF inv u(2)] s'(8,15) by (simp add: sleeper_ok_def wait_lock_ok_def)
    qed
    then show ?thesis
      using s'(14) sync_invD(2) [OF inv, of q'] by (simp add: waitq_ok_def distinct_removeAll)
  qed
  then have "sync_inv s'" using s'(2) by (simp add: sync_inv_def)
  moreover have "t \<noteq> curr_thread s" using st(1) by (simp add: sleeper_ok_def)
  ultimately show ?thesis
    using s' wq by (intro exI [of _ s']) (auto simp: sync_frame_def woken_up_def)
qed

lemma wait_first_woken:
  assumes inv: "sync_inv s" and held: "holds Q s" "q \<in> Q" and t: "ks_waitq s q = t # ts"
  shows "\<exists>s'. thread_wake t s = Some s' \<and> sync_inv s' \<and> sync_frame s s' \<and> woken_up s s' t
    \<and> ks_waitq s' = (ks_waitq s)(q := ts)
    \<and> (\<forall>u. u \<noteq> t \<longrightarrow> thread_of s' u = thread_of s u)"
  using wait_woken [OF inv held, of t] t sync_invD(2) [OF inv, of q] by (auto simp: removeAll_id)

section \<open>Blocking\<close>

lemma wait_appended [simp]:
  "ks_threads (wait_append q t s) = ks_threads s" "ks_cpus (wait_append q t s) = ks_cpus s"
  "ks_locks (wait_append q t s) = ks_locks s" "ks_irq (wait_append q t s) = ks_irq s"
  "ks_curr_cpu (wait_append q t s) = ks_curr_cpu s" "ks_now (wait_append q t s) = ks_now s"
  "ks_timers (wait_append q t s) = ks_timers s" "sys_ok (wait_append q t s) = sys_ok s"
  by (simp_all add: wait_append_def wait_remove_def Let_def)

lemma wait_append_curr:
  "sync_inv s \<Longrightarrow> ks_waitq (wait_append q (curr_thread s) s) = (ks_waitq s)(q := ks_waitq s q @ [curr_thread s])"
  using curr_not_waiting by (auto simp: wait_append_def wait_remove_def Let_def fun_eq_iff removeAll_id)

lemma wait_append_cancelled [simp]:
  "sleep_cancelled flags timeout (wait_append q t s) = sleep_cancelled flags timeout s"
  by (simp add: sleep_cancelled_def)

lemma wait_append_sched [simp]: "sched_order (wait_append q t s) c = sched_order s c"
  by (simp add: sched_order_def)

lemma wait_append_linked [simp]: "timer_linked (wait_append q t s) x = timer_linked s x"
  by (rule timer_linked_cong) simp_all

text \<open>Blocking that is cancelled at once: nothing changes but the lock.\<close>

lemma wait_cancelled:
  assumes inv: "sync_inv s" and held: "holds {q} s" and can: "sleep_cancelled flags timeout s = Some ret"
  shows "\<exists>s'. thread_sleep (Some (WaitLock q)) timeout flags (wait_append q (curr_thread s) s) = Some (Returned ret, s')
    \<and> sync_inv s' \<and> locks_free s' \<and> ks_waitq s' = ks_waitq s \<and> ks_threads s' = ks_threads s
    \<and> ks_cpus s' = ks_cpus s \<and> ks_curr_cpu s' = ks_curr_cpu s \<and> ks_timers s' = ks_timers s
    \<and> ks_irq s' = sl_state (ks_locks s (WaitLock q))"
proof -
  let ?s = "wait_append q (curr_thread s) s"
  have lk: "sleep_locks (Some (WaitLock q)) ?s"
    using held by (simp add: sleep_locks_def holds_def)
  obtain s' where s': "thread_sleep (Some (WaitLock q)) timeout flags ?s = Some (Returned ret, s')"
      "locks_free s'" "ks_irq s' = sl_state (ks_locks s (WaitLock q))"
      "ks_waitq s' = (\<lambda>p. removeAll (curr_thread s) (ks_waitq ?s p))" "ks_threads s' = ks_threads s"
      "ks_cpus s' = ks_cpus s" "ks_timers s' = ks_timers s" "ks_curr_cpu s' = ks_curr_cpu s" "sys_ok s'"
    using thread_sleep_cancel_ok [of flags timeout ?s ret "Some (WaitLock q)"] can lk sync_invD(1) [OF inv]
    by auto
  have wq: "ks_waitq s' = ks_waitq s"
    using s'(4) curr_not_waiting [OF inv] by (auto simp: wait_append_curr [OF inv] fun_eq_iff removeAll_id)
  then have "sync_inv s'"
    using inv s' by (simp add: sync_inv_def waitq_ok_def sleeper_ok_def wait_lock_ok_def)
  with s' wq show ?thesis by blast
qed

text \<open>Blocking: the caller sleeps at the end of the list, another thread runs, every lock is free.\<close>

lemma wait_blocked:
  assumes inv: "sync_inv s" and held: "holds {q} s" and caller: "caller_ok s"
    and nc: "sleep_cancelled flags timeout s = None" and t: "t = curr_thread s"
  shows "\<exists>s'. thread_sleep (Some (WaitLock q)) timeout flags (wait_append q t s) = Some (Asleep, s')
    \<and> sync_inv s' \<and> locks_free s' \<and> ks_waitq s' = (ks_waitq s)(q := ks_waitq s q @ [t])
    \<and> th_state (thread_of s' t) = THREAD_SLEEPING \<and> th_sleep_status (thread_of s' t) = STATUS_SUCCESS
    \<and> th_flags (thread_of s' t) = (if flags AND SLEEP_INTERRUPTIBLE \<noteq> 0
         then th_flags (thread_of s t) OR THREAD_INTERRUPTIBLE else th_flags (thread_of s t))
    \<and> (\<forall>u. u \<noteq> t \<longrightarrow> th_flags (thread_of s' u) = th_flags (thread_of s u))
    \<and> curr_thread s' = order_next (sched_order s (ks_curr_cpu s)) (idle_of s (ks_curr_cpu s))
    \<and> curr_thread s' \<noteq> t \<and> th_state (thread_of s' (curr_thread s')) = THREAD_RUNNING"
proof -
  let ?s = "wait_append q (curr_thread s) s"
  have lk: "sleep_locks (Some (WaitLock q)) ?s"
    using held by (simp add: sleep_locks_def holds_def)
  note sys = sync_invD(1) [OF inv]
  have cl: "th_state (thread_of s t) = THREAD_RUNNING" "\<And>c. t \<noteq> idle_of s c" "\<not> timer_linked s (SleepTimer t)"
    using caller by (simp_all add: caller_ok_def t)
  obtain s' where s': "thread_sleep (Some (WaitLock q)) timeout flags ?s = Some (Asleep, s')" "sys_ok s'"
      "locks_free s'" "th_state (thread_of s' t) = THREAD_SLEEPING"
      "th_wait_lock (thread_of s' t) = Some (WaitLock q)" "th_sleep_status (thread_of s' t) = STATUS_SUCCESS"
      "ks_waitq s' = ks_waitq ?s"
      "curr_thread s' = order_next (sched_order s (ks_curr_cpu s)) (idle_of s (ks_curr_cpu s))"
      "curr_thread s' \<noteq> t" "th_state (thread_of s' (curr_thread s')) = THREAD_RUNNING"
      "\<forall>u. u \<noteq> t \<longrightarrow> u \<noteq> curr_thread s' \<longrightarrow> thread_of s' u = thread_of s u"
      "\<forall>u. u \<noteq> t \<longrightarrow> th_flags (thread_of s' u) = th_flags (thread_of s u)"
      "th_flags (thread_of s' t) = (if flags AND SLEEP_INTERRUPTIBLE \<noteq> 0
         then th_flags (thread_of s t) OR THREAD_INTERRUPTIBLE else th_flags (thread_of s t))"
      "\<forall>u. th_cpu (thread_of s' u) = th_cpu (thread_of s u)" "\<forall>c. idle_of s' c = idle_of s c"
    using thread_sleep_ok [of ?s t flags timeout "Some (WaitLock q)" "sleep_timeout flags timeout (ks_now s)"]
      sys cl nc lk unfolding t by force
  have wq: "ks_waitq s' = (ks_waitq s)(q := ks_waitq s q @ [t])"
    using s'(7) by (simp add: t wait_append_curr [OF inv])
  have nn: "u \<noteq> curr_thread s'" if "u \<in> set (ks_waitq s p)" for u p
  proof -
    have "u \<notin> set (sched_order s c)" "u \<noteq> idle_of s c" for c
      using not_ready_not_queued [of s u c] sync_invD(3) [OF inv that] sys by (auto simp: sleeper_ok_def sys_ok_def)
    from this(1) [of "ks_curr_cpu s"] this(2) [of "ks_curr_cpu s"] show ?thesis
      unfolding s'(8) order_next_def by (auto split: list.splits)
  qed
  have tcpu: "th_cpu (thread_of s t) \<noteq> None" using sys by (simp add: sys_ok_def t)
  have "waitq_ok s' p" for p
  proof -
    have "sleeper_ok s' u \<and> th_wait_lock (thread_of s' u) = Some (WaitLock p)" if "u \<in> set (ks_waitq s' p)" for u
    proof (cases "u = t")
      case True
      then have "p = q" using that wq curr_not_waiting [OF inv] by (auto simp: t split: if_splits)
      then show ?thesis
        using True s'(4,5,9,14,15) cl(2) tcpu by (auto simp: sleeper_ok_def wait_lock_ok_def)
    next
      case False
      then have u: "u \<in> set (ks_waitq s p)" using that wq by (auto split: if_splits)
      then have "thread_of s' u = thread_of s u" using False nn s'(11) by blast
      then show ?thesis
        using sync_invD(3,4) [OF inv u] nn [OF u] s'(15) by (simp add: sleeper_ok_def wait_lock_ok_def)
    qed
    moreover have "distinct (ks_waitq s' p)"
      using sync_invD(2) [OF inv] curr_not_waiting [OF inv] by (simp add: wq t)
    ultimately show ?thesis by (simp add: waitq_ok_def)
  qed
  then have "sync_inv s'" using s'(2) by (simp add: sync_inv_def)
  with s' wq show ?thesis by (auto simp: t)
qed

section \<open>The concrete system\<close>

lemma demo_sync_inv [simp]: "sync_inv demo_sys"
  by (simp add: sync_inv_def waitq_ok_def)

lemma demo_caller [simp]: "caller_ok demo_sys"
  by (simp add: caller_ok_def even_odd_numbers)

end
