(* ===== verification/Semaphore.thy ===== *)
theory Semaphore
  imports Wait_Queue
begin

text \<open>
  Model of \<open>sync/semaphore.c\<close>. A semaphore is its count (a \<open>size_t\<close>) and the identity of its lock and
  waiting list. A semaphore is handed from an upper to the first waiter without touching the count.
  In the system call \<open>kern_semaphore_up\<close> the result of the handle lookup is an argument, and whether
  the notifier is run is part of the result.
\<close>

section \<open>Operations\<close>

record semaphore =
  sem_count :: nat
  sem_wait :: nat

definition semaphore_init :: "nat \<Rightarrow> nat \<Rightarrow> ksys \<Rightarrow> semaphore \<times> ksys" where
  "semaphore_init q initial s =
     (\<lparr>sem_count = initial, sem_wait = q\<rparr>,
      s\<lparr>ks_locks := (ks_locks s)(WaitLock q := spinlock_init), ks_waitq := (ks_waitq s)(q := [])\<rparr>)"

definition semaphore_down_etc ::
  "semaphore \<Rightarrow> int \<Rightarrow> u32 \<Rightarrow> ksys \<Rightarrow> (sleep_result \<times> semaphore \<times> ksys) option" where
  "semaphore_down_etc sem timeout flags s = do {
     s \<leftarrow> ks_lock (WaitLock (sem_wait sem)) s;
     if sem_count sem \<noteq> 0
     then do {
       let sem = sem\<lparr>sem_count := size_dec (sem_count sem)\<rparr>;
       s \<leftarrow> ks_unlock (WaitLock (sem_wait sem)) s;
       Some (Returned STATUS_SUCCESS, sem, s)}
     else do {
       let s = wait_append (sem_wait sem) (curr_thread s) s;
       (r, s) \<leftarrow> thread_sleep (Some (WaitLock (sem_wait sem))) timeout flags s;
       Some (r, sem, s)}}"

definition semaphore_down :: "semaphore \<Rightarrow> ksys \<Rightarrow> (sleep_result \<times> semaphore \<times> ksys) option" where
  "semaphore_down sem s = semaphore_down_etc sem (-1) 0 s"

fun semaphore_up_loop :: "nat \<Rightarrow> semaphore \<Rightarrow> ksys \<Rightarrow> (semaphore \<times> ksys) option" where
  "semaphore_up_loop 0 sem s = Some (sem, s)"
| "semaphore_up_loop (Suc n) sem s =
     (case ks_waitq s (sem_wait sem) of
        [] \<Rightarrow> semaphore_up_loop n (sem\<lparr>sem_count := size_inc (sem_count sem)\<rparr>) s
      | t # _ \<Rightarrow> do {
          s \<leftarrow> thread_wake t s;
          semaphore_up_loop n sem s})"

definition semaphore_up :: "semaphore \<Rightarrow> nat \<Rightarrow> ksys \<Rightarrow> (semaphore \<times> ksys) option" where
  "semaphore_up sem count s = do {
     s \<leftarrow> ks_lock (WaitLock (sem_wait sem)) s;
     (sem, s) \<leftarrow> semaphore_up_loop count sem s;
     s \<leftarrow> ks_unlock (WaitLock (sem_wait sem)) s;
     Some (sem, s)}"

section \<open>System calls\<close>

definition kern_semaphore_down ::
  "status + semaphore \<Rightarrow> int \<Rightarrow> ksys \<Rightarrow> (sleep_result \<times> (status + semaphore) \<times> ksys) option" where
  "kern_semaphore_down lookup timeout s =
     (case lookup of
        Inl ret \<Rightarrow> Some (Returned ret, lookup, s)
      | Inr sem \<Rightarrow> do {
          (r, sem, s) \<leftarrow> semaphore_down_etc sem timeout SLEEP_INTERRUPTIBLE s;
          Some (r, Inr sem, s)})"

text \<open>The threads that are woken, counted up to \<open>count\<close>.\<close>

fun count_waiters :: "nat \<Rightarrow> nat \<Rightarrow> nat list \<Rightarrow> nat" where
  "count_waiters num count [] = num"
| "count_waiters num count (t # ts) = (if num + 1 = count then num + 1 else count_waiters (num + 1) count ts)"

fun wake_loop :: "nat \<Rightarrow> nat \<Rightarrow> ksys \<Rightarrow> ksys option" where
  "wake_loop 0 q s = Some s"
| "wake_loop (Suc n) q s =
     (case ks_waitq s q of
        [] \<Rightarrow> None
      | t # _ \<Rightarrow> Option.bind (thread_wake t s) (wake_loop n q))"

definition kern_semaphore_up ::
  "status + semaphore \<Rightarrow> nat \<Rightarrow> ksys \<Rightarrow> (status \<times> bool \<times> (status + semaphore) \<times> ksys) option" where
  "kern_semaphore_up lookup count s =
     (if count = 0 then Some (STATUS_INVALID_ARG, False, lookup, s)
      else case lookup of
        Inl ret \<Rightarrow> Some (ret, False, lookup, s)
      | Inr sem \<Rightarrow> do {
          let r = WaitLock (sem_wait sem);
          s \<leftarrow> ks_lock r s;
          let num_threads = count_waiters 0 count (ks_waitq s (sem_wait sem));
          if (sem_count sem + (count - num_threads)) mod 2 ^ 64 < sem_count sem
          then do {
            s \<leftarrow> ks_lock r s;
            Some (STATUS_OVERFLOW, False, Inr sem, s)}
          else do {
            s \<leftarrow> wake_loop num_threads (sem_wait sem) s;
            let sem = sem\<lparr>sem_count := (sem_count sem + (count - num_threads)) mod 2 ^ 64\<rparr>;
            s \<leftarrow> ks_unlock r s;
            Some (STATUS_SUCCESS, count - num_threads \<noteq> 0, Inr sem, s)}})"

section \<open>Correctness\<close>

text \<open>The threads of a list have been woken, the others have not changed.\<close>

definition all_woken :: "ksys \<Rightarrow> ksys \<Rightarrow> nat list \<Rightarrow> bool" where
  "all_woken s s' ts \<longleftrightarrow> (\<forall>t\<in>set ts. th_state (thread_of s' t) = THREAD_READY
       \<and> th_sleep_status (thread_of s' t) = th_sleep_status (thread_of s t))
     \<and> (\<forall>t. t \<notin> set ts \<longrightarrow> thread_of s' t = thread_of s t)"

lemma all_woken_nil [simp]: "all_woken s s []"
  by (simp add: all_woken_def)

lemma all_woken_Cons:
  assumes "woken_up s s1 t" and "\<forall>u. u \<noteq> t \<longrightarrow> thread_of s1 u = thread_of s u" and "all_woken s1 s' ts"
    and "t \<notin> set ts"
  shows "all_woken s s' (t # ts)"
  using assms unfolding all_woken_def woken_up_def by (metis set_ConsD list.set_intros)

lemma size_incs: "n < 2 ^ 64 \<Longrightarrow> size_inc ((n + k) mod 2 ^ 64) = (n + Suc k) mod 2 ^ 64"
  by (simp add: size_inc_def mod_Suc_eq)

lemma semaphore_up_loop_ok:
  assumes "sync_inv s" and "holds {sem_wait sem} s" and "sem_count sem < 2 ^ 64"
  shows "\<exists>s'. semaphore_up_loop n sem s
      = Some (sem\<lparr>sem_count := (sem_count sem + (n - length (ks_waitq s (sem_wait sem)))) mod 2 ^ 64\<rparr>, s')
    \<and> sync_inv s' \<and> sync_frame s s'
    \<and> ks_waitq s' = (ks_waitq s)(sem_wait sem := drop n (ks_waitq s (sem_wait sem)))
    \<and> all_woken s s' (take n (ks_waitq s (sem_wait sem)))"
  using assms
proof (induction n arbitrary: s sem)
  case 0
  then show ?case by simp
next
  case (Suc n)
  show ?case
  proof (cases "ks_waitq s (sem_wait sem)")
    case Nil
    let ?sem = "sem\<lparr>sem_count := size_inc (sem_count sem)\<rparr>"
    have c: "sem_count ?sem = (sem_count sem + 1) mod 2 ^ 64" by (simp add: size_inc_def)
    have "(sem_count ?sem + n) mod 2 ^ 64 = (sem_count sem + Suc n) mod 2 ^ 64"
      unfolding c by (simp add: mod_add_left_eq)
    with Suc.IH [of s ?sem] Suc.prems Nil show ?thesis by (simp add: c del: mod_Suc_eq)
  next
    case (Cons t ts)
    obtain s1 where s1: "thread_wake t s = Some s1" "sync_inv s1" "sync_frame s s1" "woken_up s s1 t"
        "ks_waitq s1 = (ks_waitq s)(sem_wait sem := ts)" "\<forall>u. u \<noteq> t \<longrightarrow> thread_of s1 u = thread_of s u"
      using wait_first_woken [OF Suc.prems(1,2) _ Cons] by blast
    have h1: "holds {sem_wait sem} s1" using Suc.prems(2) sync_frame_holds [OF s1(3)] by simp
    have d: "t \<notin> set (take n ts)" using sync_invD(2) [OF Suc.prems(1), of "sem_wait sem"] Cons
      by (auto dest: in_set_takeD)
    obtain s' where "semaphore_up_loop n sem s1
        = Some (sem\<lparr>sem_count := (sem_count sem + (n - length ts)) mod 2 ^ 64\<rparr>, s')"
        "sync_inv s'" "sync_frame s1 s'" "ks_waitq s' = (ks_waitq s)(sem_wait sem := drop n ts)"
        "all_woken s1 s' (take n ts)"
      using Suc.IH [OF s1(2) h1 Suc.prems(3)] unfolding s1(5) fun_upd_same fun_upd_upd by blast
    then show ?thesis
      using s1 Cons sync_frame_trans [OF s1(3)] all_woken_Cons [OF s1(4,6) _ d] by (simp add: fun_eq_iff)
  qed
qed

lemma semaphore_up_ok:
  assumes inv: "sync_inv s" and free: "locks_free s" and c: "sem_count sem < 2 ^ 64"
    and w: "w = ks_waitq s (sem_wait sem)"
  shows "\<exists>s'. semaphore_up sem n s = Some (sem\<lparr>sem_count := (sem_count sem + (n - length w)) mod 2 ^ 64\<rparr>, s')
    \<and> sync_inv s' \<and> locks_free s' \<and> ks_irq s' = ks_irq s \<and> curr_thread s' = curr_thread s
    \<and> ks_waitq s' = (ks_waitq s)(sem_wait sem := drop n w) \<and> all_woken s s' (take n w)"
proof -
  let ?q = "sem_wait sem" let ?s = "object_locked ?q s"
  obtain s1 where s1: "semaphore_up_loop n sem ?s
      = Some (sem\<lparr>sem_count := (sem_count sem + (n - length w)) mod 2 ^ 64\<rparr>, s1)" "sync_inv s1"
      "sync_frame ?s s1" "ks_waitq s1 = (ks_waitq s)(?q := drop n w)" "all_woken ?s s1 (take n w)"
    using semaphore_up_loop_ok [of ?s sem n] inv object_locked_holds [OF free] c w by auto
  from object_frame(4) [OF s1(3) free] obtain l where
      l: "ks_unlock (WaitLock ?q) s1 = Some (s1\<lparr>ks_irq := ks_irq s, ks_locks := l\<rparr>)" "\<forall>r. sl_value (l r) = 1"
    by blast
  show ?thesis
    using s1 l object_lock [OF free, of ?q] object_frame(2) [OF s1(3) free]
    by (simp add: semaphore_up_def all_woken_def)
qed

text \<open>
  Property C29. \<open>semaphore_up\<close> by \<open>n\<close> wakes the first \<open>n\<close> waiters in the order in which they came
  (all of them if there are fewer), leaves the later ones waiting, and adds what is left over to the
  count. No other thread changes, all locks are free again and the interrupt state is restored.\<close>

theorem semaphore_up_correct:
  assumes "sync_inv s" and "locks_free s" and "sem_count sem < 2 ^ 64"
    and "w = ks_waitq s (sem_wait sem)" and "sem_count sem + (n - length w) < 2 ^ 64"
  shows "\<exists>s'. semaphore_up sem n s = Some (sem\<lparr>sem_count := sem_count sem + (n - length w)\<rparr>, s')
    \<and> sync_inv s' \<and> locks_free s' \<and> ks_irq s' = ks_irq s
    \<and> ks_waitq s' = (ks_waitq s)(sem_wait sem := drop n w) \<and> all_woken s s' (take n w)"
  using semaphore_up_ok [OF assms(1-4), of n] assms(5) by auto

text \<open>
  Property C30. \<open>semaphore_down_etc\<close> takes one from a positive count and returns success; on a zero
  count it returns the error without a trace when the timeout is zero or the caller is interrupted,
  and otherwise the caller sleeps at the end of the waiting list while another thread runs. The count
  is decremented in the first case only.\<close>

theorem semaphore_down_correct:
  assumes "sync_inv s" and "locks_free s" and "caller_ok s" and "sem_count sem < 2 ^ 64"
    and "t = curr_thread s" and "q = sem_wait sem"
  shows "\<exists>r sem' s'. semaphore_down_etc sem timeout flags s = Some (r, sem', s')
    \<and> sync_inv s' \<and> locks_free s'
    \<and> (if sem_count sem \<noteq> 0
       then r = Returned STATUS_SUCCESS \<and> sem' = sem\<lparr>sem_count := sem_count sem - 1\<rparr>
         \<and> ks_waitq s' = ks_waitq s \<and> ks_threads s' = ks_threads s \<and> ks_irq s' = ks_irq s
       else sem' = sem \<and> (case sleep_cancelled flags timeout s of
           Some ret \<Rightarrow> r = Returned ret \<and> ks_waitq s' = ks_waitq s \<and> ks_threads s' = ks_threads s
             \<and> ks_irq s' = ks_irq s
         | None \<Rightarrow> r = Asleep \<and> ks_waitq s' = (ks_waitq s)(q := ks_waitq s q @ [t])
             \<and> th_state (thread_of s' t) = THREAD_SLEEPING \<and> curr_thread s' \<noteq> t))"
proof -
  let ?s = "object_locked q s"
  note l = object_lock [OF assms(2), of q] object_locked_holds [OF assms(2), of q]
  show ?thesis
  proof (cases "sem_count sem = 0")
    case False
    obtain k where "ks_unlock (WaitLock q) ?s = Some (?s\<lparr>ks_irq := ks_irq s, ks_locks := k\<rparr>)" "\<forall>r. sl_value (k r) = 1"
      using object_unlock [OF l(2)] by auto
    with l(1) False assms show ?thesis
      by (simp add: semaphore_down_etc_def size_dec_pos)
  next
    case True
    show ?thesis
    proof (cases "sleep_cancelled flags timeout s")
      case None
      with wait_blocked [of ?s q flags timeout t] l True assms show ?thesis
        by (simp add: semaphore_down_etc_def) blast
    next
      case (Some ret)
      with wait_cancelled [of ?s q flags timeout ret] l True assms show ?thesis
        by (simp add: semaphore_down_etc_def) force
    qed
  qed
qed

text \<open>
  Property C31. When the count would overflow, \<open>kern_semaphore_up\<close> never returns: it takes the
  semaphore's lock again instead of releasing it, and the processor spins on a lock it holds.\<close>

theorem kern_semaphore_up_overflow_hangs:
  assumes "locks_free s" and "ks_waitq s (sem_wait sem) = []"
    and "sem_count sem < 2 ^ 64" and "0 < n" and "n < 2 ^ 64" and "2 ^ 64 \<le> sem_count sem + n"
  shows "kern_semaphore_up (Inr sem) n s = None"
proof -
  have "(sem_count sem + n) mod 2 ^ 64 = sem_count sem + n - 2 ^ 64"
    using assms(3,5,6) by (simp add: mod_if)
  then have "(sem_count sem + n) mod 2 ^ 64 < sem_count sem" using assms(3,5,6) by linarith
  moreover have "ks_lock (WaitLock (sem_wait sem)) (object_locked (sem_wait sem) s) = None"
    by (simp add: ks_lock_eq lock_taken_def)
  ultimately show ?thesis
    using assms(2,4) object_lock [OF assms(1), of "sem_wait sem"]
    by (simp add: kern_semaphore_up_def Let_def)
qed

section \<open>Witnesses\<close>

text \<open>A semaphore of count zero on the wait list on which thread 3 sleeps.\<close>

definition demo_sem :: semaphore where
  "demo_sem = \<lparr>sem_count = 0, sem_wait = 0\<rparr>"

theorem semaphore_up_correct_witness:
  "\<exists>s'. semaphore_up demo_sem 2 demo_sys = Some (\<lparr>sem_count = 1, sem_wait = 0\<rparr>, s')
     \<and> ks_waitq s' 0 = [] \<and> th_state (thread_of s' 3) = THREAD_READY"
  using semaphore_up_correct [of demo_sys demo_sem "[3]" 2]
  by (auto simp: demo_sem_def all_woken_def)

theorem semaphore_down_correct_witness:
  "\<exists>s'. semaphore_down_etc demo_sem (-1) 0 demo_sys = Some (Asleep, demo_sem, s') \<and> ks_waitq s' 0 = [3, 1]"
proof -
  have "sleep_cancelled 0 (-1) demo_sys = None" by (simp add: sleep_cancelled_def sleep_timeout_def)
  then show ?thesis
    using semaphore_down_correct [of demo_sys demo_sem 1 0 "-1" 0]
    by (auto simp: demo_sem_def)
qed

theorem kern_semaphore_up_overflow_hangs_witness:
  "kern_semaphore_up (Inr \<lparr>sem_count = 2 ^ 64 - 1, sem_wait = 1\<rparr>) 1 demo_sys = None"
  using kern_semaphore_up_overflow_hangs [of demo_sys "\<lparr>sem_count = 2 ^ 64 - 1, sem_wait = 1\<rparr>" 1] by simp

end
