(* ===== verification/Mutex.thy ===== *)
theory Mutex
  imports Wait_Queue
begin

text \<open>
  Model of \<open>sync/mutex.c\<close> and \<open>sync/condvar.c\<close>. A mutex is its atomic value (the recursion count, a
  32-bit integer), its flags, its holder and the identity of its lock and waiting list. A blocked call
  continues with \<open>mutex_lock_resume\<close> when its sleep ends; likewise \<open>condvar_wait_resume\<close>. \<open>fatal\<close> is
  the result \<open>None\<close>. The second half models the interleaving of the atomic actions of many threads on
  one mutex as a step relation.
\<close>

section \<open>Mutex operations\<close>

definition MUTEX_RECURSIVE :: u32 where "MUTEX_RECURSIVE = 1"

record mutex =
  mtx_value :: u32
  mtx_flags :: u32
  mtx_wait :: nat
  mtx_holder :: "nat option"

definition mutex_init :: "nat \<Rightarrow> u32 \<Rightarrow> ksys \<Rightarrow> mutex \<times> ksys" where
  "mutex_init q flags s =
     (\<lparr>mtx_value = 0, mtx_flags = flags, mtx_wait = q, mtx_holder = None\<rparr>,
      s\<lparr>ks_locks := (ks_locks s)(WaitLock q := spinlock_init), ks_waitq := (ks_waitq s)(q := [])\<rparr>)"

definition mutex_held :: "mutex \<Rightarrow> bool" where
  "mutex_held m \<longleftrightarrow> mtx_value m \<noteq> 0"

text \<open>\<open>atomic_cas\<close>: the previous value and the mutex after it.\<close>

definition value_cas :: "u32 \<Rightarrow> u32 \<Rightarrow> mutex \<Rightarrow> u32 \<times> mutex" where
  "value_cas cmp new m = (mtx_value m, if mtx_value m = cmp then m\<lparr>mtx_value := new\<rparr> else m)"

definition mutex_acquired :: "mutex \<Rightarrow> ksys \<Rightarrow> (sleep_result \<times> mutex \<times> ksys) option" where
  "mutex_acquired m s = Some (Returned STATUS_SUCCESS, m\<lparr>mtx_holder := Some (curr_thread s)\<rparr>, s)"

definition mutex_lock_resume :: "status \<Rightarrow> mutex \<Rightarrow> ksys \<Rightarrow> (sleep_result \<times> mutex \<times> ksys) option" where
  "mutex_lock_resume ret m s =
     (if ret \<noteq> STATUS_SUCCESS then Some (Returned ret, m, s) else mutex_acquired m s)"

definition mutex_lock_internal ::
  "mutex \<Rightarrow> int \<Rightarrow> u32 \<Rightarrow> ksys \<Rightarrow> (sleep_result \<times> mutex \<times> ksys) option" where
  "mutex_lock_internal m timeout flags s =
     (let (old, m) = value_cas 0 1 m
      in if old \<noteq> 0
         then if mtx_holder m = Some (curr_thread s)
              then if mtx_flags m AND MUTEX_RECURSIVE \<noteq> 0
                   then Some (Returned STATUS_SUCCESS, m\<lparr>mtx_value := mtx_value m + 1\<rparr>, s)
                   else None
              else do {
                s \<leftarrow> ks_lock (WaitLock (mtx_wait m)) s;
                let (old, m) = value_cas 0 1 m;
                if old = 0
                then do {
                  s \<leftarrow> ks_unlock (WaitLock (mtx_wait m)) s;
                  mutex_acquired m s}
                else do {
                  let s = wait_append (mtx_wait m) (curr_thread s) s;
                  (r, s) \<leftarrow> thread_sleep (Some (WaitLock (mtx_wait m))) timeout flags s;
                  case r of
                    Returned ret \<Rightarrow> mutex_lock_resume ret m s
                  | Asleep \<Rightarrow> Some (Asleep, m, s)}}
         else mutex_acquired m s)"

definition mutex_lock_etc :: "mutex \<Rightarrow> int \<Rightarrow> u32 \<Rightarrow> ksys \<Rightarrow> (sleep_result \<times> mutex \<times> ksys) option" where
  "mutex_lock_etc m timeout flags s = mutex_lock_internal m timeout flags s"

definition mutex_lock :: "mutex \<Rightarrow> ksys \<Rightarrow> (sleep_result \<times> mutex \<times> ksys) option" where
  "mutex_lock m s = do {
     (r, m, s) \<leftarrow> mutex_lock_internal m (-1) 0 s;
     assert_k (r = Returned STATUS_SUCCESS \<or> r = Asleep);
     Some (r, m, s)}"

definition mutex_unlock :: "mutex \<Rightarrow> ksys \<Rightarrow> (mutex \<times> ksys) option" where
  "mutex_unlock m s = do {
     s \<leftarrow> ks_lock (WaitLock (mtx_wait m)) s;
     assert_k (mtx_value m \<noteq> 0);
     assert_k (mtx_holder m = Some (curr_thread s));
     (m, s) \<leftarrow> (if mtx_value m = 1
                then let m = m\<lparr>mtx_holder := None\<rparr>
                     in case ks_waitq s (mtx_wait m) of
                          t # _ \<Rightarrow> do {s \<leftarrow> thread_wake t s; Some (m, s)}
                        | [] \<Rightarrow> Some (m\<lparr>mtx_value := mtx_value m - 1\<rparr>, s)
                else Some (m\<lparr>mtx_value := mtx_value m - 1\<rparr>, s));
     s \<leftarrow> ks_unlock (WaitLock (mtx_wait m)) s;
     Some (m, s)}"

section \<open>Condition variable operations\<close>

type_synonym condvar = nat

definition condvar_init :: "condvar \<Rightarrow> ksys \<Rightarrow> ksys" where
  "condvar_init cv s =
     s\<lparr>ks_locks := (ks_locks s)(WaitLock cv := spinlock_init), ks_waitq := (ks_waitq s)(cv := [])\<rparr>"

text \<open>The mutex is taken again; the call returns \<open>ret\<close> once it has it (or sleeps for it).\<close>

definition condvar_wait_resume ::
  "status \<Rightarrow> mutex option \<Rightarrow> ksys \<Rightarrow> (sleep_result \<times> mutex option \<times> ksys) option" where
  "condvar_wait_resume ret m s =
     (case m of
        None \<Rightarrow> Some (Returned ret, None, s)
      | Some m \<Rightarrow> do {
          (r, m, s) \<leftarrow> mutex_lock m s;
          Some (case r of Returned _ \<Rightarrow> Returned ret | Asleep \<Rightarrow> Asleep, Some m, s)})"

definition condvar_wait_etc ::
  "condvar \<Rightarrow> mutex option \<Rightarrow> int \<Rightarrow> u32 \<Rightarrow> ksys \<Rightarrow> (sleep_result \<times> mutex option \<times> ksys) option" where
  "condvar_wait_etc cv m timeout flags s = do {
     s \<leftarrow> ks_lock (WaitLock cv) s;
     (m, s) \<leftarrow> (case m of
                  None \<Rightarrow> Some (None, s)
                | Some m \<Rightarrow> do {(m, s) \<leftarrow> mutex_unlock m s; Some (Some m, s)});
     let s = wait_append cv (curr_thread s) s;
     (r, s) \<leftarrow> thread_sleep (Some (WaitLock cv)) timeout flags s;
     case r of
       Returned ret \<Rightarrow> condvar_wait_resume ret m s
     | Asleep \<Rightarrow> Some (Asleep, m, s)}"

definition condvar_signal :: "condvar \<Rightarrow> ksys \<Rightarrow> (bool \<times> ksys) option" where
  "condvar_signal cv s = do {
     s \<leftarrow> ks_lock (WaitLock cv) s;
     (ret, s) \<leftarrow> (case ks_waitq s cv of
                    [] \<Rightarrow> Some (False, s)
                  | t # _ \<Rightarrow> do {s \<leftarrow> thread_wake t s; Some (True, s)});
     s \<leftarrow> ks_unlock (WaitLock cv) s;
     Some (ret, s)}"

partial_function (option) wake_all :: "nat \<Rightarrow> ksys \<Rightarrow> ksys option" where
  "wake_all q s =
     (case ks_waitq s q of
        [] \<Rightarrow> Some s
      | t # _ \<Rightarrow> Option.bind (thread_wake t s) (wake_all q))"

definition condvar_broadcast :: "condvar \<Rightarrow> ksys \<Rightarrow> (bool \<times> ksys) option" where
  "condvar_broadcast cv s = do {
     s \<leftarrow> ks_lock (WaitLock cv) s;
     (ret, s) \<leftarrow> (if ks_waitq s cv \<noteq> [] then do {s \<leftarrow> wake_all cv s; Some (True, s)} else Some (False, s));
     s \<leftarrow> ks_unlock (WaitLock cv) s;
     Some (ret, s)}"

section \<open>Mutex operations: correctness\<close>

text \<open>What releasing a mutex leaves alone: everything but its own lock, list and the thread it wakes.\<close>

definition unlock_frame :: "nat \<Rightarrow> ksys \<Rightarrow> ksys \<Rightarrow> bool" where
  "unlock_frame q s s' \<longleftrightarrow> ks_irq s' = ks_irq s \<and> ks_curr_cpu s' = ks_curr_cpu s \<and> curr_thread s' = curr_thread s
     \<and> (\<forall>r. sl_value (ks_locks s' r) = sl_value (ks_locks s r))
     \<and> (\<forall>p. p \<noteq> q \<longrightarrow> ks_locks s' (WaitLock p) = ks_locks s (WaitLock p))
     \<and> ks_now s' = ks_now s \<and> thread_of s' (curr_thread s) = thread_of s (curr_thread s)
     \<and> caller_ok s' = caller_ok s"

lemma unlock_frame_curr: "unlock_frame q s s' \<Longrightarrow> curr_thread s' = curr_thread s"
  unfolding unlock_frame_def by blast

lemma unlock_frame_cancelled:
  assumes "unlock_frame q s s'"
  shows "sleep_cancelled flags timeout s' = sleep_cancelled flags timeout s"
proof -
  note c = unlock_frame_curr [OF assms]
  show ?thesis using assms unfolding sleep_cancelled_def c by (simp add: unlock_frame_def)
qed

text \<open>The mutex, the waiting list and the woken threads after a release by the holder.\<close>

definition unlocked :: "mutex \<Rightarrow> nat list \<Rightarrow> mutex \<times> nat list \<times> nat list" where
  "unlocked m w =
     (if mtx_value m \<noteq> 1 then (m\<lparr>mtx_value := mtx_value m - 1\<rparr>, w, [])
      else case w of
        [] \<Rightarrow> (m\<lparr>mtx_holder := None, mtx_value := 0\<rparr>, [], [])
      | t # ts \<Rightarrow> (m\<lparr>mtx_holder := None\<rparr>, ts, [t]))"

lemma mutex_unlock_ok:
  assumes inv: "sync_inv s" and held: "objects_held Q s" "q \<notin> Q" and q: "q = mtx_wait m"
    and v: "mtx_value m \<noteq> 0" and h: "mtx_holder m = Some (curr_thread s)"
    and u: "unlocked m (ks_waitq s q) = (m', w', ts)"
  shows "\<exists>s'. mutex_unlock m s = Some (m', s') \<and> sync_inv s' \<and> unlock_frame q s s'
    \<and> ks_waitq s' = (ks_waitq s)(q := w')
    \<and> (\<forall>t\<in>set ts. th_state (thread_of s' t) = THREAD_READY
         \<and> th_sleep_status (thread_of s' t) = th_sleep_status (thread_of s t))
    \<and> (\<forall>t. t \<notin> set ts \<longrightarrow> thread_of s' t = thread_of s t)"
proof -
  let ?s = "object_locked q s"
  note l = object_lock_nested [OF held]
  have "\<exists>s1. (if mtx_value m = 1
      then let m = m\<lparr>mtx_holder := None\<rparr>
           in case ks_waitq ?s (mtx_wait m) of
                t # _ \<Rightarrow> do {s \<leftarrow> thread_wake t ?s; Some (m, s)}
              | [] \<Rightarrow> Some (m\<lparr>mtx_value := mtx_value m - 1\<rparr>, ?s)
      else Some (m\<lparr>mtx_value := mtx_value m - 1\<rparr>, ?s)) = Some (m', s1)
    \<and> sync_inv s1 \<and> sync_frame ?s s1 \<and> ks_waitq s1 = (ks_waitq s)(q := w')
    \<and> (\<forall>t\<in>set ts. th_state (thread_of s1 t) = THREAD_READY
         \<and> th_sleep_status (thread_of s1 t) = th_sleep_status (thread_of s t))
    \<and> (\<forall>t. t \<notin> set ts \<longrightarrow> thread_of s1 t = thread_of s t)"
  proof (cases "mtx_value m = 1 \<and> ks_waitq s q \<noteq> []")
    case True
    then obtain t tl where w: "ks_waitq s q = t # tl" by (cases "ks_waitq s q") auto
    obtain s1 where "thread_wake t ?s = Some s1" "sync_inv s1" "sync_frame ?s s1" "woken_up ?s s1 t"
        "ks_waitq s1 = (ks_waitq s)(q := tl)" "\<forall>u. u \<noteq> t \<longrightarrow> thread_of s1 u = thread_of s u"
      using wait_first_woken [of ?s "insert q Q" q t tl] inv l(2) w by auto
    then show ?thesis
      using True w u q by (auto simp: unlocked_def woken_up_def)
  next
    case False
    then show ?thesis
      using u inv q by (cases "ks_waitq s q") (auto simp: unlocked_def split: if_splits)
  qed
  then obtain s1 where s1: "(if mtx_value m = 1
      then let m = m\<lparr>mtx_holder := None\<rparr>
           in case ks_waitq ?s (mtx_wait m) of
                t # _ \<Rightarrow> do {s \<leftarrow> thread_wake t ?s; Some (m, s)}
              | [] \<Rightarrow> Some (m\<lparr>mtx_value := mtx_value m - 1\<rparr>, ?s)
      else Some (m\<lparr>mtx_value := mtx_value m - 1\<rparr>, ?s)) = Some (m', s1)"
      "sync_inv s1" "sync_frame ?s s1" "ks_waitq s1 = (ks_waitq s)(q := w')"
      "\<forall>t\<in>set ts. th_state (thread_of s1 t) = THREAD_READY
         \<and> th_sleep_status (thread_of s1 t) = th_sleep_status (thread_of s t)"
      "\<forall>t. t \<notin> set ts \<longrightarrow> thread_of s1 t = thread_of s t" by blast
  obtain k where k: "ks_unlock (WaitLock q) s1 = Some (s1\<lparr>ks_irq := ks_irq s, ks_locks := k\<rparr>)"
      "\<forall>r. sl_value (k r) = sl_value (ks_locks s r)" "\<forall>p. p \<noteq> q \<longrightarrow> k (WaitLock p) = ks_locks s (WaitLock p)"
    using object_unlock_nested [OF s1(3) held] by blast
  have mw: "mtx_wait m' = q" using u q by (auto simp: unlocked_def split: if_splits list.splits)
  have "mutex_unlock m s = Some (m', s1\<lparr>ks_irq := ks_irq s, ks_locks := k\<rparr>)"
    unfolding mutex_unlock_def q [symmetric] l(1) bind.bind_lunit
    using v h s1(1) k(1) mw by (simp add: q [symmetric] del: bind_Some_iff split del: if_split)
  moreover have "unlock_frame q s (s1\<lparr>ks_irq := ks_irq s, ks_locks := k\<rparr>)"
  proof -
    have "curr_thread s1 = curr_thread s" "caller_ok s1 = caller_ok s"
      using sync_frame_curr [OF s1(3)] sync_frame_caller(1) [OF s1(3)] by simp_all
    moreover have "ks_curr_cpu s1 = ks_curr_cpu s" "ks_now s1 = ks_now s"
        "thread_of s1 (curr_thread s) = thread_of s (curr_thread s)"
      using s1(3) by (simp_all add: sync_frame_def)
    ultimately show ?thesis using k(2,3) by (simp add: unlock_frame_def)
  qed
  ultimately show ?thesis using s1 by auto
qed

text \<open>
  Property C27. Unlocking a mutex by its holder gives back one level of a recursive lock; the last
  level frees the mutex if nobody waits, and otherwise keeps its value at one and wakes the thread
  that has waited longest, so that no third thread can take it in between. The other waiters keep
  their order, no other thread changes, the locks and the interrupt state are as before the call.\<close>

theorem mutex_unlock_correct:
  assumes "sync_inv s" and "locks_free s" and "mtx_value m \<noteq> 0" and "mtx_holder m = Some (curr_thread s)"
    and "w = ks_waitq s (mtx_wait m)"
  shows "\<exists>m' s'. mutex_unlock m s = Some (m', s') \<and> sync_inv s' \<and> locks_free s' \<and> ks_irq s' = ks_irq s
    \<and> (if mtx_value m \<noteq> 1 then m' = m\<lparr>mtx_value := mtx_value m - 1\<rparr> \<and> ks_waitq s' = ks_waitq s
       else mtx_holder m' = None \<and> ks_waitq s' = (ks_waitq s)(mtx_wait m := tl w)
         \<and> mtx_value m' = (if w = [] then 0 else 1)
         \<and> (w \<noteq> [] \<longrightarrow> th_state (thread_of s' (hd w)) = THREAD_READY))
    \<and> (\<forall>t. t \<notin> set (take 1 w) \<longrightarrow> thread_of s' t = thread_of s t)"
proof -
  obtain m' w' ts where u: "unlocked m w = (m', w', ts)" by (cases "unlocked m w") auto
  have free: "objects_held {} s" using assms(2) by (simp add: objects_held_empty)
  obtain s' where s': "mutex_unlock m s = Some (m', s')" "sync_inv s'" "unlock_frame (mtx_wait m) s s'"
      "ks_waitq s' = (ks_waitq s)(mtx_wait m := w')" "\<forall>t\<in>set ts. th_state (thread_of s' t) = THREAD_READY"
      "\<forall>t. t \<notin> set ts \<longrightarrow> thread_of s' t = thread_of s t"
    using mutex_unlock_ok [OF assms(1) free _ refl assms(3,4) u [unfolded assms(5)]] by blast
  have "locks_free s'" "ks_irq s' = ks_irq s"
    using s'(3) assms(2) by (simp_all add: unlock_frame_def locks_free_def)
  then show ?thesis
    using s' u by (cases w) (auto simp: unlocked_def assms(5) [symmetric] split: if_splits)
qed

text \<open>
  Property C28. Taking a mutex: a free one is taken; the holder of a recursive one takes it again; one
  held by another thread makes the caller return the error at once or sleep at the end of the waiting
  list. While it is held by another thread, the mutex itself is not changed by the attempt.\<close>

theorem mutex_lock_correct:
  assumes "sync_inv s" and "locks_free s" and "caller_ok s" and "t = curr_thread s"
    and "mtx_holder m = Some t \<Longrightarrow> mtx_flags m AND MUTEX_RECURSIVE \<noteq> 0"
  shows "\<exists>r m' s'. mutex_lock_internal m timeout flags s = Some (r, m', s') \<and> sync_inv s' \<and> locks_free s'
    \<and> (if mtx_value m = 0
       then r = Returned STATUS_SUCCESS \<and> m' = m\<lparr>mtx_value := 1, mtx_holder := Some t\<rparr> \<and> s' = s
       else if mtx_holder m = Some t
       then r = Returned STATUS_SUCCESS \<and> m' = m\<lparr>mtx_value := mtx_value m + 1\<rparr> \<and> s' = s
       else m' = m \<and> (case sleep_cancelled flags timeout s of
           Some ret \<Rightarrow> r = Returned ret \<and> ret \<noteq> STATUS_SUCCESS \<and> ks_waitq s' = ks_waitq s
             \<and> ks_threads s' = ks_threads s \<and> ks_irq s' = ks_irq s
         | None \<Rightarrow> r = Asleep \<and> th_state (thread_of s' t) = THREAD_SLEEPING
             \<and> ks_waitq s' = (ks_waitq s)(mtx_wait m := ks_waitq s (mtx_wait m) @ [t])
             \<and> curr_thread s' \<noteq> t))"
proof (cases "mtx_value m = 0 \<or> mtx_holder m = Some t")
  case True
  then show ?thesis
    using assms by (auto simp: mutex_lock_internal_def value_cas_def mutex_acquired_def)
next
  case False
  let ?q = "mtx_wait m" let ?s = "object_locked ?q s"
  note l = object_lock [OF assms(2), of ?q] object_locked_holds [OF assms(2), of ?q]
  show ?thesis
  proof (cases "sleep_cancelled flags timeout s")
    case None
    obtain s' where "thread_sleep (Some (WaitLock ?q)) timeout flags (wait_append ?q t ?s) = Some (Asleep, s')"
        "sync_inv s'" "locks_free s'" "ks_waitq s' = (ks_waitq s)(?q := ks_waitq s ?q @ [t])"
        "th_state (thread_of s' t) = THREAD_SLEEPING" "curr_thread s' \<noteq> t"
      using wait_blocked [of ?s ?q flags timeout t] l None assms by auto
    with l False None assms(4) show ?thesis
      by (simp add: mutex_lock_internal_def value_cas_def)
  next
    case (Some ret)
    obtain s' where "thread_sleep (Some (WaitLock ?q)) timeout flags (wait_append ?q t ?s) = Some (Returned ret, s')"
        "sync_inv s'" "locks_free s'" "ks_waitq s' = ks_waitq s" "ks_threads s' = ks_threads s" "ks_irq s' = ks_irq s"
      using wait_cancelled [of ?s ?q flags timeout ret] l Some assms by auto
    moreover have "ret \<noteq> STATUS_SUCCESS" using Some by (auto simp: sleep_cancelled_def split: if_splits)
    ultimately show ?thesis
      using l False Some assms(4) by (simp add: mutex_lock_internal_def value_cas_def mutex_lock_resume_def)
  qed
qed

section \<open>Condition variables: correctness\<close>

lemma wake_all_ok:
  assumes "sync_inv s" and "holds {q} s" and "ks_waitq s q = w"
  shows "\<exists>s'. wake_all q s = Some s' \<and> sync_inv s' \<and> sync_frame s s' \<and> ks_waitq s' = (ks_waitq s)(q := [])
    \<and> (\<forall>t\<in>set w. th_state (thread_of s' t) = THREAD_READY
         \<and> th_sleep_status (thread_of s' t) = th_sleep_status (thread_of s t))
    \<and> (\<forall>t. t \<notin> set w \<longrightarrow> thread_of s' t = thread_of s t)"
  using assms
proof (induction w arbitrary: s)
  case Nil
  then show ?case by (subst wake_all.simps) auto
next
  case (Cons t w)
  obtain s1 where s1: "thread_wake t s = Some s1" "sync_inv s1" "sync_frame s s1" "woken_up s s1 t"
      "ks_waitq s1 = (ks_waitq s)(q := w)" "\<forall>u. u \<noteq> t \<longrightarrow> thread_of s1 u = thread_of s u"
    using wait_first_woken [OF Cons.prems(1,2) _ Cons.prems(3)] by blast
  have t: "t \<notin> set w" using sync_invD(2) [OF Cons.prems(1), of q] Cons.prems(3) by simp
  have h1: "holds {q} s1" "ks_waitq s1 q = w" using Cons.prems(2) sync_frame_holds [OF s1(3)] s1(5) by simp_all
  obtain s' where s': "wake_all q s1 = Some s'" "sync_inv s'" "sync_frame s1 s'"
      "ks_waitq s' = (ks_waitq s)(q := [])" "\<forall>t\<in>set w. th_state (thread_of s' t) = THREAD_READY
         \<and> th_sleep_status (thread_of s' t) = th_sleep_status (thread_of s1 t)"
      "\<forall>t. t \<notin> set w \<longrightarrow> thread_of s' t = thread_of s1 t"
    using Cons.IH [OF s1(2) h1] unfolding s1(5) fun_upd_upd by blast
  have "wake_all q s = Some s'" using s1(1) s'(1) Cons.prems(3) by (subst wake_all.simps) simp
  moreover have "th_state (thread_of s' u) = THREAD_READY \<and> th_sleep_status (thread_of s' u) = th_sleep_status (thread_of s u)"
    if "u \<in> set (t # w)" for u
    using that s'(5,6) s1(4,6) t unfolding woken_up_def by (cases "u = t") auto
  moreover have "thread_of s' u = thread_of s u" if "u \<notin> set (t # w)" for u
    using that s'(6) s1(6) by simp
  ultimately show ?case using s'(2,4) sync_frame_trans [OF s1(3) s'(3)] by blast
qed

text \<open>
  Further property. Broadcasting a condition returns, whatever the number of waiters: all of them are
  ready, none is left on the list, and the result says whether there were any.\<close>

theorem condvar_broadcast_correct:
  assumes "sync_inv s" and "locks_free s"
  shows "\<exists>s'. condvar_broadcast cv s = Some (ks_waitq s cv \<noteq> [], s') \<and> sync_inv s' \<and> locks_free s'
    \<and> ks_irq s' = ks_irq s \<and> ks_waitq s' = (ks_waitq s)(cv := [])
    \<and> (\<forall>t\<in>set (ks_waitq s cv). th_state (thread_of s' t) = THREAD_READY)
    \<and> (\<forall>t. t \<notin> set (ks_waitq s cv) \<longrightarrow> thread_of s' t = thread_of s t)"
proof -
  let ?s = "object_locked cv s"
  note l = object_lock [OF assms(2), of cv] object_locked_holds [OF assms(2), of cv]
  obtain s1 where s1: "(if ks_waitq s cv \<noteq> [] then do {s \<leftarrow> wake_all cv ?s; Some (True, s)} else Some (False, ?s))
        = Some (ks_waitq s cv \<noteq> [], s1)" "sync_inv s1" "sync_frame ?s s1" "ks_waitq s1 = (ks_waitq s)(cv := [])"
      "\<forall>t\<in>set (ks_waitq s cv). th_state (thread_of s1 t) = THREAD_READY"
      "\<forall>t. t \<notin> set (ks_waitq s cv) \<longrightarrow> thread_of s1 t = thread_of s t"
    using wake_all_ok [of ?s cv "ks_waitq s cv"] assms(1) l(2) by (cases "ks_waitq s cv = []") (auto simp: fun_upd_idem)
  from object_frame(4) [OF s1(3) assms(2)] obtain k where
      k: "ks_unlock (WaitLock cv) s1 = Some (s1\<lparr>ks_irq := ks_irq s, ks_locks := k\<rparr>)" "\<forall>r. sl_value (k r) = 1"
    by blast
  have "condvar_broadcast cv s = Some (ks_waitq s cv \<noteq> [], s1\<lparr>ks_irq := ks_irq s, ks_locks := k\<rparr>)"
    unfolding condvar_broadcast_def l(1) bind.bind_lunit using s1(1) k(1)
    by (simp del: bind_Some_iff split del: if_split)
  with s1 k(2) show ?thesis by simp
qed

lemma condvar_signal_ok:
  assumes "sync_inv s" and "locks_free s"
  shows "\<exists>s'. condvar_signal cv s = Some (ks_waitq s cv \<noteq> [], s') \<and> sync_inv s' \<and> locks_free s'
    \<and> ks_irq s' = ks_irq s \<and> ks_waitq s' = (ks_waitq s)(cv := tl (ks_waitq s cv))
    \<and> (\<forall>t\<in>set (take 1 (ks_waitq s cv)). th_state (thread_of s' t) = THREAD_READY)
    \<and> (\<forall>t. t \<notin> set (take 1 (ks_waitq s cv)) \<longrightarrow> thread_of s' t = thread_of s t)"
proof -
  let ?s = "object_locked cv s"
  note l = object_lock [OF assms(2), of cv] object_locked_holds [OF assms(2), of cv]
  obtain s1 where s1: "(case ks_waitq s cv of [] \<Rightarrow> Some (False, ?s)
          | t # _ \<Rightarrow> do {s \<leftarrow> thread_wake t ?s; Some (True, s)}) = Some (ks_waitq s cv \<noteq> [], s1)"
      "sync_inv s1" "sync_frame ?s s1" "ks_waitq s1 = (ks_waitq s)(cv := tl (ks_waitq s cv))"
      "\<forall>t\<in>set (take 1 (ks_waitq s cv)). th_state (thread_of s1 t) = THREAD_READY"
      "\<forall>t. t \<notin> set (take 1 (ks_waitq s cv)) \<longrightarrow> thread_of s1 t = thread_of s t"
  proof (cases "ks_waitq s cv")
    case Nil
    then show ?thesis using that [of ?s] assms(1) by (auto simp: fun_upd_idem)
  next
    case (Cons t ts)
    with wait_first_woken [of ?s "{cv}" cv t ts] assms(1) l(2) that show ?thesis
      by (auto simp: woken_up_def)
  qed
  from object_frame(4) [OF s1(3) assms(2)] obtain k where
      k: "ks_unlock (WaitLock cv) s1 = Some (s1\<lparr>ks_irq := ks_irq s, ks_locks := k\<rparr>)" "\<forall>r. sl_value (k r) = 1"
    by blast
  have "condvar_signal cv s = Some (ks_waitq s cv \<noteq> [], s1\<lparr>ks_irq := ks_irq s, ks_locks := k\<rparr>)"
    unfolding condvar_signal_def l(1) bind.bind_lunit lock_taken_proj s1(1) using k(1) by simp
  with s1 k(2) show ?thesis by simp
qed

text \<open>
  Further property. Waiting for a condition with its mutex held once: the mutex is released (handed to its
  first waiter) and the caller is on the condition's list before any lock is dropped, so a signal
  given after the release of the mutex finds the caller there.\<close>

theorem condvar_wait_correct:
  assumes "sync_inv s" and "locks_free s" and "caller_ok s" and "t = curr_thread s" and "cv \<noteq> mtx_wait m"
    and "mtx_value m = 1" and "mtx_holder m = Some t" and "sleep_cancelled flags timeout s = None"
  shows "\<exists>m' s'. condvar_wait_etc cv (Some m) timeout flags s = Some (Asleep, Some m', s')
    \<and> sync_inv s' \<and> locks_free s' \<and> th_state (thread_of s' t) = THREAD_SLEEPING
    \<and> ks_waitq s' cv = ks_waitq s cv @ [t]
    \<and> ks_waitq s' (mtx_wait m) = tl (ks_waitq s (mtx_wait m))
    \<and> mtx_holder m' = None \<and> (mtx_value m' = 0 \<longleftrightarrow> ks_waitq s (mtx_wait m) = [])"
proof -
  let ?s = "object_locked cv s" let ?q = "mtx_wait m"
  note l = object_lock [OF assms(2), of cv] object_locked_holds [OF assms(2), of cv]
  obtain m' w' ts where u: "unlocked m (ks_waitq ?s ?q) = (m', w', ts)" by (cases "unlocked m (ks_waitq ?s ?q)") auto
  have m': "w' = tl (ks_waitq s ?q)" "mtx_holder m' = None" "mtx_value m' = 0 \<longleftrightarrow> ks_waitq s ?q = []"
    using u assms(6) by (auto simp: unlocked_def split: list.splits)
  have "objects_held {cv} ?s" "?q \<notin> {cv}" using l(2) assms(5) by (simp_all add: holds_objects)
  then obtain s1 where s1: "mutex_unlock m ?s = Some (m', s1)" "sync_inv s1" "unlock_frame ?q ?s s1"
      "ks_waitq s1 = (ks_waitq s)(?q := w')"
    using mutex_unlock_ok [OF _ _ _ refl _ _ u, of "{cv}"] assms by auto
  have c1: "curr_thread s1 = t" using unlock_frame_curr [OF s1(3)] assms(4) by simp
  have h1: "holds {cv} s1" using s1(3) l(2) by (simp add: holds_def unlock_frame_def)
  have k1: "caller_ok s1" using s1(3) assms(3) by (simp add: unlock_frame_def)
  have n1: "sleep_cancelled flags timeout s1 = None"
    using unlock_frame_cancelled [OF s1(3)] assms(8) by simp
  obtain s' where s': "thread_sleep (Some (WaitLock cv)) timeout flags (wait_append cv t s1) = Some (Asleep, s')"
      "sync_inv s'" "locks_free s'" "ks_waitq s' = (ks_waitq s1)(cv := ks_waitq s1 cv @ [t])"
      "th_state (thread_of s' t) = THREAD_SLEEPING"
    using wait_blocked [OF s1(2) h1 k1 n1 c1 [symmetric]] by blast
  have "condvar_wait_etc cv (Some m) timeout flags s = Some (Asleep, Some m', s')"
    using l(1) s1(1) s'(1) c1 by (simp add: condvar_wait_etc_def)
  then show ?thesis using s' s1(4) m' assms(5) by auto
qed

section \<open>Many threads on one mutex\<close>

text \<open>
  The atomic actions of \<open>mutex_lock_internal\<close> and \<open>mutex_unlock\<close> of a mutex, interleaved. A thread
  is outside (\<open>Out\<close>); it has failed the first compare-and-swap (\<open>Slow\<close>); it holds the spinlock in the
  slow path (\<open>InLock\<close>), or there after its second compare-and-swap succeeded (\<open>OwnLocked\<close>); it sleeps
  on the list (\<open>Queued\<close>); it owns the mutex before writing the holder field (\<open>Own\<close>), owns it with the
  field written (\<open>Held\<close>), holds the spinlock in \<open>mutex_unlock\<close> (\<open>Unlock\<close>), and there has cleared the
  holder field (\<open>Release\<close>). A sleep that ends by timeout or interruption takes the spinlock.
\<close>

datatype mutex_pc = Out | Slow | InLock | OwnLocked | Queued | Own | Held | Unlock | Release

record mutex_conf =
  mc_value :: nat
  mc_holder :: "nat option"
  mc_lock :: "nat option"
  mc_queue :: "nat list"
  mc_pc :: "nat \<Rightarrow> mutex_pc"

definition mutex_conf_init :: mutex_conf where
  "mutex_conf_init = \<lparr>mc_value = 0, mc_holder = None, mc_lock = None, mc_queue = [], mc_pc = (\<lambda>_. Out)\<rparr>"

inductive mutex_step :: "bool \<Rightarrow> mutex_conf \<Rightarrow> mutex_conf \<Rightarrow> bool" for recursive where
  cas_taken: "mc_pc c t = Out \<Longrightarrow> mc_value c = 0 \<Longrightarrow>
    mutex_step recursive c (c\<lparr>mc_value := 1, mc_pc := (mc_pc c)(t := Own)\<rparr>)"
| cas_failed: "mc_pc c t = Out \<Longrightarrow> mc_value c \<noteq> 0 \<Longrightarrow> mc_holder c \<noteq> Some t \<Longrightarrow>
    mutex_step recursive c (c\<lparr>mc_pc := (mc_pc c)(t := Slow)\<rparr>)"
| recurse: "mc_pc c t = Held \<Longrightarrow> mc_value c \<noteq> 0 \<Longrightarrow> mc_holder c = Some t \<Longrightarrow> recursive \<Longrightarrow>
    mutex_step recursive c (c\<lparr>mc_value := mc_value c + 1\<rparr>)"
| spin: "mc_pc c t = Slow \<Longrightarrow> mc_lock c = None \<Longrightarrow>
    mutex_step recursive c (c\<lparr>mc_lock := Some t, mc_pc := (mc_pc c)(t := InLock)\<rparr>)"
| cas_again: "mc_pc c t = InLock \<Longrightarrow> mc_value c = 0 \<Longrightarrow>
    mutex_step recursive c (c\<lparr>mc_value := 1, mc_pc := (mc_pc c)(t := OwnLocked)\<rparr>)"
| unspin: "mc_pc c t = OwnLocked \<Longrightarrow>
    mutex_step recursive c (c\<lparr>mc_lock := None, mc_pc := (mc_pc c)(t := Own)\<rparr>)"
| block: "mc_pc c t = InLock \<Longrightarrow> mc_value c \<noteq> 0 \<Longrightarrow>
    mutex_step recursive c (c\<lparr>mc_lock := None, mc_queue := mc_queue c @ [t], mc_pc := (mc_pc c)(t := Queued)\<rparr>)"
| cancel: "mc_pc c t = Queued \<Longrightarrow> mc_lock c = None \<Longrightarrow>
    mutex_step recursive c (c\<lparr>mc_queue := removeAll t (mc_queue c), mc_pc := (mc_pc c)(t := Out)\<rparr>)"
| set_holder: "mc_pc c t = Own \<Longrightarrow>
    mutex_step recursive c (c\<lparr>mc_holder := Some t, mc_pc := (mc_pc c)(t := Held)\<rparr>)"
| unlock: "mc_pc c t = Held \<Longrightarrow> mc_lock c = None \<Longrightarrow> mc_value c \<noteq> 0 \<Longrightarrow> mc_holder c = Some t \<Longrightarrow>
    mutex_step recursive c (c\<lparr>mc_lock := Some t, mc_pc := (mc_pc c)(t := Unlock)\<rparr>)"
| unlock_level: "mc_pc c t = Unlock \<Longrightarrow> mc_value c \<noteq> 1 \<Longrightarrow>
    mutex_step recursive c (c\<lparr>mc_value := mc_value c - 1, mc_lock := None, mc_pc := (mc_pc c)(t := Held)\<rparr>)"
| clear_holder: "mc_pc c t = Unlock \<Longrightarrow> mc_value c = 1 \<Longrightarrow>
    mutex_step recursive c (c\<lparr>mc_holder := None, mc_pc := (mc_pc c)(t := Release)\<rparr>)"
| hand_over: "mc_pc c t = Release \<Longrightarrow> mc_queue c = u # us \<Longrightarrow>
    mutex_step recursive c (c\<lparr>mc_lock := None, mc_queue := us, mc_pc := (mc_pc c)(t := Out, u := Own)\<rparr>)"
| free: "mc_pc c t = Release \<Longrightarrow> mc_queue c = [] \<Longrightarrow>
    mutex_step recursive c (c\<lparr>mc_value := mc_value c - 1, mc_lock := None, mc_pc := (mc_pc c)(t := Out)\<rparr>)"

definition owns :: "mutex_pc \<Rightarrow> bool" where
  "owns p \<longleftrightarrow> p \<in> {OwnLocked, Own, Held, Unlock, Release}"

definition spins :: "mutex_pc \<Rightarrow> bool" where
  "spins p \<longleftrightarrow> p \<in> {InLock, OwnLocked, Unlock, Release}"

lemma pc_simps [simp]:
  "owns OwnLocked" "owns Own" "owns Held" "owns Unlock" "owns Release"
  "\<not> owns Out" "\<not> owns Slow" "\<not> owns InLock" "\<not> owns Queued"
  "spins OwnLocked" "spins InLock" "spins Unlock" "spins Release"
  "\<not> spins Out" "\<not> spins Slow" "\<not> spins Own" "\<not> spins Queued" "\<not> spins Held"
  by (simp_all add: owns_def spins_def)

text \<open>The invariant: one owner when the value is not zero and none otherwise; the spinlock's holder is
  the thread inside it; the queue is the queued threads; the holder field is right where it is read.\<close>

definition mutex_owned :: "nat option \<Rightarrow> mutex_conf \<Rightarrow> bool" where
  "mutex_owned ow c \<longleftrightarrow>
     (\<forall>t. owns (mc_pc c t) \<longleftrightarrow> ow = Some t) \<and> (mc_value c = 0 \<longleftrightarrow> ow = None)
   \<and> (\<forall>t. spins (mc_pc c t) \<longleftrightarrow> mc_lock c = Some t)
   \<and> distinct (mc_queue c) \<and> (\<forall>t. t \<in> set (mc_queue c) \<longleftrightarrow> mc_pc c t = Queued)
   \<and> (\<forall>t. mc_holder c = Some t \<longleftrightarrow> ow = Some t \<and> (mc_pc c t = Held \<or> mc_pc c t = Unlock))
   \<and> (\<forall>t. ow = Some t \<longrightarrow> mc_pc c t \<noteq> Held \<longrightarrow> mc_pc c t \<noteq> Unlock \<longrightarrow> mc_value c = 1)
   \<and> (mc_queue c \<noteq> [] \<longrightarrow> ow \<noteq> None)"

lemma mutex_owned_at:
  "mutex_owned ow c \<Longrightarrow> (owns (mc_pc c t) \<longleftrightarrow> ow = Some t) \<and> (spins (mc_pc c t) \<longleftrightarrow> mc_lock c = Some t)
     \<and> (t \<in> set (mc_queue c) \<longleftrightarrow> mc_pc c t = Queued)
     \<and> (mc_holder c = Some t \<longleftrightarrow> ow = Some t \<and> (mc_pc c t = Held \<or> mc_pc c t = Unlock))"
  unfolding mutex_owned_def by blast

lemma mutex_owned_step:
  assumes step: "mutex_step recursive c c'" and inv: "mutex_owned ow c"
  shows "\<exists>ow. mutex_owned ow c'"
  using step
proof cases
  case (cas_taken t)
  then show ?thesis using inv mutex_owned_at [OF inv, of t] by (intro exI [of _ "Some t"]) (auto simp: mutex_owned_def)
next
  case (cas_failed t)
  then show ?thesis using inv mutex_owned_at [OF inv, of t] by (intro exI [of _ ow]) (auto simp: mutex_owned_def)
next
  case (recurse t)
  then show ?thesis using inv mutex_owned_at [OF inv, of t] by (intro exI [of _ ow]) (auto simp: mutex_owned_def)
next
  case (spin t)
  then show ?thesis using inv mutex_owned_at [OF inv, of t] by (intro exI [of _ ow]) (auto simp: mutex_owned_def)
next
  case (cas_again t)
  then show ?thesis using inv mutex_owned_at [OF inv, of t] by (intro exI [of _ "Some t"]) (auto simp: mutex_owned_def)
next
  case (unspin t)
  then show ?thesis using inv mutex_owned_at [OF inv, of t] by (intro exI [of _ ow]) (auto simp: mutex_owned_def)
next
  case (block t)
  then show ?thesis using inv mutex_owned_at [OF inv, of t] by (intro exI [of _ ow]) (auto simp: mutex_owned_def)
next
  case (cancel t)
  then show ?thesis using inv mutex_owned_at [OF inv, of t] by (intro exI [of _ ow]) (auto simp: mutex_owned_def distinct_removeAll)
next
  case (set_holder t)
  then show ?thesis using inv mutex_owned_at [OF inv, of t] by (intro exI [of _ ow]) (auto simp: mutex_owned_def)
next
  case (unlock t)
  then show ?thesis using inv mutex_owned_at [OF inv, of t] by (intro exI [of _ ow]) (auto simp: mutex_owned_def)
next
  case (unlock_level t)
  then show ?thesis using inv mutex_owned_at [OF inv, of t] by (intro exI [of _ ow]) (auto simp: mutex_owned_def)
next
  case (clear_holder t)
  then show ?thesis using inv mutex_owned_at [OF inv, of t] by (intro exI [of _ ow]) (auto simp: mutex_owned_def)
next
  case (hand_over t u us)
  then show ?thesis using inv mutex_owned_at [OF inv, of t] by (intro exI [of _ "Some u"]) (auto simp: mutex_owned_def)
next
  case (free t)
  then show ?thesis using inv mutex_owned_at [OF inv, of t] by (intro exI [of _ None]) (auto simp: mutex_owned_def)
qed

lemma mutex_owned_reach:
  assumes "(mutex_step recursive)\<^sup>*\<^sup>* mutex_conf_init c"
  shows "\<exists>ow. mutex_owned ow c"
  using assms
proof (induction rule: rtranclp_induct)
  case base
  then show ?case by (intro exI [of _ None]) (simp add: mutex_owned_def mutex_conf_init_def)
next
  case (step c c')
  then show ?case using mutex_owned_step by blast
qed


text \<open>The steps that bring the first waiter the mutex, from each point of the owner.\<close>

definition mutex_can_own :: "bool \<Rightarrow> nat \<Rightarrow> mutex_conf \<Rightarrow> bool" where
  "mutex_can_own r u c \<longleftrightarrow> (\<exists>c'. (mutex_step r)\<^sup>*\<^sup>* c c' \<and> owns (mc_pc c' u))"

lemma can_own_step: "mutex_step r c d \<Longrightarrow> mutex_can_own r u d \<Longrightarrow> mutex_can_own r u c"
  unfolding mutex_can_own_def by (meson converse_rtranclp_into_rtranclp)

lemma can_own_release: "mc_pc c t = Release \<Longrightarrow> mc_queue c = u # us \<Longrightarrow> mutex_can_own r u c"
  by (rule can_own_step [OF mutex_step.hand_over]) (auto simp: mutex_can_own_def intro: exI [of _ _])

lemma can_own_unlock:
  "mc_value c = Suc n \<Longrightarrow> mc_pc c t = Unlock \<Longrightarrow> mc_holder c = Some t \<Longrightarrow> mc_queue c = u # us \<Longrightarrow>
   mutex_can_own r u c"
proof (induction n arbitrary: c)
  case 0
  then show ?case
    by (intro can_own_step [OF mutex_step.clear_holder [of c t]] can_own_release [where t = t and us = us]) simp_all
next
  case (Suc n)
  let ?d = "c\<lparr>mc_value := mc_value c - 1, mc_lock := None, mc_pc := (mc_pc c)(t := Held)\<rparr>"
  have "mutex_can_own r u (?d\<lparr>mc_lock := Some t, mc_pc := (mc_pc ?d)(t := Unlock)\<rparr>)"
    by (rule Suc.IH) (use Suc.prems in simp_all)
  then have "mutex_can_own r u ?d"
    by (rule can_own_step [OF mutex_step.unlock, rotated 4]) (use Suc.prems in simp_all)
  then show ?case by (rule can_own_step [OF mutex_step.unlock_level, rotated 2]) (use Suc.prems in simp_all)
qed

lemma can_own_held:
  "mc_value c \<noteq> 0 \<Longrightarrow> mc_pc c t = Held \<Longrightarrow> mc_holder c = Some t \<Longrightarrow> mc_queue c = u # us \<Longrightarrow>
   mc_lock c = None \<Longrightarrow> mutex_can_own r u c"
  by (rule can_own_step [OF mutex_step.unlock, of c t])
    (auto intro!: can_own_unlock [of _ "mc_value c - 1" t _ us])

lemma can_own_own:
  "mc_value c \<noteq> 0 \<Longrightarrow> mc_pc c t = Own \<Longrightarrow> mc_queue c = u # us \<Longrightarrow> mc_lock c = None \<Longrightarrow> mutex_can_own r u c"
  by (rule can_own_step [OF mutex_step.set_holder, of c t]) (auto intro!: can_own_held [of _ t _ us])

lemma can_own_own_locked:
  "mc_value c \<noteq> 0 \<Longrightarrow> mc_pc c t = OwnLocked \<Longrightarrow> mc_queue c = u # us \<Longrightarrow> mutex_can_own r u c"
  by (rule can_own_step [OF mutex_step.unspin, of c t]) (auto intro!: can_own_own [of _ t _ us])

lemma owner_hands_over:
  assumes "mutex_owned (Some t) c" and "mc_queue c = u # us" and "mc_lock c = None \<or> mc_lock c = Some t"
  shows "mutex_can_own r u c"
proof -
  note at = mutex_owned_at [OF assms(1), of t]
  have v: "mc_value c \<noteq> 0" using assms(1) by (simp add: mutex_owned_def)
  then have v': "mc_value c = Suc (mc_value c - 1)" by simp
  from at have "owns (mc_pc c t)" by simp
  then consider "mc_pc c t = OwnLocked" | "mc_pc c t = Own" | "mc_pc c t = Held" | "mc_pc c t = Unlock"
    | "mc_pc c t = Release" by (auto simp: owns_def)
  then show ?thesis
  proof cases
    case 1
    then show ?thesis using can_own_own_locked v assms(2) by blast
  next
    case 2
    then have "mc_lock c = None" using at assms(3) by auto
    with 2 show ?thesis using can_own_own v assms(2) by blast
  next
    case 3
    then have "mc_lock c = None" "mc_holder c = Some t" using at assms(3) by auto
    with 3 show ?thesis using can_own_held v assms(2) by blast
  next
    case 4
    then have "mc_holder c = Some t" using at by auto
    with 4 show ?thesis using can_own_unlock [OF v'] assms(2) by blast
  next
    case 5
    then show ?thesis using can_own_release assms(2) by blast
  qed
qed

text \<open>
  Further property. From every reachable state the thread that has waited longest can come to own the
  mutex: the owner and the thread in the spinlock, if there is one, are never blocked.\<close>

theorem mutex_first_waiter_served:
  assumes "(mutex_step r)\<^sup>*\<^sup>* mutex_conf_init c" and "mc_queue c = u # us"
  shows "\<exists>c'. (mutex_step r)\<^sup>*\<^sup>* c c' \<and> owns (mc_pc c' u)"
proof -
  obtain ow where ow: "mutex_owned ow c" using mutex_owned_reach [OF assms(1)] by blast
  then obtain t where t: "ow = Some t" using assms(2) by (auto simp: mutex_owned_def)
  have "mutex_can_own r u c"
  proof (cases "mc_lock c = None \<or> mc_lock c = Some t")
    case True
    then show ?thesis using owner_hands_over [OF ow [unfolded t] assms(2)] by blast
  next
    case False
    then obtain x where x: "mc_lock c = Some x" "x \<noteq> t" by auto
    then have px: "mc_pc c x = InLock" using mutex_owned_at [OF ow, of x] t by (auto simp: spins_def owns_def)
    have v: "mc_value c \<noteq> 0" using ow t by (simp add: mutex_owned_def)
    let ?d = "c\<lparr>mc_lock := None, mc_queue := mc_queue c @ [x], mc_pc := (mc_pc c)(x := Queued)\<rparr>"
    have step: "mutex_step r c ?d" using mutex_step.block [OF px v] .
    then obtain o2 where o2: "mutex_owned o2 ?d" using mutex_owned_step ow by blast
    have "owns (mc_pc ?d t)" using mutex_owned_at [OF ow, of t] t x(2) by simp
    then have "o2 = Some t" using mutex_owned_at [OF o2, of t] by simp
    then have "mutex_can_own r u ?d" using owner_hands_over [of t ?d u "us @ [x]"] o2 assms(2) by simp
    then show ?thesis using can_own_step [OF step] by blast
  qed
  then show ?thesis by (simp add: mutex_can_own_def)
qed

section \<open>Witnesses\<close>

definition demo_mutex :: mutex where
  "demo_mutex = \<lparr>mtx_value = 1, mtx_flags = 0, mtx_wait = 0, mtx_holder = Some 1\<rparr>"

theorem mutex_unlock_correct_witness:
  "\<exists>m' s'. mutex_unlock demo_mutex demo_sys = Some (m', s') \<and> mtx_value m' = 1 \<and> ks_waitq s' 0 = []
     \<and> th_state (thread_of s' 3) = THREAD_READY"
  using mutex_unlock_correct [of demo_sys demo_mutex "[3]"] by (auto simp: demo_mutex_def)

theorem mutex_lock_correct_witness:
  "\<exists>s'. mutex_lock_internal (demo_mutex\<lparr>mtx_holder := Some 7\<rparr>) (-1) 0 demo_sys
     = Some (Asleep, demo_mutex\<lparr>mtx_holder := Some 7\<rparr>, s') \<and> ks_waitq s' 0 = [3, 1]"
proof -
  have "sleep_cancelled 0 (-1) demo_sys = None" by (simp add: sleep_cancelled_def sleep_timeout_def)
  then show ?thesis
    using mutex_lock_correct [of demo_sys 1 "demo_mutex\<lparr>mtx_holder := Some 7\<rparr>" "-1" 0]
    by (auto simp: demo_mutex_def)
qed

theorem condvar_broadcast_correct_witness:
  "\<exists>s'. condvar_broadcast 0 demo_sys = Some (True, s') \<and> ks_waitq s' 0 = []
     \<and> th_state (thread_of s' 3) = THREAD_READY"
  using condvar_broadcast_correct [of demo_sys 0] by auto

theorem condvar_wait_correct_witness:
  "\<exists>m' s'. condvar_wait_etc 5 (Some demo_mutex) (-1) 0 demo_sys = Some (Asleep, Some m', s')
     \<and> ks_waitq s' 5 = [1] \<and> ks_waitq s' 0 = []"
proof -
  have "sleep_cancelled 0 (-1) demo_sys = None" by (simp add: sleep_cancelled_def sleep_timeout_def)
  then show ?thesis
    using condvar_wait_correct [of demo_sys 1 5 demo_mutex 0 "-1"] by (auto simp: demo_mutex_def)
qed

definition demo_mutex_conf :: mutex_conf where
  "demo_mutex_conf = \<lparr>mc_value = 1, mc_holder = None, mc_lock = None, mc_queue = [2],
     mc_pc = (\<lambda>_. Out)(1 := Own, 2 := Queued)\<rparr>"

lemma demo_mutex_conf_reach: "(mutex_step r)\<^sup>*\<^sup>* mutex_conf_init demo_mutex_conf"
proof -
  let ?c1 = "mutex_conf_init\<lparr>mc_value := 1, mc_pc := (mc_pc mutex_conf_init)(1 := Own)\<rparr>"
  let ?c2 = "?c1\<lparr>mc_pc := (mc_pc ?c1)(2 := Slow)\<rparr>"
  let ?c3 = "?c2\<lparr>mc_lock := Some 2, mc_pc := (mc_pc ?c2)(2 := InLock)\<rparr>"
  let ?c4 = "?c3\<lparr>mc_lock := None, mc_queue := mc_queue ?c3 @ [2], mc_pc := (mc_pc ?c3)(2 := Queued)\<rparr>"
  have "mutex_step r mutex_conf_init ?c1" "mutex_step r ?c1 ?c2" "mutex_step r ?c2 ?c3" "mutex_step r ?c3 ?c4"
    by (rule mutex_step.intros; simp add: mutex_conf_init_def)+
  then have "(mutex_step r)\<^sup>*\<^sup>* mutex_conf_init ?c4" by (meson converse_rtranclp_into_rtranclp rtranclp.rtrancl_refl)
  then show ?thesis by (simp add: demo_mutex_conf_def mutex_conf_init_def)
qed


theorem mutex_first_waiter_served_witness:
  "\<exists>c'. (mutex_step False)\<^sup>*\<^sup>* demo_mutex_conf c' \<and> owns (mc_pc c' 2)"
  using mutex_first_waiter_served [OF demo_mutex_conf_reach [of False], of 2 "[]"]
  by (simp add: demo_mutex_conf_def)

end
