(* ===== verification/Rwlock.thy ===== *)
theory Rwlock
  imports Wait_Queue
begin

text \<open>
  Model of \<open>sync/rwlock.c\<close>. A lock is whether it is held, the number of readers that hold it and the
  identity of its spinlock and waiting list. A waiting writer is marked by a thread flag. A blocked
  writer continues with \<open>rwlock_write_lock_resume\<close> when its sleep ends.
\<close>

section \<open>Operations\<close>

record rwlock =
  rw_held :: nat
  rw_readers :: nat
  rw_wait :: nat

definition rwlock_init :: "nat \<Rightarrow> ksys \<Rightarrow> rwlock \<times> ksys" where
  "rwlock_init q s =
     (\<lparr>rw_held = 0, rw_readers = 0, rw_wait = q\<rparr>,
      s\<lparr>ks_locks := (ks_locks s)(WaitLock q := spinlock_init), ks_waitq := (ks_waitq s)(q := [])\<rparr>)"

definition is_writer :: "ksys \<Rightarrow> nat \<Rightarrow> bool" where
  "is_writer s t \<longleftrightarrow> th_flags (thread_of s t) AND THREAD_RWLOCK_WRITER \<noteq> 0"

text \<open>The loop over the queued threads; each iteration has saved its successor before the body.\<close>

fun rwlock_transfer_loop :: "nat list \<Rightarrow> rwlock \<Rightarrow> ksys \<Rightarrow> (rwlock \<times> ksys) option" where
  "rwlock_transfer_loop [] lock s = Some (lock, s)"
| "rwlock_transfer_loop (t # ts) lock s =
     (if is_writer s t \<and> rw_readers lock \<noteq> 0 then Some (lock, s)
      else do {
        s \<leftarrow> thread_wake t s;
        if is_writer s t then Some (lock, s)
        else rwlock_transfer_loop ts (lock\<lparr>rw_readers := size_inc (rw_readers lock)\<rparr>) s})"

definition rwlock_transfer_ownership :: "rwlock \<Rightarrow> ksys \<Rightarrow> (rwlock \<times> ksys) option" where
  "rwlock_transfer_ownership lock s =
     (if ks_waitq s (rw_wait lock) = []
      then Some (if rw_readers lock = 0 then lock\<lparr>rw_held := 0\<rparr> else lock, s)
      else rwlock_transfer_loop (ks_waitq s (rw_wait lock)) lock s)"

definition rwlock_read_lock_etc ::
  "rwlock \<Rightarrow> int \<Rightarrow> u32 \<Rightarrow> ksys \<Rightarrow> (sleep_result \<times> rwlock \<times> ksys) option" where
  "rwlock_read_lock_etc lock timeout flags s = do {
     s \<leftarrow> ks_lock (WaitLock (rw_wait lock)) s;
     if rw_held lock \<noteq> 0 \<and> (rw_readers lock = 0 \<or> ks_waitq s (rw_wait lock) \<noteq> [])
     then do {
       let s = wait_append (rw_wait lock) (curr_thread s) s;
       (r, s) \<leftarrow> thread_sleep (Some (WaitLock (rw_wait lock))) timeout flags s;
       Some (r, lock, s)}
     else do {
       let lock = (if rw_held lock \<noteq> 0 then lock else lock\<lparr>rw_held := 1\<rparr>);
       let lock = lock\<lparr>rw_readers := size_inc (rw_readers lock)\<rparr>;
       s \<leftarrow> ks_unlock (WaitLock (rw_wait lock)) s;
       Some (Returned STATUS_SUCCESS, lock, s)}}"

definition rwlock_write_lock_resume ::
  "status \<Rightarrow> rwlock \<Rightarrow> ksys \<Rightarrow> (sleep_result \<times> rwlock \<times> ksys) option" where
  "rwlock_write_lock_resume ret lock s = do {
     let s = upd_thread (curr_thread s) (\<lambda>x. x\<lparr>th_flags := th_flags x AND NOT THREAD_RWLOCK_WRITER\<rparr>) s;
     if ret \<noteq> STATUS_SUCCESS
     then do {
       s \<leftarrow> ks_lock (WaitLock (rw_wait lock)) s;
       (lock, s) \<leftarrow> (if rw_readers lock \<noteq> 0 then rwlock_transfer_ownership lock s else Some (lock, s));
       s \<leftarrow> ks_unlock (WaitLock (rw_wait lock)) s;
       Some (Returned ret, lock, s)}
     else Some (Returned ret, lock, s)}"

definition rwlock_write_lock_etc ::
  "rwlock \<Rightarrow> int \<Rightarrow> u32 \<Rightarrow> ksys \<Rightarrow> (sleep_result \<times> rwlock \<times> ksys) option" where
  "rwlock_write_lock_etc lock timeout flags s = do {
     s \<leftarrow> ks_lock (WaitLock (rw_wait lock)) s;
     if rw_held lock \<noteq> 0
     then do {
       let s = upd_thread (curr_thread s) (\<lambda>x. x\<lparr>th_flags := th_flags x OR THREAD_RWLOCK_WRITER\<rparr>) s;
       let s = wait_append (rw_wait lock) (curr_thread s) s;
       (r, s) \<leftarrow> thread_sleep (Some (WaitLock (rw_wait lock))) timeout flags s;
       case r of
         Returned ret \<Rightarrow> rwlock_write_lock_resume ret lock s
       | Asleep \<Rightarrow> Some (Asleep, lock, s)}
     else do {
       let lock = lock\<lparr>rw_held := 1\<rparr>;
       s \<leftarrow> ks_unlock (WaitLock (rw_wait lock)) s;
       Some (Returned STATUS_SUCCESS, lock, s)}}"

definition rwlock_read_lock :: "rwlock \<Rightarrow> ksys \<Rightarrow> (sleep_result \<times> rwlock \<times> ksys) option" where
  "rwlock_read_lock lock s = rwlock_read_lock_etc lock (-1) 0 s"

definition rwlock_write_lock :: "rwlock \<Rightarrow> ksys \<Rightarrow> (sleep_result \<times> rwlock \<times> ksys) option" where
  "rwlock_write_lock lock s = rwlock_write_lock_etc lock (-1) 0 s"

definition rwlock_unlock :: "rwlock \<Rightarrow> ksys \<Rightarrow> (rwlock \<times> ksys) option" where
  "rwlock_unlock lock s = do {
     s \<leftarrow> ks_lock (WaitLock (rw_wait lock)) s;
     assert_k (rw_held lock \<noteq> 0);
     (lock, s) \<leftarrow> (if rw_readers lock = 0 then rwlock_transfer_ownership lock s
                   else let lock = lock\<lparr>rw_readers := size_dec (rw_readers lock)\<rparr>
                        in if rw_readers lock = 0 then rwlock_transfer_ownership lock s
                           else Some (lock, s));
     s \<leftarrow> ks_unlock (WaitLock (rw_wait lock)) s;
     Some (lock, s)}"

section \<open>Transfer of ownership: correctness\<close>

text \<open>
  The threads let in: with readers inside, the readers at the front of the queue; with none, a writer
  at the front, alone, or else the readers at the front.
\<close>

definition rw_admitted :: "(nat \<Rightarrow> bool) \<Rightarrow> nat \<Rightarrow> nat list \<Rightarrow> nat list" where
  "rw_admitted writer readers w =
     (case w of
        [] \<Rightarrow> []
      | t # _ \<Rightarrow> if readers = 0 \<and> writer t then [t] else takeWhile (\<lambda>t. \<not> writer t) w)"

lemma writer_flag_kept: "(f AND NOT THREAD_INTERRUPTIBLE) AND THREAD_RWLOCK_WRITER = f AND THREAD_RWLOCK_WRITER"
  by (simp add: flag_defs and.assoc)

lemma woken_writer: "woken_up s s' t \<Longrightarrow> is_writer s' t = is_writer s t"
  by (simp add: woken_up_def is_writer_def writer_flag_kept)

text \<open>The threads of a list have been woken, all others are unchanged.\<close>

definition rw_woken :: "ksys \<Rightarrow> ksys \<Rightarrow> nat list \<Rightarrow> bool" where
  "rw_woken s s' ts \<longleftrightarrow> (\<forall>t\<in>set ts. th_state (thread_of s' t) = THREAD_READY)
     \<and> (\<forall>t. t \<notin> set ts \<longrightarrow> thread_of s' t = thread_of s t)"

lemma rw_woken_Cons:
  assumes "woken_up s s1 t" and "\<forall>u. u \<noteq> t \<longrightarrow> thread_of s1 u = thread_of s u" and "rw_woken s1 s' ts"
    and "t \<notin> set ts"
  shows "rw_woken s s' (t # ts)"
  using assms unfolding rw_woken_def woken_up_def by (metis set_ConsD list.set_intros)

text \<open>Letting readers in, behind at least one that is inside.\<close>

lemma transfer_readers_ok:
  assumes "sync_inv s" and "holds {q} s" and "q = rw_wait lock" and "ks_waitq s q = w"
    and "0 < rw_readers lock" and "rw_readers lock + length w < 2 ^ 64"
    and "ts = takeWhile (\<lambda>t. \<not> is_writer s t) w"
  shows "\<exists>s'. rwlock_transfer_loop w lock s = Some (lock\<lparr>rw_readers := rw_readers lock + length ts\<rparr>, s')
    \<and> sync_inv s' \<and> sync_frame s s' \<and> ks_waitq s' = (ks_waitq s)(q := drop (length ts) w) \<and> rw_woken s s' ts"
  using assms
proof (induction w arbitrary: s lock ts)
  case Nil
  then show ?case by (auto simp: rw_woken_def fun_upd_idem)
next
  case (Cons t w)
  show ?case
  proof (cases "is_writer s t")
    case True
    with Cons.prems show ?thesis by (auto simp: rw_woken_def fun_upd_idem)
  next
    case False
    obtain s1 where s1: "thread_wake t s = Some s1" "sync_inv s1" "sync_frame s s1" "woken_up s s1 t"
        "ks_waitq s1 = (ks_waitq s)(q := w)" "\<forall>u. u \<noteq> t \<longrightarrow> thread_of s1 u = thread_of s u"
      using wait_first_woken [OF Cons.prems(1,2) _ Cons.prems(4)] by blast
    let ?l = "lock\<lparr>rw_readers := size_inc (rw_readers lock)\<rparr>"
    let ?ts = "takeWhile (\<lambda>t. \<not> is_writer s1 t) w"
    have tw: "t \<notin> set w" using sync_invD(2) [OF Cons.prems(1), of q] Cons.prems(4) by simp
    have same: "is_writer s1 u = is_writer s u" if "u \<in> set w" for u
      using that tw s1(6) by (auto simp: is_writer_def)
    have ts: "ts = t # ?ts" using Cons.prems(7) False same by (auto intro: takeWhile_cong)
    have t': "t \<notin> set ?ts" using tw by (auto dest: set_takeWhileD)
    have r: "rw_readers ?l = rw_readers lock + 1"
      using Cons.prems(6) by (simp add: size_inc_def)
    have h1: "holds {q} s1" "ks_waitq s1 q = w" "q = rw_wait ?l"
      using Cons.prems(2,3) sync_frame_holds [OF s1(3)] s1(5) by simp_all
    have pr: "0 < rw_readers ?l" "rw_readers ?l + length w < 2 ^ 64" using Cons.prems(6) r by simp_all
    obtain s' where s': "rwlock_transfer_loop w ?l s1 = Some (?l\<lparr>rw_readers := rw_readers ?l + length ?ts\<rparr>, s')"
        "sync_inv s'" "sync_frame s1 s'" "ks_waitq s' = (ks_waitq s)(q := drop (length ?ts) w)" "rw_woken s1 s' ?ts"
      using Cons.IH [OF s1(2) h1(1,3,2) pr refl] unfolding s1(5) fun_upd_upd by blast
    have "rwlock_transfer_loop (t # w) lock s = Some (lock\<lparr>rw_readers := rw_readers lock + length ts\<rparr>, s')"
      using False s1(1) woken_writer [OF s1(4)] s'(1) r ts by simp
    then show ?thesis
      using s'(2,4) sync_frame_trans [OF s1(3) s'(3)] rw_woken_Cons [OF s1(4,6) s'(5) t'] ts
      by (simp add: fun_eq_iff)
  qed
qed

lemma transfer_ok:
  assumes inv: "sync_inv s" and held: "holds {q} s" and q: "q = rw_wait lock" and w: "ks_waitq s q = w"
    and fits: "rw_readers lock + length w < 2 ^ 64" and ts: "ts = rw_admitted (is_writer s) (rw_readers lock) w"
  shows "\<exists>s'. rwlock_transfer_ownership lock s
      = Some (lock\<lparr>rw_held := (if w = [] \<and> rw_readers lock = 0 then 0 else rw_held lock),
          rw_readers := rw_readers lock + length (filter (\<lambda>t. \<not> is_writer s t) ts)\<rparr>, s')
    \<and> sync_inv s' \<and> sync_frame s s' \<and> ks_waitq s' = (ks_waitq s)(q := drop (length ts) w) \<and> rw_woken s s' ts"
proof (cases w)
  case Nil
  then show ?thesis
    using assms by (auto simp: rwlock_transfer_ownership_def rw_admitted_def rw_woken_def fun_upd_idem)
next
  case (Cons t w')
  have eq: "rwlock_transfer_ownership lock s = rwlock_transfer_loop w lock s"
    using Cons w q by (simp add: rwlock_transfer_ownership_def)
  show ?thesis
  proof (cases "0 < rw_readers lock")
    case True
    have ts': "ts = takeWhile (\<lambda>t. \<not> is_writer s t) w" using ts True Cons by (simp add: rw_admitted_def)
    then have "filter (\<lambda>t. \<not> is_writer s t) ts = ts" by (auto simp: filter_id_conv dest: set_takeWhileD)
    with transfer_readers_ok [OF inv held q w True fits ts'] True show ?thesis unfolding eq by simp
  next
    case False
    obtain s1 where s1: "thread_wake t s = Some s1" "sync_inv s1" "sync_frame s s1" "woken_up s s1 t"
        "ks_waitq s1 = (ks_waitq s)(q := w')" "\<forall>u. u \<noteq> t \<longrightarrow> thread_of s1 u = thread_of s u"
      using wait_first_woken [OF inv held _ w [unfolded Cons]] by blast
    show ?thesis
    proof (cases "is_writer s t")
      case True
      then have "ts = [t]" using ts False Cons by (simp add: rw_admitted_def)
      with s1 True False Cons woken_writer [OF s1(4)] show ?thesis
        unfolding eq by (auto simp: rw_woken_def woken_up_def)
    next
      case reader: False
      let ?l = "lock\<lparr>rw_readers := size_inc (rw_readers lock)\<rparr>" let ?ts = "takeWhile (\<lambda>t. \<not> is_writer s1 t) w'"
      have tw: "t \<notin> set w'" using sync_invD(2) [OF inv, of q] w Cons by simp
      have same: "is_writer s1 u = is_writer s u" if "u \<in> set w'" for u
        using that tw s1(6) by (auto simp: is_writer_def)
      have ts': "ts = t # ?ts" using ts False Cons reader same by (auto simp: rw_admitted_def intro: takeWhile_cong)
      have t': "t \<notin> set ?ts" using tw by (auto dest: set_takeWhileD)
      have r: "rw_readers ?l = 1" using False by (simp add: size_inc_def)
      have all: "filter (\<lambda>t. \<not> is_writer s t) ts = ts"
        using ts False Cons reader by (auto simp: rw_admitted_def filter_id_conv dest: set_takeWhileD)
      have pr: "holds {q} s1" "q = rw_wait ?l" "ks_waitq s1 q = w'" "0 < rw_readers ?l"
          "rw_readers ?l + length w' < 2 ^ 64"
        using held q sync_frame_holds [OF s1(3)] s1(5) fits Cons r by simp_all
      obtain s' where s': "rwlock_transfer_loop w' ?l s1 = Some (?l\<lparr>rw_readers := rw_readers ?l + length ?ts\<rparr>, s')"
          "sync_inv s'" "sync_frame s1 s'" "ks_waitq s' = (ks_waitq s)(q := drop (length ?ts) w')" "rw_woken s1 s' ?ts"
        using transfer_readers_ok [OF s1(2) pr refl] unfolding s1(5) fun_upd_upd by blast
      have "rwlock_transfer_ownership lock s = Some (lock\<lparr>rw_readers := length ts\<rparr>, s')"
        unfolding eq using Cons reader s1(1) woken_writer [OF s1(4)] s'(1) r ts' by simp
      then show ?thesis
        using s'(2,4) sync_frame_trans [OF s1(3) s'(3)] rw_woken_Cons [OF s1(4,6) s'(5) t'] ts' all False Cons
        by (auto simp: fun_upd_def)
    qed
  qed
qed

section \<open>Properties\<close>

text \<open>
  The state of a lock with its waiting list: a free lock has no readers and no waiters, and the
  number of readers and waiters together does not reach the limit of the counter.
\<close>

definition rwlock_ok :: "rwlock \<Rightarrow> ksys \<Rightarrow> bool" where
  "rwlock_ok lock s \<longleftrightarrow> (rw_held lock = 0 \<longrightarrow> rw_readers lock = 0 \<and> ks_waitq s (rw_wait lock) = [])
     \<and> rw_readers lock + length (ks_waitq s (rw_wait lock)) < 2 ^ 64 - 1"

lemma rw_admitted_length: "length (rw_admitted wr n w) \<le> length w"
  by (simp add: rw_admitted_def length_takeWhile_le split: list.split)

text \<open>
  Property C32. Releasing a readers-writer lock. A reader that is not the last one only lowers the
  count. When the last holder leaves, a writer at the front of the queue gets the lock alone, or else
  all readers up to the first waiting writer get it together, in both cases without the lock ever being
  free in between; if nobody waits the lock becomes free. The others keep waiting in order.\<close>

theorem rwlock_unlock_correct:
  assumes "sync_inv s" and "locks_free s" and "rw_held lock \<noteq> 0" and "rwlock_ok lock s"
    and "w = ks_waitq s (rw_wait lock)" and "ts = rw_admitted (is_writer s) 0 w"
  shows "\<exists>lock' s'. rwlock_unlock lock s = Some (lock', s') \<and> sync_inv s' \<and> locks_free s' \<and> ks_irq s' = ks_irq s
    \<and> rwlock_ok lock' s'
    \<and> (if 1 < rw_readers lock
       then lock' = lock\<lparr>rw_readers := rw_readers lock - 1\<rparr> \<and> ks_waitq s' = ks_waitq s
         \<and> ks_threads s' = ks_threads s
       else rw_held lock' = (if w = [] then 0 else rw_held lock)
         \<and> rw_readers lock' = length (filter (\<lambda>t. \<not> is_writer s t) ts)
         \<and> ks_waitq s' = (ks_waitq s)(rw_wait lock := drop (length ts) w) \<and> rw_woken s s' ts)"
proof -
  let ?q = "rw_wait lock" let ?s = "object_locked ?q s"
  note l = object_lock [OF assms(2), of ?q] object_locked_holds [OF assms(2), of ?q]
  have isw: "is_writer ?s = is_writer s" by (simp add: is_writer_def fun_eq_iff)
  define lock1 where "lock1 = (if rw_readers lock = 0 then lock else lock\<lparr>rw_readers := size_dec (rw_readers lock)\<rparr>)"
  have fit: "rw_readers lock + length w < 2 ^ 64 - 1" using assms(4,5) by (simp add: rwlock_ok_def)
  have l1: "rw_wait lock1 = ?q" "rw_held lock1 = rw_held lock" "rw_readers lock1 = rw_readers lock - 1"
    using size_dec_pos [of "rw_readers lock"] fit by (auto simp: lock1_def)
  have ul: "rwlock_unlock lock s = do {
      (lock, s) \<leftarrow> (if rw_readers lock1 = 0 then rwlock_transfer_ownership lock1 ?s else Some (lock1, ?s));
      s \<leftarrow> ks_unlock (WaitLock (rw_wait lock)) s; Some (lock, s)}"
    using assms(3) by (simp add: rwlock_unlock_def l(1) lock1_def Let_def)
  show ?thesis
  proof (cases "1 < rw_readers lock")
    case True
    obtain k where "ks_unlock (WaitLock ?q) ?s = Some (?s\<lparr>ks_irq := ks_irq s, ks_locks := k\<rparr>)" "\<forall>r. sl_value (k r) = 1"
      using object_unlock [OF l(2)] by auto
    moreover have "lock1 = lock\<lparr>rw_readers := rw_readers lock - 1\<rparr>"
      using True size_dec_pos [of "rw_readers lock"] fit by (auto simp: lock1_def)
    ultimately show ?thesis
      unfolding ul using True l1 assms(1,3,4) by (auto simp: rwlock_ok_def)
  next
    case False
    then have r0: "rw_readers lock1 = 0" using l1(3) by simp
    have f1: "rw_readers lock1 + length w < 2 ^ 64" using fit r0 by simp
    obtain s1 where s1: "rwlock_transfer_ownership lock1 ?s
        = Some (lock1\<lparr>rw_held := (if w = [] then 0 else rw_held lock1), rw_readers := length (filter (\<lambda>t. \<not> is_writer s t) ts)\<rparr>, s1)"
        "sync_inv s1" "sync_frame ?s s1" "ks_waitq s1 = (ks_waitq s)(?q := drop (length ts) w)" "rw_woken ?s s1 ts"
    proof -
      have "sync_inv ?s" "holds {?q} ?s" "?q = rw_wait lock1" "ks_waitq ?s ?q = w"
        using assms(1,5) l(2) l1(1) by simp_all
      from transfer_ok [OF this f1] assms(6) that show ?thesis by (simp add: isw r0) blast
    qed
    from object_frame(4) [OF s1(3) assms(2)] obtain k where
        k: "ks_unlock (WaitLock ?q) s1 = Some (s1\<lparr>ks_irq := ks_irq s, ks_locks := k\<rparr>)" "\<forall>r. sl_value (k r) = 1"
      by blast
    let ?lock = "lock1\<lparr>rw_held := (if w = [] then 0 else rw_held lock1), rw_readers := length (filter (\<lambda>t. \<not> is_writer s t) ts)\<rparr>"
    let ?s' = "s1\<lparr>ks_irq := ks_irq s, ks_locks := k\<rparr>"
    have "rwlock_unlock lock s = Some (?lock, ?s')"
      unfolding ul using r0 s1(1) k(1) l1(1) by simp
    moreover have "rwlock_ok ?lock ?s'"
    proof -
      have "length (filter (\<lambda>t. \<not> is_writer s t) ts) \<le> length ts" "length ts \<le> length w"
        using rw_admitted_length assms(6) by auto
      then have "length (filter (\<lambda>t. \<not> is_writer s t) ts) + (length w - length ts) \<le> length w" by linarith
      moreover have "w = [] \<Longrightarrow> ts = []" using assms(6) by (simp add: rw_admitted_def)
      ultimately show ?thesis
        using assms(3) fit s1(4) by (auto simp: rwlock_ok_def l1)
    qed
    ultimately show ?thesis
      using s1 k(2) False l1 by (auto simp: rw_woken_def)
  qed
qed

text \<open>
  Further property. Taking the lock for reading succeeds at once exactly when the lock is free, or held by
  readers with nobody waiting; otherwise the caller queues behind the waiters (so that readers do not
  starve a waiting writer), or returns the error with nothing changed.\<close>

theorem rwlock_read_lock_correct:
  assumes "sync_inv s" and "locks_free s" and "caller_ok s" and "rwlock_ok lock s"
    and "t = curr_thread s" and "q = rw_wait lock"
  shows "\<exists>r lock' s'. rwlock_read_lock_etc lock timeout flags s = Some (r, lock', s')
    \<and> sync_inv s' \<and> locks_free s'
    \<and> (if rw_held lock = 0 \<or> 0 < rw_readers lock \<and> ks_waitq s q = []
       then r = Returned STATUS_SUCCESS \<and> rw_held lock' \<noteq> 0 \<and> rw_readers lock' = rw_readers lock + 1
         \<and> ks_waitq s' = ks_waitq s \<and> ks_irq s' = ks_irq s
       else lock' = lock \<and> (case sleep_cancelled flags timeout s of
           Some ret \<Rightarrow> r = Returned ret \<and> ks_waitq s' = ks_waitq s \<and> ks_threads s' = ks_threads s
         | None \<Rightarrow> r = Asleep \<and> ks_waitq s' = (ks_waitq s)(q := ks_waitq s q @ [t])
             \<and> th_state (thread_of s' t) = THREAD_SLEEPING))"
proof -
  let ?s = "object_locked q s"
  note l = object_lock [OF assms(2), of q] object_locked_holds [OF assms(2), of q]
  show ?thesis
  proof (cases "rw_held lock = 0 \<or> 0 < rw_readers lock \<and> ks_waitq s q = []")
    case True
    obtain k where "ks_unlock (WaitLock q) ?s = Some (?s\<lparr>ks_irq := ks_irq s, ks_locks := k\<rparr>)" "\<forall>r. sl_value (k r) = 1"
      using object_unlock [OF l(2)] by auto
    moreover have "size_inc (rw_readers lock) = rw_readers lock + 1"
      using assms(4) by (simp add: rwlock_ok_def size_inc_def)
    ultimately show ?thesis
      using True l(1) assms by (auto simp: rwlock_read_lock_etc_def)
  next
    case False
    show ?thesis
    proof (cases "sleep_cancelled flags timeout s")
      case None
      with wait_blocked [of ?s q flags timeout t] l False assms show ?thesis
        by (simp add: rwlock_read_lock_etc_def) blast
    next
      case (Some ret)
      with wait_cancelled [of ?s q flags timeout ret] l False assms show ?thesis
        by (simp add: rwlock_read_lock_etc_def) force
    qed
  qed
qed

section \<open>Witnesses\<close>

definition demo_rwlock :: rwlock where
  "demo_rwlock = \<lparr>rw_held = 1, rw_readers = 0, rw_wait = 0\<rparr>"

theorem rwlock_unlock_correct_witness:
  "\<exists>lock' s'. rwlock_unlock demo_rwlock demo_sys = Some (lock', s') \<and> rw_readers lock' = 1
     \<and> rw_held lock' = 1 \<and> ks_waitq s' 0 = []"
proof -
  have "\<not> is_writer demo_sys 3" by (simp add: is_writer_def flag_defs)
  then have adm: "rw_admitted (is_writer demo_sys) 0 [3] = [3]" "filter (\<lambda>t. \<not> is_writer demo_sys t) [3] = [3]"
    by (simp_all add: rw_admitted_def)
  have "rw_held demo_rwlock \<noteq> 0" "rwlock_ok demo_rwlock demo_sys" "[3] = ks_waitq demo_sys (rw_wait demo_rwlock)"
    by (simp_all add: rwlock_ok_def demo_rwlock_def)
  from rwlock_unlock_correct [OF demo_sync_inv demo_locks_free this refl] show ?thesis
    unfolding adm by (auto simp: demo_rwlock_def)
qed

theorem rwlock_read_lock_correct_witness:
  "\<exists>s'. rwlock_read_lock_etc demo_rwlock (-1) 0 demo_sys = Some (Asleep, demo_rwlock, s') \<and> ks_waitq s' 0 = [3, 1]"
proof -
  have "sleep_cancelled 0 (-1) demo_sys = None" by (simp add: sleep_cancelled_def sleep_timeout_def)
  then show ?thesis
    using rwlock_read_lock_correct [of demo_sys demo_rwlock 1 0 "-1" 0]
    by (auto simp: demo_rwlock_def rwlock_ok_def)
qed

end
