(* ===== verification/Kernel_Memory.thy ===== *)
theory Kernel_Memory
  imports Kernel_Prelude
begin

text \<open>
  Byte addressed memory and the block functions of \<open>lib/string.c\<close>. A memory maps the accessible
  addresses to their bytes; an access to any other address faults (\<open>None\<close>). Pointers are natural
  numbers. \<open>unsigned long\<close> accesses are 8 bytes, little-endian.

  \<open>memcpy\<close> aligns the destination, copies by words (unrolled four times), then by bytes. The theorems
  state that it does the same as the plain forward copy, and that \<open>memmove\<close> is right for every overlap.
\<close>

type_synonym mem = "nat \<rightharpoonup> u8"

section \<open>Access\<close>

definition store :: "nat \<Rightarrow> u8 \<Rightarrow> mem \<Rightarrow> mem option" where
  "store a v m = (if m a = None then None else Some (m(a \<mapsto> v)))"

text \<open>An \<open>unsigned long\<close> is kept as its eight bytes, in address order.\<close>

fun load_bytes :: "nat \<Rightarrow> nat \<Rightarrow> mem \<Rightarrow> u8 list option" where
  "load_bytes 0 a m = Some []"
| "load_bytes (Suc n) a m = do {b \<leftarrow> m a; bs \<leftarrow> load_bytes n (a + 1) m; Some (b # bs)}"

fun store_bytes :: "u8 list \<Rightarrow> nat \<Rightarrow> mem \<Rightarrow> mem option" where
  "store_bytes [] a m = Some m"
| "store_bytes (b # bs) a m = Option.bind (store a b m) (store_bytes bs (a + 1))"

section \<open>Copying and filling\<close>

text \<open>\<open>*d++ = *s++\<close> on bytes, and on words.\<close>

definition copy_byte :: "nat \<Rightarrow> nat \<Rightarrow> mem \<Rightarrow> mem option" where
  "copy_byte d s m = do {b \<leftarrow> m s; store d b m}"

definition copy_long :: "nat \<Rightarrow> nat \<Rightarrow> mem \<Rightarrow> mem option" where
  "copy_long d s m = do {bs \<leftarrow> load_bytes 8 s m; store_bytes bs d m}"

fun memcpy_bytes :: "nat \<Rightarrow> nat \<Rightarrow> nat \<Rightarrow> mem \<Rightarrow> mem option" where
  "memcpy_bytes d s 0 m = Some m"
| "memcpy_bytes d s (Suc count) m = Option.bind (copy_byte d s m) (memcpy_bytes (d + 1) (s + 1) count)"

function memcpy_longs :: "nat \<Rightarrow> nat \<Rightarrow> nat \<Rightarrow> mem \<Rightarrow> (nat \<times> nat \<times> nat \<times> mem) option" where
  "memcpy_longs d s count m =
     (if 8 \<le> count then do {m \<leftarrow> copy_long d s m; memcpy_longs (d + 8) (s + 8) (count - 8) m}
      else Some (d, s, count, m))"
  by auto
termination by (relation "measure (\<lambda>(_, _, count, _). count)") auto

function memcpy_unrolled :: "nat \<Rightarrow> nat \<Rightarrow> nat \<Rightarrow> mem \<Rightarrow> (nat \<times> nat \<times> nat \<times> mem) option" where
  "memcpy_unrolled d s count m =
     (if 8 * 4 \<le> count
      then do {
        m \<leftarrow> copy_long d s m;
        m \<leftarrow> copy_long (d + 8) (s + 8) m;
        m \<leftarrow> copy_long (d + 16) (s + 16) m;
        m \<leftarrow> copy_long (d + 24) (s + 24) m;
        memcpy_unrolled (d + 32) (s + 32) (count - 32) m}
      else Some (d, s, count, m))"
  by auto
termination by (relation "measure (\<lambda>(_, _, count, _). count)") auto

declare memcpy_longs.simps [simp del] memcpy_unrolled.simps [simp del]

text \<open>The part of \<open>memcpy\<close> after the alignment loop.\<close>

definition memcpy_aligned :: "nat \<Rightarrow> nat \<Rightarrow> nat \<Rightarrow> mem \<Rightarrow> mem option" where
  "memcpy_aligned d s count m =
     (if 8 \<le> count
      then do {
        (d, s, count, m) \<leftarrow> memcpy_unrolled d s count m;
        (d, s, count, m) \<leftarrow> memcpy_longs d s count m;
        memcpy_bytes d s count m}
      else memcpy_bytes d s count m)"

fun memcpy :: "nat \<Rightarrow> nat \<Rightarrow> nat \<Rightarrow> mem \<Rightarrow> mem option" where
  "memcpy d s count m =
     (if d mod 8 \<noteq> 0
      then case count of
             Suc n \<Rightarrow> Option.bind (copy_byte d s m) (memcpy (d + 1) (s + 1) n)
           | 0 \<Rightarrow> Some m
      else memcpy_aligned d s count m)"

declare memcpy.simps [simp del]

fun memset_bytes :: "nat \<Rightarrow> u8 \<Rightarrow> nat \<Rightarrow> mem \<Rightarrow> mem option" where
  "memset_bytes d c 0 m = Some m"
| "memset_bytes d c (Suc count) m = Option.bind (store d c m) (memset_bytes (d + 1) c count)"

text \<open>\<open>c * 0x0101010101010101\<close> is the byte repeated.\<close>

definition long_of_byte :: "u8 \<Rightarrow> u64" where
  "long_of_byte c = ucast c * 0x0101010101010101"

definition long_bytes :: "u64 \<Rightarrow> u8 list" where
  "long_bytes v = map (\<lambda>i. ucast (drop_bit (8 * i) v)) [0..<8]"

function memset_longs :: "nat \<Rightarrow> u64 \<Rightarrow> nat \<Rightarrow> mem \<Rightarrow> (nat \<times> nat \<times> mem) option" where
  "memset_longs d nval count m =
     (if 8 \<le> count
      then do {m \<leftarrow> store_bytes (long_bytes nval) d m; memset_longs (d + 8) nval (count - 8) m}
      else Some (d, count, m))"
  by auto
termination by (relation "measure (\<lambda>(_, _, count, _). count)") auto

function memset_unrolled :: "nat \<Rightarrow> u64 \<Rightarrow> nat \<Rightarrow> mem \<Rightarrow> (nat \<times> nat \<times> mem) option" where
  "memset_unrolled d nval count m =
     (if 8 * 4 \<le> count
      then do {
        m \<leftarrow> store_bytes (long_bytes nval) d m;
        m \<leftarrow> store_bytes (long_bytes nval) (d + 8) m;
        m \<leftarrow> store_bytes (long_bytes nval) (d + 16) m;
        m \<leftarrow> store_bytes (long_bytes nval) (d + 24) m;
        memset_unrolled (d + 32) nval (count - 32) m}
      else Some (d, count, m))"
  by auto
termination by (relation "measure (\<lambda>(_, _, count, _). count)") auto

declare memset_longs.simps [simp del] memset_unrolled.simps [simp del]

definition memset_aligned :: "nat \<Rightarrow> u8 \<Rightarrow> nat \<Rightarrow> mem \<Rightarrow> mem option" where
  "memset_aligned d c count m =
     (if 8 \<le> count
      then do {
        (d, count, m) \<leftarrow> memset_unrolled d (long_of_byte c) count m;
        (d, count, m) \<leftarrow> memset_longs d (long_of_byte c) count m;
        memset_bytes d c count m}
      else memset_bytes d c count m)"

fun memset_from :: "nat \<Rightarrow> u8 \<Rightarrow> nat \<Rightarrow> mem \<Rightarrow> mem option" where
  "memset_from d c count m =
     (if d mod 8 \<noteq> 0
      then case count of
             Suc n \<Rightarrow> Option.bind (store d c m) (memset_from (d + 1) c n)
           | 0 \<Rightarrow> Some m
      else memset_aligned d c count m)"

declare memset_from.simps [simp del]

definition memset :: "nat \<Rightarrow> u32 \<Rightarrow> nat \<Rightarrow> mem \<Rightarrow> mem option" where
  "memset dest val count m = memset_from dest (ucast (val AND 0xff)) count m"

text \<open>The backward loop of \<open>memmove\<close>: the pointers are at \<open>d + count - 1\<close> and \<open>s + count - 1\<close>.\<close>

fun memmove_back :: "nat \<Rightarrow> nat \<Rightarrow> nat \<Rightarrow> mem \<Rightarrow> mem option" where
  "memmove_back d s 0 m = Some m"
| "memmove_back d s (Suc count) m = Option.bind (copy_byte (d + count) (s + count) m) (memmove_back d s count)"

definition memmove :: "nat \<Rightarrow> nat \<Rightarrow> nat \<Rightarrow> mem \<Rightarrow> mem option" where
  "memmove dest src count m =
     (if src \<noteq> dest
      then if src > dest then memcpy dest src count m else memmove_back dest src count m
      else Some m)"

fun memcmp :: "nat \<Rightarrow> nat \<Rightarrow> nat \<Rightarrow> mem \<Rightarrow> int option" where
  "memcmp p1 p2 0 m = Some 0"
| "memcmp p1 p2 (Suc count) m = do {
     b1 \<leftarrow> m p1;
     b2 \<leftarrow> m p2;
     if b1 \<noteq> b2 then Some (uint b1 - uint b2) else memcmp (p1 + 1) (p2 + 1) count m}"

section \<open>Specification\<close>

definition accessible :: "nat \<Rightarrow> nat \<Rightarrow> mem \<Rightarrow> bool" where
  "accessible a n m \<longleftrightarrow> (\<forall>i<n. m (a + i) \<noteq> None)"

definition copied :: "nat \<Rightarrow> nat \<Rightarrow> nat \<Rightarrow> mem \<Rightarrow> mem" where
  "copied d s n m = (\<lambda>a. if d \<le> a \<and> a < d + n then m (s + (a - d)) else m a)"

definition filled :: "nat \<Rightarrow> u8 \<Rightarrow> nat \<Rightarrow> mem \<Rightarrow> mem" where
  "filled d c n m = (\<lambda>a. if d \<le> a \<and> a < d + n then Some c else m a)"

text \<open>A forward copy does not overwrite bytes it still has to read.\<close>

definition forward_ok :: "nat \<Rightarrow> nat \<Rightarrow> nat \<Rightarrow> bool" where
  "forward_ok d s n \<longleftrightarrow> d \<le> s \<or> s + n \<le> d"

section \<open>Copying: correctness\<close>

lemma accessibleD: "accessible a n m \<Longrightarrow> i < n \<Longrightarrow> \<exists>b. m (a + i) = Some b"
  by (auto simp: accessible_def)

lemma accessible_shift: "accessible a (k + n) m \<Longrightarrow> accessible (a + k) n m"
  by (auto simp: accessible_def add.assoc dest: spec [of _ "k + _"])

lemma accessible_less: "accessible a n m \<Longrightarrow> k \<le> n \<Longrightarrow> accessible a k m"
  by (simp add: accessible_def)

lemma accessible_copied:
  assumes "accessible a n m" and "accessible s k m"
  shows "accessible a n (copied d s k m)"
proof -
  have "copied d s k m (a + i) \<noteq> None" if "i < n" for i
    using assms that by (cases "d \<le> a + i \<and> a + i < d + k")
      (auto simp: copied_def accessible_def dest: spec [of _ "a + i - d"])
  then show ?thesis by (simp add: accessible_def)
qed

lemma copied_0 [simp]: "copied d s 0 m = m"
  by (rule ext) (auto simp: copied_def)

lemma copied_split:
  assumes "forward_ok d s (k + n)"
  shows "copied (d + k) (s + k) n (copied d s k m) = copied d s (k + n) m"
proof
  fix a
  consider "a < d" | "d \<le> a" "a < d + k" | "d + k \<le> a" "a < d + k + n" | "d + k + n \<le> a" by linarith
  then show "copied (d + k) (s + k) n (copied d s k m) a = copied d s (k + n) m a"
  proof cases
    case 3
    define j where "j = a - (d + k)"
    have j: "a = d + k + j" "j < n" using 3 by (simp_all add: j_def)
    have "\<not> (d \<le> s + k + j \<and> s + k + j < d + k)" using assms j(2) by (auto simp: forward_ok_def)
    then have "copied d s k m (s + k + j) = m (s + k + j)" by (auto simp: copied_def)
    then show ?thesis using j by (simp add: copied_def [of "d + k"] copied_def [of d s "k + n"] add.assoc)
  qed (auto simp: copied_def)
qed

lemma forward_ok_less: "forward_ok d s n \<Longrightarrow> k \<le> n \<Longrightarrow> forward_ok d s k"
  by (auto simp: forward_ok_def)

lemma forward_ok_shift: "forward_ok d s (k + n) \<Longrightarrow> forward_ok (d + k) (s + k) n"
  by (auto simp: forward_ok_def)

lemma load_bytes_ok: "accessible a n m \<Longrightarrow> load_bytes n a m = Some (map (\<lambda>i. the (m (a + i))) [0..<n])"
proof (induction n arbitrary: a)
  case (Suc n)
  obtain b where "m a = Some b" using accessibleD [OF Suc.prems, of 0] by auto
  moreover have "accessible (a + 1) n m" using accessible_shift [of a 1 n m] Suc.prems by simp
  ultimately show ?case
    using Suc.IH by (simp add: upt_conv_Cons map_Suc_upt [symmetric] del: upt_Suc)
qed simp

lemma store_bytes_ok:
  "accessible a (length bs) m \<Longrightarrow>
   store_bytes bs a m = Some (\<lambda>x. if a \<le> x \<and> x < a + length bs then Some (bs ! (x - a)) else m x)"
proof (induction bs arbitrary: a m)
  case Nil
  then show ?case by (auto simp: fun_eq_iff)
next
  case (Cons b bs)
  have "m a \<noteq> None" using accessibleD [OF Cons.prems, of 0] by auto
  moreover have acc: "accessible (a + 1) (length bs) (m(a \<mapsto> b))"
    using accessible_shift [of a 1 "length bs" m] Cons.prems by (simp add: accessible_def)
  ultimately have "store_bytes (b # bs) a m = store_bytes bs (a + 1) (m(a \<mapsto> b))"
    by (auto simp: store_def)
  also have "\<dots> = Some (\<lambda>x. if a + 1 \<le> x \<and> x < a + 1 + length bs then Some (bs ! (x - (a + 1))) else (m(a \<mapsto> b)) x)"
    by (rule Cons.IH [OF acc])
  also have "(\<lambda>x. if a + 1 \<le> x \<and> x < a + 1 + length bs then Some (bs ! (x - (a + 1))) else (m(a \<mapsto> b)) x)
      = (\<lambda>x. if a \<le> x \<and> x < a + length (b # bs) then Some ((b # bs) ! (x - a)) else m x)"
    by (rule ext) (auto simp: nth_Cons')
  finally show ?case .
qed

lemma copy_byte_ok: "accessible s 1 m \<Longrightarrow> accessible d 1 m \<Longrightarrow> copy_byte d s m = Some (copied d s 1 m)"
  by (auto simp: copy_byte_def store_def accessible_def copied_def fun_eq_iff)

lemma copy_long_ok:
  assumes "accessible s 8 m" and "accessible d 8 m"
  shows "copy_long d s m = Some (copied d s 8 m)"
proof -
  let ?bs = "map (\<lambda>i. the (m (s + i))) [0..<8]"
  have "store_bytes ?bs d m = Some (copied d s 8 m)"
  proof -
    have "store_bytes ?bs d m
        = Some (\<lambda>x. if d \<le> x \<and> x < d + length ?bs then Some (?bs ! (x - d)) else m x)"
      by (rule store_bytes_ok) (use assms in simp)
    moreover have "Some (the (m (s + (x - d)))) = m (s + (x - d))" if "d \<le> x" "x < d + 8" for x
      using accessibleD [OF assms(1), of "x - d"] that by fastforce
    ultimately show ?thesis by (auto simp: copied_def fun_eq_iff)
  qed
  then show ?thesis using load_bytes_ok [OF assms(1)] by (simp add: copy_long_def)
qed

text \<open>One step of \<open>k\<close> bytes of a forward copy, and the state it leaves for the rest.\<close>

lemma copied_rest:
  assumes "accessible s (k + n) m" and "accessible d (k + n) m" and "forward_ok d s (k + n)"
  shows "accessible (s + k) n (copied d s k m)" and "accessible (d + k) n (copied d s k m)"
    and "forward_ok (d + k) (s + k) n" and "accessible s k m" and "accessible d k m"
proof -
  show sd: "accessible s k m" "accessible d k m" using assms accessible_less by auto
  show "accessible (s + k) n (copied d s k m)" "accessible (d + k) n (copied d s k m)"
    using accessible_copied [OF accessible_shift [OF assms(1)] sd(1)]
      accessible_copied [OF accessible_shift [OF assms(2)] sd(1)] by auto
  show "forward_ok (d + k) (s + k) n" using forward_ok_shift [OF assms(3)] .
qed

lemma memcpy_bytes_ok:
  "accessible s n m \<Longrightarrow> accessible d n m \<Longrightarrow> forward_ok d s n \<Longrightarrow> memcpy_bytes d s n m = Some (copied d s n m)"
proof (induction n arbitrary: d s m)
  case (Suc n)
  note r = copied_rest [of s 1 n m d, simplified, OF Suc.prems]
  have "copy_byte d s m = Some (copied d s 1 m)" using copy_byte_ok r(4,5) by simp
  moreover have "memcpy_bytes (d + 1) (s + 1) n (copied d s 1 m) = Some (copied (d + 1) (s + 1) n (copied d s 1 m))"
    using Suc.IH r(1-3) by simp
  ultimately show ?case using copied_split [of d s 1 n m] Suc.prems(3) by simp
qed simp

lemma memcpy_longs_ok:
  assumes "accessible s n m" and "accessible d n m" and "forward_ok d s n"
  shows "\<exists>k\<le>n. memcpy_longs d s n m = Some (d + k, s + k, n - k, copied d s k m)"
  using assms
proof (induction d s n m rule: memcpy_longs.induct)
  case (1 d s n m)
  show ?case
  proof (cases "8 \<le> n")
    case False
    then show ?thesis by (subst memcpy_longs.simps) (auto intro: exI [of _ 0])
  next
    case True
    then have n: "n = 8 + (n - 8)" by simp
    note r = copied_rest [of s 8 "n - 8" m d, folded n, OF "1.prems"]
    note step = copy_long_ok [OF r(4,5)]
    obtain k where k: "k \<le> n - 8" "memcpy_longs (d + 8) (s + 8) (n - 8) (copied d s 8 m)
        = Some (d + 8 + k, s + 8 + k, n - 8 - k, copied (d + 8) (s + 8) k (copied d s 8 m))"
      using "1.IH" [OF True step r(1-3)] by blast
    moreover have "copied (d + 8) (s + 8) k (copied d s 8 m) = copied d s (8 + k) m"
      by (rule copied_split) (use "1.prems"(3) forward_ok_less k(1) n in auto)
    ultimately have "memcpy_longs d s n m = Some (d + (8 + k), s + (8 + k), n - (8 + k), copied d s (8 + k) m)"
      using True step by (subst memcpy_longs.simps) (simp add: add.assoc)
    moreover have "8 + k \<le> n" using True k(1) by simp
    ultimately show ?thesis by blast
  qed
qed

text \<open>The next word after \<open>k\<close> bytes have been copied.\<close>

lemma copy_long_at:
  assumes "accessible s (k + 8) m" and "accessible d (k + 8) m" and "forward_ok d s (k + 8)"
  shows "copy_long (d + k) (s + k) (copied d s k m) = Some (copied d s (k + 8) m)"
  using copy_long_ok copied_rest(1,2) [OF assms] copied_split [OF assms(3)] by metis

lemma memcpy_unrolled_ok:
  assumes "accessible s n m" and "accessible d n m" and "forward_ok d s n"
  shows "\<exists>k\<le>n. memcpy_unrolled d s n m = Some (d + k, s + k, n - k, copied d s k m)"
  using assms
proof (induction d s n m rule: memcpy_unrolled.induct)
  case (1 d s n m)
  show ?case
  proof (cases "32 \<le> n")
    case False
    then show ?thesis by (subst memcpy_unrolled.simps) (auto intro: exI [of _ 0])
  next
    case True
    then have n: "n = 32 + (n - 32)" by simp
    have acc: "accessible s k m" "accessible d k m" "forward_ok d s k" if "k \<le> 32" for k
      using that True accessible_less [OF "1.prems"(1)] accessible_less [OF "1.prems"(2)]
        forward_ok_less [OF "1.prems"(3)] by simp_all
    note r = copied_rest [of s 32 "n - 32" m d, folded n, OF "1.prems"]
    have steps: "copy_long d s m = Some (copied d s 8 m)"
        "copy_long (d + 8) (s + 8) (copied d s 8 m) = Some (copied d s 16 m)"
        "copy_long (d + 16) (s + 16) (copied d s 16 m) = Some (copied d s 24 m)"
        "copy_long (d + 24) (s + 24) (copied d s 24 m) = Some (copied d s 32 m)"
      using copy_long_at [of s 0 m d] copy_long_at [of s 8 m d] copy_long_at [of s 16 m d]
        copy_long_at [of s 24 m d] acc by simp_all
    have le: "8 * 4 \<le> n" using True by simp
    obtain k where k: "k \<le> n - 32" "memcpy_unrolled (d + 32) (s + 32) (n - 32) (copied d s 32 m)
        = Some (d + 32 + k, s + 32 + k, n - 32 - k, copied (d + 32) (s + 32) k (copied d s 32 m))"
      using "1.IH" [OF le steps r(1-3)] by blast
    moreover have "copied (d + 32) (s + 32) k (copied d s 32 m) = copied d s (32 + k) m"
      by (rule copied_split) (use "1.prems"(3) forward_ok_less k(1) n in auto)
    ultimately have "memcpy_unrolled d s n m = Some (d + (32 + k), s + (32 + k), n - (32 + k), copied d s (32 + k) m)"
      using True steps by (subst memcpy_unrolled.simps) (simp add: add.assoc)
    moreover have "32 + k \<le> n" using True k(1) by simp
    ultimately show ?thesis by blast
  qed
qed

lemma memcpy_aligned_ok:
  assumes "accessible s n m" and "accessible d n m" and "forward_ok d s n"
  shows "memcpy_aligned d s n m = Some (copied d s n m)"
proof (cases "8 \<le> n")
  case False
  then show ?thesis using memcpy_bytes_ok [OF assms] by (simp add: memcpy_aligned_def)
next
  case True
  obtain k where k: "k \<le> n" "memcpy_unrolled d s n m = Some (d + k, s + k, n - k, copied d s k m)"
    using memcpy_unrolled_ok [OF assms] by blast
  have n: "k + (n - k) = n" using k(1) by simp
  note r = copied_rest [of s k "n - k" m d, unfolded n, OF assms]
  obtain j where j: "j \<le> n - k" "memcpy_longs (d + k) (s + k) (n - k) (copied d s k m)
      = Some (d + k + j, s + k + j, n - k - j, copied (d + k) (s + k) j (copied d s k m))"
    using memcpy_longs_ok [OF r(1-3)] by blast
  have c: "copied (d + k) (s + k) j (copied d s k m) = copied d s (k + j) m"
    by (rule copied_split) (use assms(3) forward_ok_less j(1) n in auto)
  have n': "k + j + (n - k - j) = n" using k(1) j(1) by simp
  note r' = copied_rest [of s "k + j" "n - k - j" m d, unfolded n', OF assms]
  have "memcpy_bytes (d + (k + j)) (s + (k + j)) (n - k - j) (copied d s (k + j) m) = Some (copied d s n m)"
    using memcpy_bytes_ok [OF r'(1-3)] copied_split [of d s "k + j" "n - k - j" m] n' assms(3) by simp
  then show ?thesis
    using True k(2) j(2) c by (simp add: memcpy_aligned_def add.assoc)
qed

lemma memcpy_ok:
  assumes "accessible s n m" and "accessible d n m" and "forward_ok d s n"
  shows "memcpy d s n m = Some (copied d s n m)"
  using assms
proof (induction d s n m rule: memcpy.induct)
  case (1 d s n m)
  show ?case
  proof (cases "d mod 8 = 0")
    case True
    then show ?thesis using memcpy_aligned_ok [OF "1.prems"] by (subst memcpy.simps) simp
  next
    case False
    show ?thesis
    proof (cases n)
      case 0
      then show ?thesis using False by (subst memcpy.simps) simp
    next
      case (Suc k)
      then have n: "n = 1 + k" by simp
      note r = copied_rest [of s 1 k m d, folded n, OF "1.prems"]
      have step: "copy_byte d s m = Some (copied d s 1 m)" using copy_byte_ok r(4,5) by blast
      have "memcpy (d + 1) (s + 1) k (copied d s 1 m) = Some (copied (d + 1) (s + 1) k (copied d s 1 m))"
        using "1.IH" [OF False Suc step r(1-3)] .
      then show ?thesis
        using False Suc step copied_split [of d s 1 k m] "1.prems"(3) by (subst memcpy.simps) simp
    qed
  qed
qed

lemma memmove_back_ok:
  "accessible s n m \<Longrightarrow> accessible d n m \<Longrightarrow> s < d \<Longrightarrow> memmove_back d s n m = Some (copied d s n m)"
proof (induction n arbitrary: m)
  case (Suc n)
  let ?m = "copied (d + n) (s + n) 1 m"
  have acc: "accessible (s + n) 1 m" "accessible (d + n) 1 m"
    using accessible_shift [of s n 1 m] accessible_shift [of d n 1 m] Suc.prems by simp_all
  have "memmove_back d s n ?m = Some (copied d s n ?m)"
    using Suc accessible_copied [OF accessible_less [OF Suc.prems(1)] acc(1), of n "d + n"]
      accessible_copied [OF accessible_less [OF Suc.prems(2)] acc(1), of n "d + n"] by simp
  moreover have "copied d s n ?m = copied d s (Suc n) m"
  proof
    fix a
    consider "a < d" | j where "a = d + j" "j < n" | "a = d + n" | "d + n < a"
      by (metis add_diff_inverse_nat linorder_neqE_nat nat_add_left_cancel_less)
    then show "copied d s n ?m a = copied d s (Suc n) m a"
      by cases (use Suc.prems(3) in \<open>auto simp: copied_def\<close>)
  qed
  ultimately show ?case using copy_byte_ok [OF acc] by simp
qed simp


text \<open>
  Further property. \<open>memmove\<close> copies the source as it was before the call, whatever the overlap of the two
  ranges, and changes nothing outside the destination.\<close>

theorem memmove_correct:
  assumes "accessible src n m" and "accessible dest n m"
  shows "memmove dest src n m = Some (copied dest src n m)"
proof (cases "src = dest")
  case True
  then have "copied dest src n m = m" by (rule_tac ext) (simp add: copied_def)
  with True show ?thesis by (simp add: memmove_def)
next
  case False
  then show ?thesis
    using memcpy_ok [OF assms] memmove_back_ok [OF assms] by (auto simp: memmove_def forward_ok_def)
qed

section \<open>Filling: correctness\<close>

lemma filled_split: "filled (d + k) c n (filled d c k m) = filled d c (k + n) m"
  by (rule ext) (auto simp: filled_def)

lemma filled_0 [simp]: "filled d c 0 m = m"
  by (rule ext) (auto simp: filled_def)

lemma accessible_filled: "accessible a n m \<Longrightarrow> accessible a n (filled d c k m)"
  by (auto simp: accessible_def filled_def)

lemma byte_of_product:
  fixes u :: int
  assumes "0 \<le> u" "u < 256" "0 < p" "0 \<le> lo" "255 * lo < p"
  shows "(u * (hi * 256 * p + p + lo)) div p mod 256 = u"
proof -
  have ul: "0 \<le> u * lo" "u * lo < p"
  proof -
    show "0 \<le> u * lo" using assms by simp
    have "u * lo \<le> 255 * lo" using assms by (intro mult_right_mono) auto
    then show "u * lo < p" using assms by simp
  qed
  have "u * (hi * 256 * p + p + lo) = (u * hi * 256 + u) * p + u * lo" by (simp add: algebra_simps)
  then have "(u * (hi * 256 * p + p + lo)) div p = u * hi * 256 + u" using ul by simp
  then show ?thesis using assms by simp
qed

lemma uint_long_of_byte: "uint (long_of_byte c) = uint c * 0x0101010101010101"
proof -
  have "uint c < 256" using uint_bounded [of c] by simp
  then have "uint c * 0x0101010101010101 < 2 ^ 64" by simp
  moreover have "uint (ucast c :: u64) = uint c"
    using \<open>uint c < 256\<close> by (simp add: unsigned_ucast_eq take_bit_int_eq_self)
  ultimately show ?thesis
    by (simp add: long_of_byte_def uint_word_ariths take_bit_eq_mod mod_pos_pos_trivial)
qed

lemma byte_of_long:
  assumes "0x0101010101010101 = hi * 256 * 2 ^ n + 2 ^ n + lo" and "0 \<le> lo" and "255 * lo < (2 :: int) ^ n"
  shows "ucast (drop_bit n (long_of_byte c)) = c"
proof (rule word_uint_eqI)
  have "uint c < 256" using uint_bounded [of c] by simp
  then have "(uint c * 0x0101010101010101) div 2 ^ n mod 256 = uint c"
    unfolding assms(1) using assms(2,3) by (intro byte_of_product) auto
  moreover have "uint (drop_bit n (long_of_byte c)) = (uint c * 0x0101010101010101) div 2 ^ n"
    using uint_bounded [of "long_of_byte c"]
    unfolding unsigned_drop_bit_eq uint_long_of_byte [symmetric] by (simp add: drop_bit_eq_div take_bit_int_eq_self)
  ultimately show "uint (ucast (drop_bit n (long_of_byte c)) :: u8) = uint c"
    by (simp add: unsigned_ucast_eq take_bit_eq_mod del: drop_bit_eq_div)
qed

lemma long_bytes_of_byte: "long_bytes (long_of_byte c) = replicate 8 c"
proof -
  have "ucast (drop_bit 0 (long_of_byte c)) = c" "ucast (drop_bit 8 (long_of_byte c)) = c"
      "ucast (drop_bit 16 (long_of_byte c)) = c" "ucast (drop_bit 24 (long_of_byte c)) = c"
      "ucast (drop_bit 32 (long_of_byte c)) = c" "ucast (drop_bit 40 (long_of_byte c)) = c"
      "ucast (drop_bit 48 (long_of_byte c)) = c" "ucast (drop_bit 56 (long_of_byte c)) = c"
    subgoal by (rule byte_of_long [where lo = 0 and hi = "0x01010101010101"]) simp_all
    subgoal by (rule byte_of_long [where lo = 1 and hi = "0x010101010101"]) simp_all
    subgoal by (rule byte_of_long [where lo = "0x0101" and hi = "0x0101010101"]) simp_all
    subgoal by (rule byte_of_long [where lo = "0x010101" and hi = "0x01010101"]) simp_all
    subgoal by (rule byte_of_long [where lo = "0x01010101" and hi = "0x010101"]) simp_all
    subgoal by (rule byte_of_long [where lo = "0x0101010101" and hi = "0x0101"]) simp_all
    subgoal by (rule byte_of_long [where lo = "0x010101010101" and hi = 1]) simp_all
    subgoal by (rule byte_of_long [where lo = "0x01010101010101" and hi = 0]) simp_all
    done
  then show ?thesis by (simp add: long_bytes_def upt_rec numeral_eq_Suc)
qed

lemma store_long_ok:
  assumes "accessible d 8 m"
  shows "store_bytes (long_bytes (long_of_byte c)) d m = Some (filled d c 8 m)"
proof -
  have "store_bytes (replicate 8 c) d m
      = Some (\<lambda>x. if d \<le> x \<and> x < d + length (replicate 8 c) then Some (replicate 8 c ! (x - d)) else m x)"
    by (rule store_bytes_ok) (use assms in simp)
  also have "(\<lambda>x. if d \<le> x \<and> x < d + length (replicate 8 c) then Some (replicate 8 c ! (x - d)) else m x) = filled d c 8 m"
    by (rule ext) (auto simp: filled_def simp del: replicate.simps)
  finally show ?thesis by (simp add: long_bytes_of_byte)
qed

lemma memset_bytes_ok: "accessible d n m \<Longrightarrow> memset_bytes d c n m = Some (filled d c n m)"
proof (induction n arbitrary: d m)
  case 0
  then show ?case by simp
next
  case (Suc n)
  have "store d c m = Some (filled d c 1 m)"
    using accessibleD [OF Suc.prems, of 0] by (auto simp: store_def filled_def fun_eq_iff)
  moreover have "accessible (d + 1) n (filled d c 1 m)"
    using accessible_filled accessible_shift [of d 1 n m] Suc.prems by simp
  ultimately show ?case using Suc.IH filled_split [of d 1 c n m] by simp
qed

lemma memset_longs_ok:
  assumes "accessible d n m"
  shows "\<exists>k\<le>n. memset_longs d (long_of_byte c) n m = Some (d + k, n - k, filled d c k m)"
  using assms
proof (induction d "long_of_byte c" n m rule: memset_longs.induct)
  case (1 d n m)
  show ?case
  proof (cases "8 \<le> n")
    case False
    then show ?thesis by (subst memset_longs.simps) (auto intro!: exI [of _ 0])
  next
    case True
    have acc: "accessible d 8 m" "accessible (d + 8) (n - 8) (filled d c 8 m)"
      using "1.prems" True accessible_less accessible_filled accessible_shift [of d 8 "n - 8" m] by simp_all
    note step = store_long_ok [OF acc(1), of c]
    obtain k where "k \<le> n - 8" "memset_longs (d + 8) (long_of_byte c) (n - 8) (filled d c 8 m)
        = Some (d + 8 + k, n - 8 - k, filled (d + 8) c k (filled d c 8 m))"
      using "1.hyps" [OF True step acc(2)] by blast
    then show ?thesis
      using True step by (subst memset_longs.simps) (auto simp: filled_split add.assoc intro!: exI [of _ "8 + k"])
  qed
qed

lemma store_long_at:
  assumes "accessible d (k + 8) m"
  shows "store_bytes (long_bytes (long_of_byte c)) (d + k) (filled d c k m) = Some (filled d c (k + 8) m)"
  using store_long_ok [OF accessible_filled [OF accessible_shift [OF assms]]] by (simp add: filled_split)

lemma memset_unrolled_ok:
  assumes "accessible d n m"
  shows "\<exists>k\<le>n. memset_unrolled d (long_of_byte c) n m = Some (d + k, n - k, filled d c k m)"
  using assms
proof (induction d "long_of_byte c" n m rule: memset_unrolled.induct)
  case (1 d n m)
  show ?case
  proof (cases "8 * 4 \<le> n")
    case False
    then show ?thesis by (subst memset_unrolled.simps) (auto intro!: exI [of _ 0])
  next
    case True
    have acc: "accessible d k m" if "k \<le> 32" for k using that True accessible_less [OF "1.prems"] by simp
    have rest: "accessible (d + 32) (n - 32) (filled d c 32 m)"
      using "1.prems" True accessible_filled accessible_shift [of d 32 "n - 32" m] by simp
    have steps: "store_bytes (long_bytes (long_of_byte c)) d m = Some (filled d c 8 m)"
        "store_bytes (long_bytes (long_of_byte c)) (d + 8) (filled d c 8 m) = Some (filled d c 16 m)"
        "store_bytes (long_bytes (long_of_byte c)) (d + 16) (filled d c 16 m) = Some (filled d c 24 m)"
        "store_bytes (long_bytes (long_of_byte c)) (d + 24) (filled d c 24 m) = Some (filled d c 32 m)"
      using store_long_at [of d 0 m c] store_long_at [of d 8 m c] store_long_at [of d 16 m c]
        store_long_at [of d 24 m c] acc by simp_all
    obtain k where "k \<le> n - 32" "memset_unrolled (d + 32) (long_of_byte c) (n - 32) (filled d c 32 m)
        = Some (d + 32 + k, n - 32 - k, filled (d + 32) c k (filled d c 32 m))"
      using "1.hyps" [OF True steps rest] by blast
    then show ?thesis
      using True steps by (subst memset_unrolled.simps) (auto simp: filled_split add.assoc intro!: exI [of _ "32 + k"])
  qed
qed

lemma memset_aligned_ok:
  assumes "accessible d n m"
  shows "memset_aligned d c n m = Some (filled d c n m)"
proof (cases "8 \<le> n")
  case False
  then show ?thesis using memset_bytes_ok [OF assms] by (simp add: memset_aligned_def)
next
  case True
  obtain k where k: "k \<le> n" "memset_unrolled d (long_of_byte c) n m = Some (d + k, n - k, filled d c k m)"
    using memset_unrolled_ok [OF assms] by blast
  have a1: "accessible (d + k) (n - k) (filled d c k m)"
    using accessible_filled accessible_shift [of d k "n - k" m] assms k(1) by simp
  obtain j where j: "j \<le> n - k" "memset_longs (d + k) (long_of_byte c) (n - k) (filled d c k m)
      = Some (d + k + j, n - k - j, filled d c (k + j) m)"
    using memset_longs_ok [OF a1] by (metis filled_split)
  have a2: "accessible (d + (k + j)) (n - k - j) (filled d c (k + j) m)"
    using accessible_filled accessible_shift [of d "k + j" "n - k - j" m] assms k(1) j(1) by simp
  have "k + j + (n - k - j) = n" using k(1) j(1) by simp
  then have "memset_bytes (d + (k + j)) c (n - k - j) (filled d c (k + j) m) = Some (filled d c n m)"
    using memset_bytes_ok [OF a2] by (simp add: filled_split)
  then show ?thesis using True k(2) j(2) by (simp add: memset_aligned_def add.assoc)
qed

lemma memset_from_ok: "accessible d n m \<Longrightarrow> memset_from d c n m = Some (filled d c n m)"
proof (induction d c n m rule: memset_from.induct)
  case (1 d c n m)
  show ?case
  proof (cases "d mod 8 = 0 \<or> n = 0")
    case True
    then show ?thesis
      using memset_aligned_ok [OF "1.prems"] by (subst memset_from.simps) auto
  next
    case False
    then obtain k where n: "n = Suc k" by (cases n) auto
    have st: "store d c m = Some (filled d c 1 m)"
      using accessibleD [OF "1.prems", of 0] n by (auto simp: store_def filled_def fun_eq_iff)
    have acc: "accessible (d + 1) k (filled d c 1 m)"
      using accessible_filled accessible_shift [of d 1 k m] "1.prems" n by simp
    have "d mod 8 \<noteq> 0" using False by simp
    from "1.IH" [OF this n st acc] st n False show ?thesis
      using filled_split [of d 1 c k m] by (subst memset_from.simps) simp
  qed
qed

text \<open>
  Further property. \<open>memset\<close> writes the low byte of the value to every byte of the range and nothing else,
  although most of it is written as words made by one multiplication.\<close>

theorem memset_correct:
  assumes "accessible dest n m"
  shows "memset dest val n m = Some (filled dest (ucast (val AND 0xff)) n m)"
  unfolding memset_def by (rule memset_from_ok [OF assms])

text \<open>\<open>memcmp\<close> returns the difference of the first bytes that differ.\<close>

lemma memcmp_ok:
  assumes "accessible p n m" and "accessible q n m"
  shows "\<exists>r. memcmp p q n m = Some r \<and> (r = 0 \<longleftrightarrow> (\<forall>i<n. m (p + i) = m (q + i)))"
  using assms
proof (induction n arbitrary: p q)
  case (Suc n)
  obtain a b where ab: "m p = Some a" "m q = Some b"
    using accessibleD [OF Suc.prems(1), of 0] accessibleD [OF Suc.prems(2), of 0] by auto
  have acc: "accessible (p + 1) n m" "accessible (q + 1) n m"
    using accessible_shift [of p 1 n m] accessible_shift [of q 1 n m] Suc.prems by simp_all
  show ?case
  proof (cases "a = b")
    case True
    obtain r where "memcmp (p + 1) (q + 1) n m = Some r" "r = 0 \<longleftrightarrow> (\<forall>i<n. m (p + 1 + i) = m (q + 1 + i))"
      using Suc.IH [OF acc] by blast
    with True ab show ?thesis by (auto simp: less_Suc_eq_0_disj)
  next
    case False
    then show ?thesis using ab by (auto intro!: exI [of _ 0] simp: word_uint_eq_iff)
  qed
qed simp

section \<open>Witnesses\<close>

definition demo_mem :: mem where
  "demo_mem = (\<lambda>a. if a < 100 then Some (of_nat a) else None)"

lemma demo_accessible [simp]: "a + n \<le> 100 \<Longrightarrow> accessible a n demo_mem"
  by (simp add: accessible_def demo_mem_def)


theorem memmove_correct_witness: "memmove 9 4 50 demo_mem = Some (copied 9 4 50 demo_mem)"
  using memmove_correct [of 4 50 demo_mem 9] by simp

theorem memset_correct_witness: "memset 5 0x141 60 demo_mem = Some (filled 5 0x41 60 demo_mem)"
  using memset_correct [of 5 60 demo_mem "0x141"] by simp

end
