(* ===== verification/Kernel_String.thy ===== *)
theory Kernel_String
  imports Kernel_Memory
begin

text \<open>
  The C string functions of \<open>lib/string.c\<close> and the character classes of \<open>lib/ctype.h\<close>, on the memory
  of \<open>Kernel_Memory\<close>. \<open>char\<close> is signed on amd64: a byte is compared and subtracted as its signed
  value. A loop over a string ends at a null byte or faults; one that never finds a null byte does not
  return. \<open>is_cstr m a bs\<close> says that the string at \<open>a\<close> is \<open>bs\<close>; the lemmas state each function by its
  effect on that list.
\<close>

section \<open>Character classes\<close>

definition islower :: "int \<Rightarrow> bool" where "islower ch \<longleftrightarrow> 97 \<le> ch \<and> ch \<le> 122"
definition isupper :: "int \<Rightarrow> bool" where "isupper ch \<longleftrightarrow> 65 \<le> ch \<and> ch \<le> 90"
definition isalpha :: "int \<Rightarrow> bool" where "isalpha ch \<longleftrightarrow> islower ch \<or> isupper ch"
definition isdigit :: "int \<Rightarrow> bool" where "isdigit ch \<longleftrightarrow> 48 \<le> ch \<and> ch \<le> 57"
definition isalnum :: "int \<Rightarrow> bool" where "isalnum ch \<longleftrightarrow> isalpha ch \<or> isdigit ch"
definition isascii :: "int \<Rightarrow> bool" where "isascii ch \<longleftrightarrow> ch mod 2 ^ 32 < 128"
definition isblank :: "int \<Rightarrow> bool" where "isblank ch \<longleftrightarrow> ch = 32 \<or> ch = 9"
definition iscntrl :: "int \<Rightarrow> bool" where "iscntrl ch \<longleftrightarrow> ch mod 2 ^ 32 < 32 \<or> ch = 127"

definition isprint :: "int \<Rightarrow> bool" where
  "isprint ch \<longleftrightarrow> (let ch = ch AND 0x7F in 0x20 \<le> ch \<and> ch < 0x7F)"

definition isgraph :: "int \<Rightarrow> bool" where
  "isgraph ch \<longleftrightarrow> (if ch = 32 then False else isprint ch)"

definition isspace :: "int \<Rightarrow> bool" where
  "isspace ch \<longleftrightarrow> ch = 9 \<or> ch = 10 \<or> ch = 11 \<or> ch = 12 \<or> ch = 13 \<or> ch = 32"

definition ispunct :: "int \<Rightarrow> bool" where
  "ispunct ch \<longleftrightarrow> isprint ch \<and> \<not> isalnum ch \<and> \<not> isspace ch"

definition isxdigit :: "int \<Rightarrow> bool" where
  "isxdigit ch \<longleftrightarrow> 48 \<le> ch \<and> ch \<le> 57 \<or> 97 \<le> ch \<and> ch \<le> 102 \<or> 65 \<le> ch \<and> ch \<le> 70"

definition toascii :: "int \<Rightarrow> int" where "toascii ch = ch AND 0x7F"
definition tolower :: "int \<Rightarrow> int" where "tolower ch = (if isalpha ch then ch OR 0x20 else ch)"
definition toupper :: "int \<Rightarrow> int" where "toupper ch = (if isalpha ch then ch AND NOT 0x20 else ch)"

section \<open>Length and comparison\<close>

partial_function (option) strlen_from :: "nat \<Rightarrow> nat \<Rightarrow> mem \<Rightarrow> nat option" where
  "strlen_from ret str m = do {
     c \<leftarrow> m str;
     if c \<noteq> 0 then strlen_from (ret + 1) (str + 1) m else Some ret}"

definition strlen :: "nat \<Rightarrow> mem \<Rightarrow> nat option" where
  "strlen str m = strlen_from 0 str m"

partial_function (option) strnlen_from :: "nat \<Rightarrow> nat \<Rightarrow> nat \<Rightarrow> mem \<Rightarrow> nat option" where
  "strnlen_from ret str count m = do {
     c \<leftarrow> m str;
     if c \<noteq> 0 \<and> ret < count then strnlen_from (ret + 1) (str + 1) count m else Some ret}"

definition strnlen :: "nat \<Rightarrow> nat \<Rightarrow> mem \<Rightarrow> nat option" where
  "strnlen str count m = strnlen_from 0 str count m"

partial_function (option) strcmp :: "nat \<Rightarrow> nat \<Rightarrow> mem \<Rightarrow> int option" where
  "strcmp s1 s2 m = do {
     c1 \<leftarrow> m s1;
     c2 \<leftarrow> m s2;
     if c1 \<noteq> 0 \<and> c2 \<noteq> 0 \<and> c1 = c2 then strcmp (s1 + 1) (s2 + 1) m
     else Some (sint c1 - sint c2)}"

fun strncmp :: "nat \<Rightarrow> nat \<Rightarrow> nat \<Rightarrow> mem \<Rightarrow> int option" where
  "strncmp a b 0 m = Some 0"
| "strncmp a b (Suc count) m = do {
     c1 \<leftarrow> m a;
     c2 \<leftarrow> m b;
     let res = sint c1 - sint c2;
     if res \<noteq> 0 then Some res
     else if c1 = 0 then Some 0
     else strncmp (a + 1) (b + 1) count m}"

partial_function (option) strcasecmp :: "nat \<Rightarrow> nat \<Rightarrow> mem \<Rightarrow> int option" where
  "strcasecmp s1 s2 m = do {
     c1 \<leftarrow> m s1;
     c2 \<leftarrow> m s2;
     if c1 \<noteq> 0 \<and> c2 \<noteq> 0 \<and> tolower (sint c1) = tolower (sint c2) then strcasecmp (s1 + 1) (s2 + 1) m
     else Some (tolower (sint c1) - tolower (sint c2))}"

fun strncasecmp :: "nat \<Rightarrow> nat \<Rightarrow> nat \<Rightarrow> mem \<Rightarrow> int option" where
  "strncasecmp a b 0 m = Some 0"
| "strncasecmp a b (Suc count) m = do {
     c1 \<leftarrow> m a;
     c2 \<leftarrow> m b;
     let res = tolower (sint c1) - tolower (sint c2);
     if res \<noteq> 0 then Some res
     else if c1 = 0 then Some 0
     else strncasecmp (a + 1) (b + 1) count m}"

section \<open>Searching\<close>

text \<open>The inner loop of \<open>strsep\<close>: whether \<open>c\<close> is a delimiter or the null byte.\<close>

partial_function (option) strsep_span :: "u8 \<Rightarrow> nat \<Rightarrow> mem \<Rightarrow> bool option" where
  "strsep_span c spanp m = do {
     sc \<leftarrow> m spanp;
     if sc = c then Some True else if sc \<noteq> 0 then strsep_span c (spanp + 1) m else Some False}"

partial_function (option) strsep_loop :: "nat \<Rightarrow> nat \<Rightarrow> nat \<Rightarrow> mem \<Rightarrow> (nat option \<times> nat option \<times> mem) option" where
  "strsep_loop tok s delim m = do {
     c \<leftarrow> m s;
     hit \<leftarrow> strsep_span c delim m;
     if hit
     then if c = 0 then Some (Some tok, None, m)
          else do {m \<leftarrow> store s 0 m; Some (Some tok, Some (s + 1), m)}
     else strsep_loop tok (s + 1) delim m}"

text \<open>The result, the new value of \<open>*stringp\<close> and the memory.\<close>

definition strsep :: "nat option \<Rightarrow> nat \<Rightarrow> mem \<Rightarrow> (nat option \<times> nat option \<times> mem) option" where
  "strsep stringp delim m =
     (case stringp of None \<Rightarrow> Some (None, None, m) | Some s \<Rightarrow> strsep_loop s s delim m)"

partial_function (option) strchr_loop :: "nat \<Rightarrow> u8 \<Rightarrow> mem \<Rightarrow> nat option option" where
  "strchr_loop s ch m = do {
     c \<leftarrow> m s;
     if c = ch then Some (Some s) else if c = 0 then Some None else strchr_loop (s + 1) ch m}"

definition strchr :: "nat \<Rightarrow> int \<Rightarrow> mem \<Rightarrow> nat option option" where
  "strchr s c m = strchr_loop s (word_of_int c) m"

partial_function (option) strrchr_loop :: "nat option \<Rightarrow> nat \<Rightarrow> int \<Rightarrow> mem \<Rightarrow> nat option option" where
  "strrchr_loop l s c m = do {
     b \<leftarrow> m s;
     let l = (if sint b = c then Some s else l);
     if b = 0 then Some l else strrchr_loop l (s + 1) c m}"

definition strrchr :: "nat \<Rightarrow> int \<Rightarrow> mem \<Rightarrow> nat option option" where
  "strrchr s c m = strrchr_loop None s c m"

partial_function (option) strstr_loop :: "nat \<Rightarrow> nat \<Rightarrow> nat \<Rightarrow> mem \<Rightarrow> nat option option" where
  "strstr_loop s what len m = do {
     c \<leftarrow> m s;
     if c = 0 then Some None
     else do {
       r \<leftarrow> strncmp s what len m;
       if r = 0 then Some (Some s) else strstr_loop (s + 1) what len m}}"

definition strstr :: "nat \<Rightarrow> nat \<Rightarrow> mem \<Rightarrow> nat option option" where
  "strstr s what m = do {
     len \<leftarrow> strlen what m;
     strstr_loop s what len m}"

section \<open>Changing strings\<close>

partial_function (option) strip_front :: "nat \<Rightarrow> mem \<Rightarrow> nat option" where
  "strip_front str m = do {
     c \<leftarrow> m str;
     if isspace (sint c) then strip_front (str + 1) m else Some str}"

text \<open>The value of \<open>len\<close> after the backward loop and the increment that follows it.\<close>

fun strip_back :: "nat \<Rightarrow> nat \<Rightarrow> mem \<Rightarrow> nat option" where
  "strip_back str 0 m = Some 0"
| "strip_back str (Suc len) m = do {
     c \<leftarrow> m (str + len);
     if \<not> isspace (sint c) then Some (len + 1) else strip_back str len m}"

definition strstrip :: "nat \<Rightarrow> mem \<Rightarrow> (nat \<times> mem) option" where
  "strstrip str m = do {
     str \<leftarrow> strip_front str m;
     len \<leftarrow> strlen str m;
     len \<leftarrow> strip_back str len m;
     m \<leftarrow> store (str + len) 0 m;
     Some (str, m)}"

partial_function (option) strcpy :: "nat \<Rightarrow> nat \<Rightarrow> mem \<Rightarrow> mem option" where
  "strcpy d src m = do {
     c \<leftarrow> m src;
     m \<leftarrow> store d c m;
     if c \<noteq> 0 then strcpy (d + 1) (src + 1) m else Some m}"

fun strncpy :: "nat \<Rightarrow> nat \<Rightarrow> nat \<Rightarrow> mem \<Rightarrow> mem option" where
  "strncpy dest src 0 m = Some m"
| "strncpy dest src (Suc count) m = do {
     c \<leftarrow> m src;
     m \<leftarrow> store dest c m;
     c \<leftarrow> m src;
     if c = 0 then Some m else strncpy (dest + 1) (src + 1) count m}"

definition strcat :: "nat \<Rightarrow> nat \<Rightarrow> mem \<Rightarrow> mem option" where
  "strcat dest src m = do {
     destlen \<leftarrow> strlen dest m;
     strcpy (dest + destlen) src m}"

section \<open>Duplicating\<close>

text \<open>The allocator is an argument: the address of the block, or \<open>None\<close> for \<open>NULL\<close>, and the memory.\<close>

type_synonym allocator = "nat \<Rightarrow> mem \<Rightarrow> nat option \<times> mem"

definition kmemdup :: "allocator \<Rightarrow> nat \<Rightarrow> nat \<Rightarrow> mem \<Rightarrow> (nat option \<times> mem) option" where
  "kmemdup kmalloc src count m =
     (if count = 0 then Some (None, m)
      else case kmalloc count m of
        (None, m) \<Rightarrow> Some (None, m)
      | (Some dest, m) \<Rightarrow> do {m \<leftarrow> memcpy dest src count m; Some (Some dest, m)})"

definition kstrdup :: "allocator \<Rightarrow> nat \<Rightarrow> mem \<Rightarrow> (nat option \<times> mem) option" where
  "kstrdup kmalloc src m = do {
     len \<leftarrow> strlen src m;
     let len = len + 1;
     case kmalloc len m of
       (None, m) \<Rightarrow> Some (None, m)
     | (Some dup, m) \<Rightarrow> do {m \<leftarrow> memcpy dup src len m; Some (Some dup, m)}}"

definition kstrndup :: "allocator \<Rightarrow> nat \<Rightarrow> nat \<Rightarrow> mem \<Rightarrow> (nat option \<times> mem) option" where
  "kstrndup kmalloc src n m = do {
     len \<leftarrow> strnlen src n m;
     case kmalloc (len + 1) m of
       (None, m) \<Rightarrow> Some (None, m)
     | (Some dup, m) \<Rightarrow> do {
         m \<leftarrow> memcpy dup src len m;
         m \<leftarrow> store (dup + len) 0 m;
         Some (Some dup, m)}}"

section \<open>Numbers\<close>

definition digit_value :: "int \<Rightarrow> u64" where
  "digit_value ch = word_of_int (if isdigit ch then ch - 48 else tolower ch - 97 + 10)"

text \<open>The choice of the base and the start of the digits.\<close>

definition strtoux_base :: "nat \<Rightarrow> nat \<Rightarrow> mem \<Rightarrow> (nat \<times> nat) option" where
  "strtoux_base cp base m =
     (if base = 0
      then do {
        c \<leftarrow> m cp;
        if sint c = 48
        then do {
          x \<leftarrow> m (cp + 1);
          if tolower (sint x) = 120
          then do {
            d \<leftarrow> m (cp + 2);
            Some (if isxdigit (sint d) then (cp + 2, 16) else (cp + 1, 8))}
          else Some (cp + 1, 8)}
        else Some (cp, 10)}
      else if base = 16
      then do {
        c \<leftarrow> m cp;
        if sint c = 48
        then do {x \<leftarrow> m (cp + 1); Some (if tolower (sint x) = 120 then cp + 2 else cp, base)}
        else Some (cp, base)}
      else Some (cp, base))"

partial_function (option) strtoux_loop :: "nat \<Rightarrow> u64 \<Rightarrow> nat \<Rightarrow> mem \<Rightarrow> (u64 \<times> nat) option" where
  "strtoux_loop base result cp m = do {
     c \<leftarrow> m cp;
     if isxdigit (sint c) \<and> digit_value (sint c) < of_nat base
     then strtoux_loop base (result * of_nat base + digit_value (sint c)) (cp + 1) m
     else Some (result, cp)}"

text \<open>\<open>strtoul\<close> and \<open>strtoull\<close>, both 64 bits wide: the value and \<open>*endp\<close>.\<close>

definition strtoul :: "nat \<Rightarrow> nat \<Rightarrow> mem \<Rightarrow> (u64 \<times> nat) option" where
  "strtoul cp base m = do {
     (cp, base) \<leftarrow> strtoux_base cp base m;
     strtoux_loop base 0 cp m}"

definition strtol :: "nat \<Rightarrow> nat \<Rightarrow> mem \<Rightarrow> (u64 \<times> nat) option" where
  "strtol cp base m = do {
     c \<leftarrow> m cp;
     if sint c = 45
     then do {(v, e) \<leftarrow> strtoul (cp + 1) base m; Some (- v, e)}
     else strtoul cp base m}"

definition strtoull :: "nat \<Rightarrow> nat \<Rightarrow> mem \<Rightarrow> (u64 \<times> nat) option" where
  "strtoull cp base m = do {
     (cp, base) \<leftarrow> strtoux_base cp base m;
     strtoux_loop base 0 cp m}"

definition strtoll :: "nat \<Rightarrow> nat \<Rightarrow> mem \<Rightarrow> (u64 \<times> nat) option" where
  "strtoll cp base m = do {
     c \<leftarrow> m cp;
     if sint c = 45
     then do {(v, e) \<leftarrow> strtoull (cp + 1) base m; Some (- v, e)}
     else strtoull cp base m}"

section \<open>Strings in memory\<close>

primrec is_cstr :: "mem \<Rightarrow> nat \<Rightarrow> u8 list \<Rightarrow> bool" where
  "is_cstr m a [] \<longleftrightarrow> m a = Some 0"
| "is_cstr m a (b # bs) \<longleftrightarrow> m a = Some b \<and> b \<noteq> 0 \<and> is_cstr m (a + 1) bs"

lemma is_cstr_app: "is_cstr m a (bs @ cs) \<longleftrightarrow>
    (\<forall>i<length bs. m (a + i) = Some (bs ! i) \<and> bs ! i \<noteq> 0) \<and> is_cstr m (a + length bs) cs"
proof (induction bs arbitrary: a)
  case (Cons b bs)
  show ?case by (auto simp: Cons.IH less_Suc_eq_0_disj)
qed simp

lemma is_cstr_nth: "is_cstr m a bs \<longleftrightarrow>
    (\<forall>i<length bs. m (a + i) = Some (bs ! i) \<and> bs ! i \<noteq> 0) \<and> m (a + length bs) = Some 0"
  using is_cstr_app [of m a bs "[]"] by simp

lemma is_cstr_drop: "is_cstr m a bs \<Longrightarrow> i \<le> length bs \<Longrightarrow> is_cstr m (a + i) (drop i bs)"
  using is_cstr_app [of m a "take i bs" "drop i bs"] by (simp add: min_absorb2)

lemma is_cstr_accessible: "is_cstr m a bs \<Longrightarrow> accessible a (length bs + 1) m"
  by (auto simp: is_cstr_nth accessible_def less_Suc_eq)

lemma is_cstr_nonzero: "is_cstr m a bs \<Longrightarrow> 0 \<notin> set bs"
  by (induction bs arbitrary: a) auto

text \<open>A string is not changed by writes elsewhere.\<close>

lemma is_cstr_cong: "is_cstr m a bs \<Longrightarrow> (\<And>i. i \<le> length bs \<Longrightarrow> m' (a + i) = m (a + i)) \<Longrightarrow> is_cstr m' a bs"
  by (auto simp: is_cstr_nth)

section \<open>Length and comparison: correctness\<close>

lemma strlen_from_ok: "is_cstr m a bs \<Longrightarrow> strlen_from n a m = Some (n + length bs)"
proof (induction bs arbitrary: a n)
  case Nil
  then show ?case by (subst strlen_from.simps) simp
next
  case (Cons b bs)
  then show ?case by (subst strlen_from.simps) simp
qed

lemma strlen_ok: "is_cstr m a bs \<Longrightarrow> strlen a m = Some (length bs)"
  by (simp add: strlen_def strlen_from_ok)

lemma strnlen_from_ok: "is_cstr m a bs \<Longrightarrow> n \<le> count \<Longrightarrow> strnlen_from n a count m = Some (min (n + length bs) count)"
proof (induction bs arbitrary: a n)
  case Nil
  then show ?case by (subst strnlen_from.simps) simp
next
  case (Cons b bs)
  then show ?case by (subst strnlen_from.simps) (cases "n < count"; simp)
qed

lemma strnlen_ok: "is_cstr m a bs \<Longrightarrow> strnlen a count m = Some (min (length bs) count)"
  using strnlen_from_ok [of m a bs 0 count] by (simp add: strnlen_def)

lemma strnlen_from_faults:
  "(\<forall>i<k. \<exists>b. m (a + i) = Some b \<and> b \<noteq> 0) \<Longrightarrow> m (a + k) = None \<Longrightarrow> n + k = count \<Longrightarrow>
   strnlen_from n a count m = None"
proof (induction k arbitrary: a n)
  case 0
  then show ?case by (subst strnlen_from.simps) simp
next
  case (Suc k)
  obtain b where b: "m a = Some b" "b \<noteq> 0" using Suc.prems(1) by force
  have "strnlen_from (n + 1) (a + 1) count m = None"
  proof (rule Suc.IH)
    show "\<forall>i<k. \<exists>b. m (a + 1 + i) = Some b \<and> b \<noteq> 0"
      using Suc.prems(1) by (auto dest: spec [of _ "Suc _"])
  qed (use Suc.prems in auto)
  with b Suc.prems(3) show ?case by (subst strnlen_from.simps) simp
qed

text \<open>
  Property C40. \<open>strnlen\<close> reads one byte past its limit: on a buffer of exactly \<open>count\<close> bytes without a
  null byte it goes on to the byte after the buffer, and faults when that is not accessible, although
  the length is already decided.\<close>

theorem strnlen_reads_past_limit:
  assumes "\<forall>i<count. \<exists>b. m (a + i) = Some b \<and> b \<noteq> 0" and "m (a + count) = None"
  shows "strnlen a count m = None"
  using strnlen_from_faults [OF assms, of 0 count] by (simp add: strnlen_def)

text \<open>The value of \<open>strcmp\<close> on lists.\<close>

fun scmp :: "u8 list \<Rightarrow> u8 list \<Rightarrow> int" where
  "scmp [] [] = 0"
| "scmp [] (y # ys) = - sint y"
| "scmp (x # xs) [] = sint x"
| "scmp (x # xs) (y # ys) = (if x = y then scmp xs ys else sint x - sint y)"

lemma sint_zero_iff [simp]: "sint (b :: u8) = 0 \<longleftrightarrow> b = 0"
  by (metis signed_0 signed_word_eqI)

lemma sint_inj [simp]: "sint (a :: u8) = sint b \<longleftrightarrow> a = b"
  by (metis signed_word_eqI)

lemma scmp_zero: "0 \<notin> set xs \<Longrightarrow> 0 \<notin> set ys \<Longrightarrow> scmp xs ys = 0 \<longleftrightarrow> xs = ys"
  by (induction xs ys rule: scmp.induct) auto

lemma scmp_swap: "scmp ys xs = - scmp xs ys"
  by (induction xs ys rule: scmp.induct) auto

lemma strcmp_ok: "is_cstr m a xs \<Longrightarrow> is_cstr m b ys \<Longrightarrow> strcmp a b m = Some (scmp xs ys)"
proof (induction xs ys arbitrary: a b rule: scmp.induct)
  case (4 x xs y ys)
  then show ?case by (subst strcmp.simps) auto
qed (subst strcmp.simps; auto)+

text \<open>
  Further property. \<open>strcmp\<close> of two strings is zero exactly when they are equal, is antisymmetric, and its
  sign is that of the first difference as signed characters.\<close>

theorem strcmp_correct:
  assumes "is_cstr m a xs" and "is_cstr m b ys"
  shows "\<exists>r. strcmp a b m = Some r \<and> (r = 0 \<longleftrightarrow> xs = ys) \<and> strcmp b a m = Some (- r)
    \<and> (\<forall>zs u v us vs. xs = zs @ u # us \<longrightarrow> ys = zs @ v # vs \<longrightarrow> u \<noteq> v \<longrightarrow> r = sint u - sint v)"
proof -
  have pre: "scmp (zs @ u # us) (zs @ v # vs) = sint u - sint v" if "u \<noteq> v" for zs u us v vs
    by (induction zs) (use that in auto)
  show ?thesis
    using strcmp_ok [OF assms] strcmp_ok [OF assms(2,1)] scmp_swap [of ys xs]
      scmp_zero [OF is_cstr_nonzero [OF assms(1)] is_cstr_nonzero [OF assms(2)]] pre by auto
qed

lemma strncmp_prefix:
  assumes "is_cstr m a xs" and "is_cstr m b ys" and "n \<le> length ys"
  shows "\<exists>r. strncmp a b n m = Some r \<and> (r = 0 \<longleftrightarrow> take n xs = take n ys)"
  using assms
proof (induction n arbitrary: a b xs ys)
  case (Suc n)
  then obtain y ys' where ys: "ys = y # ys'" by (cases ys) auto
  show ?case
  proof (cases xs)
    case Nil
    then show ?thesis using Suc.prems ys by (auto simp: Let_def)
  next
    case (Cons x xs')
    then show ?thesis using Suc.IH [of "a + 1" xs' "b + 1" ys'] Suc.prems ys by (auto simp: Let_def)
  qed
qed simp

section \<open>Searching: correctness\<close>

lemma strchr_loop_ok:
  "is_cstr m a bs \<Longrightarrow> strchr_loop a ch m = Some (if ch = 0 then Some (a + length bs)
     else if ch \<in> set bs then Some (a + length (takeWhile (\<lambda>b. b \<noteq> ch) bs)) else None)"
proof (induction bs arbitrary: a)
  case Nil
  then show ?case by (subst strchr_loop.simps) simp
next
  case (Cons b bs)
  then show ?case by (subst strchr_loop.simps) auto
qed

lemma strrchr_loop_ok:
  "is_cstr m a bs \<Longrightarrow> strrchr_loop l a c m
     = Some (if c = 0 then Some (a + length bs)
             else if \<exists>b\<in>set bs. sint b = c
             then Some (a + (length bs - 1 - length (takeWhile (\<lambda>b. sint b \<noteq> c) (rev bs)))) else l)"
proof (induction bs arbitrary: a l)
  case Nil
  then show ?case by (subst strrchr_loop.simps) (simp add: Let_def)
next
  case (Cons b bs)
  have "length (takeWhile (\<lambda>b. sint b \<noteq> c) (rev bs)) < length bs" if "\<exists>b\<in>set bs. sint b = c"
  proof -
    have "dropWhile (\<lambda>b. sint b \<noteq> c) (rev bs) \<noteq> []" using that by auto
    moreover have "length (takeWhile (\<lambda>b. sint b \<noteq> c) (rev bs)) + length (dropWhile (\<lambda>b. sint b \<noteq> c) (rev bs)) = length bs"
      by (metis length_append length_rev takeWhile_dropWhile_id)
    ultimately show ?thesis by (cases "dropWhile (\<lambda>b. sint b \<noteq> c) (rev bs)") auto
  qed
  with Cons show ?case
    by (subst strrchr_loop.simps) (auto simp: Let_def takeWhile_tail takeWhile_append1 takeWhile_append2
        takeWhile_eq_all_conv [THEN iffD2])
qed

lemma find_map_option: "List.find P (map f xs) = map_option f (List.find (\<lambda>x. P (f x)) xs)"
  by (induction xs) auto

lemma strstr_loop_ok:
  assumes "is_cstr m s xs" and "is_cstr m w ys"
  shows "strstr_loop s w (length ys) m
    = Some (map_option ((+) s) (List.find (\<lambda>i. take (length ys) (drop i xs) = ys) [0..<length xs]))"
  using assms(1)
proof (induction xs arbitrary: s)
  case Nil
  then show ?case by (subst strstr_loop.simps) simp
next
  case (Cons x xs)
  obtain r where r: "strncmp s w (length ys) m = Some r" "r = 0 \<longleftrightarrow> take (length ys) (x # xs) = ys"
    using strncmp_prefix [OF Cons.prems assms(2) order_refl] by auto
  have shift: "List.find P [Suc 0..<Suc n] = map_option Suc (List.find (\<lambda>i. P (Suc i)) [0..<n])" for P n
    unfolding map_Suc_upt [symmetric] by (rule find_map_option)
  have "strstr_loop (s + 1) w (length ys) m
      = Some (map_option ((+) (s + 1)) (List.find (\<lambda>i. take (length ys) (drop i xs) = ys) [0..<length xs]))"
    by (rule Cons.IH) (use Cons.prems in simp)
  moreover have "map_option (\<lambda>a. Suc (s + a)) x = map_option ((+) (Suc s)) x" for x by (cases x) simp_all
  ultimately show ?case using r Cons.prems
    by (subst strstr_loop.simps) (auto simp: upt_conv_Cons shift option.map_comp o_def simp del: upt_Suc)
qed

text \<open>
  Further property. \<open>strstr\<close> finds the first position of the string at which the searched string begins,
  and \<open>NULL\<close> when there is none (also for an empty string searched in an empty string).\<close>

theorem strstr_correct:
  assumes "is_cstr m s xs" and "is_cstr m w ys"
  shows "strstr s w m
    = Some (map_option ((+) s) (List.find (\<lambda>i. take (length ys) (drop i xs) = ys) [0..<length xs]))"
  using strstr_loop_ok [OF assms] strlen_ok [OF assms(2)] by (simp add: strstr_def)

lemma strsep_span_ok: "is_cstr m d ds \<Longrightarrow> strsep_span c d m = Some (c = 0 \<or> c \<in> set ds)"
proof (induction ds arbitrary: d)
  case Nil
  then show ?case by (subst strsep_span.simps) auto
next
  case (Cons b ds)
  then show ?case by (subst strsep_span.simps) auto
qed

lemma strsep_loop_ok:
  assumes "is_cstr m d ds" and "is_cstr m s xs" and "tk = takeWhile (\<lambda>c. c \<notin> set ds) xs"
  shows "strsep_loop tok s d m =
    (if tk = xs then Some (Some tok, None, m)
     else Some (Some tok, Some (s + length tk + 1), m(s + length tk \<mapsto> 0)))"
  using assms(2,3)
proof (induction xs arbitrary: s tk)
  case Nil
  then show ?case using strsep_span_ok [OF assms(1)] by (subst strsep_loop.simps) simp
next
  case (Cons x xs)
  show ?case
  proof (cases "x \<in> set ds")
    case True
    then show ?thesis
      using Cons.prems strsep_span_ok [OF assms(1), of x] by (subst strsep_loop.simps) (auto simp: store_def)
  next
    case False
    let ?tk = "takeWhile (\<lambda>c. c \<notin> set ds) xs"
    have "strsep_loop tok (s + 1) d m =
      (if ?tk = xs then Some (Some tok, None, m)
       else Some (Some tok, Some (s + 1 + length ?tk + 1), m(s + 1 + length ?tk \<mapsto> 0)))"
      using Cons.IH [of "s + 1"] Cons.prems(1) by simp
    with False Cons.prems strsep_span_ok [OF assms(1), of x] show ?thesis
      by (subst strsep_loop.simps) auto
  qed
qed

text \<open>
  Further property. \<open>strsep\<close> cuts a string at its first delimiter: afterwards the token is the part before
  it, \<open>*stringp\<close> is the part after it, and the two with the delimiter make up the old string; without a
  delimiter the token is the whole string and \<open>*stringp\<close> becomes \<open>NULL\<close>. Only the delimiter is
  overwritten.\<close>

theorem strsep_correct:
  assumes "is_cstr m d ds" and "is_cstr m s xs"
  shows "\<exists>rest m'. strsep (Some s) d m = Some (Some s, rest, m')
    \<and> (case rest of
         None \<Rightarrow> m' = m \<and> set xs \<inter> set ds = {}
       | Some r \<Rightarrow> \<exists>tk c us. xs = tk @ c # us \<and> c \<in> set ds \<and> set tk \<inter> set ds = {}
           \<and> is_cstr m' s tk \<and> is_cstr m' r us \<and> r = s + length tk + 1 \<and> m' = m(s + length tk \<mapsto> 0))"
proof -
  define tk where "tk = takeWhile (\<lambda>c. c \<notin> set ds) xs"
  note loop = strsep_loop_ok [OF assms tk_def, of s]
  have dis: "set tk \<inter> set ds = {}" by (auto simp: tk_def dest: set_takeWhileD)
  show ?thesis
  proof (cases "tk = xs")
    case True
    then show ?thesis using loop dis by (simp add: strsep_def)
  next
    case False
    then have "dropWhile (\<lambda>c. c \<notin> set ds) xs \<noteq> []"
      unfolding tk_def by (metis append_Nil2 takeWhile_dropWhile_id)
    then obtain c us where cu: "dropWhile (\<lambda>c. c \<notin> set ds) xs = c # us" by (cases "dropWhile (\<lambda>c. c \<notin> set ds) xs") auto
    have xs: "xs = tk @ c # us" unfolding tk_def cu [symmetric] by simp
    have c: "c \<in> set ds" using cu by (auto simp: dropWhile_eq_Cons_conv)
    let ?m = "m(s + length tk \<mapsto> 0)"
    have "is_cstr ?m s tk" "is_cstr ?m (s + length tk + 1) us"
      using assms(2) unfolding xs is_cstr_app by (auto simp: is_cstr_nth)
    then show ?thesis using loop False xs c dis by (auto simp: strsep_def)
  qed
qed

section \<open>Changing strings: correctness\<close>

lemma strip_front_ok:
  "is_cstr m a bs \<Longrightarrow> strip_front a m = Some (a + length (takeWhile (\<lambda>b. isspace (sint b)) bs))"
proof (induction bs arbitrary: a)
  case Nil
  then show ?case by (subst strip_front.simps) (simp add: isspace_def)
next
  case (Cons b bs)
  then show ?case by (subst strip_front.simps) auto
qed

definition strip_end :: "u8 list \<Rightarrow> u8 list" where
  "strip_end bs = rev (dropWhile (\<lambda>b. isspace (sint b)) (rev bs))"

lemma strip_end_snoc: "strip_end (bs @ [b]) = (if isspace (sint b) then strip_end bs else bs @ [b])"
  by (simp add: strip_end_def)

lemma strip_end_prefix: "\<exists>cs. bs = strip_end bs @ cs"
  by (rule exI [of _ "rev (takeWhile (\<lambda>b. isspace (sint b)) (rev bs))"])
    (simp add: strip_end_def flip: rev_append)

lemma strip_back_ok:
  "\<forall>i<length bs. m (a + i) = Some (bs ! i) \<Longrightarrow> strip_back a (length bs) m = Some (length (strip_end bs))"
proof (induction bs rule: rev_induct)
  case Nil
  then show ?case by (simp add: strip_end_def)
next
  case (snoc b bs)
  then show ?case by (auto simp: strip_end_snoc nth_append less_Suc_eq split: if_splits)
qed

text \<open>
  Further property. \<open>strstrip\<close> returns the string without its leading and trailing white space, whatever
  the string (empty and all white space included).\<close>

theorem strstrip_correct:
  assumes "is_cstr m a bs"
  shows "\<exists>a' m'. strstrip a m = Some (a', m') \<and> a \<le> a'
    \<and> is_cstr m' a' (strip_end (dropWhile (\<lambda>b. isspace (sint b)) bs))"
proof -
  let ?n = "length (takeWhile (\<lambda>b. isspace (sint b)) bs)"
  let ?cs = "dropWhile (\<lambda>b. isspace (sint b)) bs"
  have cs: "is_cstr m (a + ?n) ?cs"
    using is_cstr_drop [OF assms, of ?n] by (simp add: length_takeWhile_le dropWhile_eq_drop)
  obtain ds where ds: "?cs = strip_end ?cs @ ds" using strip_end_prefix by blast
  let ?e = "a + ?n + length (strip_end ?cs)"
  have "length (strip_end ?cs) \<le> length ?cs" using ds by (metis length_append le_add1)
  then have "m ?e \<noteq> None"
    using accessibleD [OF is_cstr_accessible [OF cs], of "length (strip_end ?cs)"] by auto
  then have "strstrip a m = Some (a + ?n, m(?e \<mapsto> 0))"
    using strip_front_ok [OF assms] strlen_ok [OF cs] strip_back_ok [of ?cs m "a + ?n"] cs
    by (auto simp: strstrip_def store_def is_cstr_nth)
  moreover have "is_cstr (m(?e \<mapsto> 0)) (a + ?n) (strip_end ?cs)"
  proof -
    have "m (a + ?n + i) = Some (strip_end ?cs ! i) \<and> strip_end ?cs ! i \<noteq> 0" if "i < length (strip_end ?cs)" for i
    proof -
      have "?cs ! i = strip_end ?cs ! i" "i < length ?cs" using that ds by (metis nth_append, metis length_append trans_less_add1)
      with cs show ?thesis by (auto simp: is_cstr_nth)
    qed
    then show ?thesis by (simp add: is_cstr_nth)
  qed
  ultimately show ?thesis by auto
qed

lemma copied_cstr:
  assumes "is_cstr m src bs"
  shows "is_cstr (copied d src (length bs + 1) m) d bs"
  using assms by (auto simp: is_cstr_nth copied_def)

lemma strcpy_ok:
  assumes "is_cstr m src bs" and "accessible d (length bs + 1) m"
    and "d + length bs < src \<or> src + length bs < d"
  shows "strcpy d src m = Some (copied d src (length bs + 1) m)"
  using assms
proof (induction bs arbitrary: d src m)
  case Nil
  then have "m src = Some 0" "m d \<noteq> None" by (auto simp: accessible_def)
  then show ?case by (subst strcpy.simps) (auto simp: store_def copied_def fun_eq_iff)
next
  case (Cons b bs)
  let ?m = "copied d src 1 m"
  have s: "m src = Some b" "b \<noteq> 0" "is_cstr m (src + 1) bs" using Cons.prems(1) by auto
  have st: "store d b m = Some ?m"
    using accessibleD [OF Cons.prems(2), of 0] s(1) by (auto simp: store_def copied_def fun_eq_iff)
  have "is_cstr ?m (src + 1) bs"
    by (rule is_cstr_cong [OF s(3)]) (use Cons.prems(3) in \<open>auto simp: copied_def\<close>)
  moreover have "accessible (d + 1) (length bs + 1) ?m"
    using accessible_copied [of "d + 1" "length bs + 1" m src 1 d] accessible_shift [of d 1 "length bs + 1" m]
      Cons.prems(2) s(1) by (simp add: accessible_def)
  ultimately have "strcpy (d + 1) (src + 1) ?m = Some (copied (d + 1) (src + 1) (length bs + 1) ?m)"
    by (rule Cons.IH) (use Cons.prems(3) in auto)
  moreover have "copied (d + 1) (src + 1) (length bs + 1) ?m = copied d src (1 + (length bs + 1)) m"
    by (rule copied_split) (use Cons.prems(3) in \<open>auto simp: forward_ok_def\<close>)
  ultimately show ?case using s st by (subst strcpy.simps) simp
qed

text \<open>
  Further property. Duplicating a string, with an allocator that returns a fresh accessible block: the block
  holds a copy of the string, and the original is still there; when there is no memory the result is
  \<open>NULL\<close>.\<close>

theorem kstrdup_correct:
  assumes "is_cstr m src bs"
    and "\<And>n p m'. kmalloc n m = (Some p, m') \<Longrightarrow> accessible p n m' \<and> (\<forall>a. m a \<noteq> None \<longrightarrow> m' a = m a \<and> \<not> (p \<le> a \<and> a < p + n))"
  shows "\<exists>r m''. kstrdup kmalloc src m = Some (r, m'')
    \<and> (case r of None \<Rightarrow> \<exists>m'. kmalloc (length bs + 1) m = (None, m')
       | Some p \<Rightarrow> is_cstr m'' p bs \<and> is_cstr m'' src bs \<and> (\<forall>a. m a \<noteq> None \<longrightarrow> m'' a = m a))"
proof -
  obtain r m' where k: "kmalloc (length bs + 1) m = (r, m')" by (cases "kmalloc (length bs + 1) m")
  show ?thesis
  proof (cases r)
    case None
    then show ?thesis using k strlen_ok [OF assms(1)] by (simp add: kstrdup_def)
  next
    case (Some p)
    have acc: "accessible p (length bs + 1) m'" and keep: "m a \<noteq> None \<Longrightarrow> m' a = m a \<and> \<not> (p \<le> a \<and> a < p + (length bs + 1))" for a
      using assms(2) [of "length bs + 1" p m'] k Some by auto
    have src: "m (src + i) \<noteq> None" if "i \<le> length bs" for i
      using is_cstr_accessible [OF assms(1)] that by (auto simp: accessible_def)
    have s': "is_cstr m' src bs" by (rule is_cstr_cong [OF assms(1)]) (use keep src in auto)
    have dis: "p \<le> src \<or> src + (length bs + 1) \<le> p"
    proof (rule ccontr)
      assume neg: "\<not> ?thesis"
      then have "p - src \<le> length bs" and "src + (p - src) = p" by linarith+
      with src [of "p - src"] keep [of p] show False by simp
    qed
    have "memcpy p src (length bs + 1) m' = Some (copied p src (length bs + 1) m')"
      using memcpy_ok [OF is_cstr_accessible [OF s'] acc] dis by (simp add: forward_ok_def)
    moreover have "is_cstr (copied p src (length bs + 1) m') src bs"
      by (rule is_cstr_cong [OF s']) (use keep src in \<open>auto simp: copied_def\<close>)
    moreover have "copied p src (length bs + 1) m' a = m a" if "m a \<noteq> None" for a
      using keep [OF that] by (auto simp: copied_def)
    ultimately show ?thesis
      using Some k strlen_ok [OF assms(1)] copied_cstr [OF s', of p] by (auto simp: kstrdup_def)
  qed
qed

section \<open>Numbers: correctness\<close>

definition is_digit_of :: "nat \<Rightarrow> u8 \<Rightarrow> bool" where
  "is_digit_of base b \<longleftrightarrow> isxdigit (sint b) \<and> digit_value (sint b) < of_nat base"

definition number_of :: "nat \<Rightarrow> u64 \<Rightarrow> u8 list \<Rightarrow> u64" where
  "number_of base v ds = foldl (\<lambda>v d. v * of_nat base + digit_value (sint d)) v ds"

lemma strtoux_loop_ok:
  "\<forall>d\<in>set ds. is_digit_of base d \<Longrightarrow> \<not> is_digit_of base c \<Longrightarrow>
   \<forall>i<length ds. m (a + i) = Some (ds ! i) \<Longrightarrow> m (a + length ds) = Some c \<Longrightarrow>
   strtoux_loop base v a m = Some (number_of base v ds, a + length ds)"
proof (induction ds arbitrary: a v)
  case Nil
  then show ?case by (subst strtoux_loop.simps) (auto simp: is_digit_of_def number_of_def)
next
  case (Cons d ds)
  have "strtoux_loop base (v * of_nat base + digit_value (sint d)) (a + 1) m
      = Some (number_of base (v * of_nat base + digit_value (sint d)) ds, a + 1 + length ds)"
  proof (rule Cons.IH)
    show "\<forall>i<length ds. m (a + 1 + i) = Some (ds ! i)" using Cons.prems(3) by (auto dest: spec [of _ "Suc _"])
  qed (use Cons.prems in auto)
  moreover have "m a = Some d" using Cons.prems(3) by auto
  ultimately show ?case
    using Cons.prems(1) by (subst strtoux_loop.simps) (simp add: is_digit_of_def number_of_def)
qed

section \<open>Witnesses\<close>

text \<open>The string ``a,b'' at address 0, the string ``,'' at address 10, and free space from 20 on.\<close>

definition demo_strings :: mem where
  "demo_strings = (\<lambda>a. if a < 4 then Some ([97, 44, 98, 0] ! a) else if a = 10 then Some 44
     else if a = 11 then Some 0 else None)"

lemma demo_cstr: "is_cstr demo_strings 0 [97, 44, 98]" "is_cstr demo_strings 10 [44]"
  by (auto simp: demo_strings_def nth_Cons' less_Suc_eq)

theorem strnlen_reads_past_limit_witness: "strnlen 0 2 (\<lambda>a. if a < 2 then Some 65 else None) = None"
  using strnlen_reads_past_limit [of 2 "\<lambda>a. if a < 2 then Some 65 else None" 0] by simp

theorem strcmp_correct_witness: "\<exists>r. strcmp 0 10 demo_strings = Some r \<and> r \<noteq> 0"
  using strcmp_correct [OF demo_cstr] by auto

theorem strstr_correct_witness: "strstr 0 10 demo_strings = Some (Some 1)"
  using strstr_correct [OF demo_cstr] by (simp add: upt_rec)

theorem strsep_correct_witness: "\<exists>m'. strsep (Some 0) 10 demo_strings = Some (Some 0, Some 2, m') \<and> is_cstr m' 0 [97]"
proof -
  obtain rest m' where r: "strsep (Some 0) 10 demo_strings = Some (Some 0, rest, m')"
      "case rest of None \<Rightarrow> m' = demo_strings \<and> set [97, 44, 98] \<inter> set [44 :: u8] = {}
       | Some r \<Rightarrow> \<exists>tk c us. [97, 44, 98] = tk @ c # us \<and> c \<in> set [44 :: u8] \<and> set tk \<inter> set [44] = {}
           \<and> is_cstr m' 0 tk \<and> is_cstr m' r us \<and> r = 0 + length tk + 1 \<and> m' = demo_strings(0 + length tk \<mapsto> 0)"
    using strsep_correct [OF demo_cstr(2,1)] by blast
  then show ?thesis by (auto simp: Cons_eq_append_conv split: option.splits)
qed

theorem strstrip_correct_witness: "\<exists>a' m'. strstrip 0 demo_strings = Some (a', m') \<and> is_cstr m' a' [97, 44, 98]"
  using strstrip_correct [OF demo_cstr(1)] by (auto simp: strip_end_def isspace_def)

theorem kstrdup_correct_witness:
  "\<exists>m''. kstrdup (\<lambda>n m. (Some 20, \<lambda>a. if 20 \<le> a \<and> a < 20 + n then Some 0 else m a)) 10 demo_strings = Some (Some 20, m'')
     \<and> is_cstr m'' 20 [44]"
proof -
  let ?k = "\<lambda>n (m :: mem). (Some (20 :: nat), \<lambda>a. if 20 \<le> a \<and> a < 20 + n then Some 0 else m a)"
  have law: "accessible p n m' \<and> (\<forall>a. demo_strings a \<noteq> None \<longrightarrow> m' a = demo_strings a \<and> \<not> (p \<le> a \<and> a < p + n))"
    if "?k n demo_strings = (Some p, m')" for n p m'
    using that by (auto simp: accessible_def demo_strings_def split: if_splits)
  obtain r m'' where "kstrdup ?k 10 demo_strings = Some (r, m'')"
      "case r of None \<Rightarrow> \<exists>m'. ?k (length [44 :: u8] + 1) demo_strings = (None, m')
       | Some p \<Rightarrow> is_cstr m'' p [44] \<and> is_cstr m'' 10 [44] \<and> (\<forall>a. demo_strings a \<noteq> None \<longrightarrow> m'' a = demo_strings a)"
    using kstrdup_correct [where kmalloc = ?k, OF demo_cstr(2)] law by blast
  moreover have "r = Some 20" using calculation strlen_ok [OF demo_cstr(2)] by (auto simp: kstrdup_def split: option.splits)
  ultimately show ?thesis by auto
qed

end
