(* ===== verification/Printf.thy ===== *)
theory Printf
  imports Kernel_String
begin

text \<open>
  \<open>lib/printf.c\<close> and the formatting functions of \<open>lib/string.c\<close>. The output of \<open>do_vprintf\<close> goes
  through a helper, a parameter here as it is in the code: it gets a byte, its own data, the running
  total and the memory. The variable arguments are a list of 64-bit slots, as in the amd64 calling
  convention; taking one too many has no result. The format string is read from a memory of its own,
  so that a string literal of the code is a format too. \<open>symbol_from_addr\<close> is a parameter: it returns
  whether a symbol was found, the address of its name, and the offset.
\<close>

lemma bind_SomeE: "Option.bind x f = Some y \<Longrightarrow> (\<And>a. x = Some a \<Longrightarrow> f a = Some y \<Longrightarrow> Q) \<Longrightarrow> Q"
  by auto

lemma if_SomeE: "(if c then x else y) = Some z \<Longrightarrow> (c \<Longrightarrow> x = Some z \<Longrightarrow> Q) \<Longrightarrow> (\<not> c \<Longrightarrow> y = Some z \<Longrightarrow> Q) \<Longrightarrow> Q"
  by (simp split: if_splits)

section \<open>State and flags\<close>

definition PRINTF_ZERO_PAD :: u32 where "PRINTF_ZERO_PAD = 1"
definition PRINTF_SIGN_CHAR :: u32 where "PRINTF_SIGN_CHAR = 2"
definition PRINTF_SPACE_CHAR :: u32 where "PRINTF_SPACE_CHAR = 4"
definition PRINTF_LEFT_JUSTIFY :: u32 where "PRINTF_LEFT_JUSTIFY = 8"
definition PRINTF_PREFIX :: u32 where "PRINTF_PREFIX = 16"
definition PRINTF_LOW_CASE :: u32 where "PRINTF_LOW_CASE = 32"
definition PRINTF_SIGNED :: u32 where "PRINTF_SIGNED = 64"

lemmas printf_flag_defs = PRINTF_ZERO_PAD_def PRINTF_SIGN_CHAR_def PRINTF_SPACE_CHAR_def
  PRINTF_LEFT_JUSTIFY_def PRINTF_PREFIX_def PRINTF_LOW_CASE_def PRINTF_SIGNED_def

type_synonym 'd helper = "u8 \<Rightarrow> 'd \<Rightarrow> int \<Rightarrow> mem \<Rightarrow> ('d \<times> int \<times> mem) option"

record 'd printf_state =
  pf_data :: 'd
  pf_total :: int
  pf_mem :: mem
  pf_flags :: u32
  pf_width :: int
  pf_precision :: int
  pf_base :: nat

definition has :: "u32 \<Rightarrow> 'd printf_state \<Rightarrow> bool" where
  "has f st \<longleftrightarrow> pf_flags st AND f \<noteq> 0"

section \<open>Characters and numbers\<close>

definition print_char :: "'d helper \<Rightarrow> u8 \<Rightarrow> 'd printf_state \<Rightarrow> 'd printf_state option" where
  "print_char helper ch st = do {
     (d, t, m) \<leftarrow> helper ch (pf_data st) (pf_total st) (pf_mem st);
     Some (st\<lparr>pf_data := d, pf_total := t, pf_mem := m\<rparr>)}"

fun print_string :: "'d helper \<Rightarrow> nat \<Rightarrow> nat \<Rightarrow> 'd printf_state \<Rightarrow> 'd printf_state option" where
  "print_string helper str 0 st = Some st"
| "print_string helper str (Suc n) st = do {
     ch \<leftarrow> pf_mem st str;
     st \<leftarrow> print_char helper ch st;
     print_string helper (str + 1) n st}"

text \<open>The bytes of a list in order, as the loop over the digit buffer prints them.\<close>

fun print_list :: "'d helper \<Rightarrow> u8 list \<Rightarrow> 'd printf_state \<Rightarrow> 'd printf_state option" where
  "print_list helper [] st = Some st"
| "print_list helper (b # bs) st = do {st \<leftarrow> print_char helper b st; print_list helper bs st}"

text \<open>The padding loops: \<open>while(--width >= 0)\<close>, \<open>while(--width > 0)\<close>, \<open>while(len < width--)\<close> and
  \<open>while(i <= --precision)\<close>.\<close>

partial_function (option) pad_width :: "'d helper \<Rightarrow> u8 \<Rightarrow> 'd printf_state \<Rightarrow> 'd printf_state option" where
  "pad_width helper ch st =
     (let st = st\<lparr>pf_width := pf_width st - 1\<rparr>
      in if pf_width st \<ge> 0 then do {st \<leftarrow> print_char helper ch st; pad_width helper ch st} else Some st)"

partial_function (option) pad_char :: "'d helper \<Rightarrow> 'd printf_state \<Rightarrow> 'd printf_state option" where
  "pad_char helper st =
     (let st = st\<lparr>pf_width := pf_width st - 1\<rparr>
      in if pf_width st > 0 then do {st \<leftarrow> print_char helper 32 st; pad_char helper st} else Some st)"

partial_function (option) pad_string :: "'d helper \<Rightarrow> int \<Rightarrow> 'd printf_state \<Rightarrow> 'd printf_state option" where
  "pad_string helper len st =
     (let w = pf_width st; st = st\<lparr>pf_width := w - 1\<rparr>
      in if len < w then do {st \<leftarrow> print_char helper 32 st; pad_string helper len st} else Some st)"

partial_function (option) pad_precision :: "'d helper \<Rightarrow> int \<Rightarrow> 'd printf_state \<Rightarrow> 'd printf_state option" where
  "pad_precision helper i st =
     (let st = st\<lparr>pf_precision := pf_precision st - 1\<rparr>
      in if i \<le> pf_precision st then do {st \<leftarrow> print_char helper 48 st; pad_precision helper i st} else Some st)"

definition printf_digit :: "bool \<Rightarrow> u64 \<Rightarrow> u8" where
  "printf_digit low tmp =
     (if low then [48, 49, 50, 51, 52, 53, 54, 55, 56, 57, 97, 98, 99, 100, 101, 102] ! unat tmp
      else [48, 49, 50, 51, 52, 53, 54, 55, 56, 57, 65, 66, 67, 68, 69, 70] ! unat tmp)"

text \<open>The digits, least significant first, in a buffer of 64 bytes.\<close>

function number_digits :: "bool \<Rightarrow> nat \<Rightarrow> u64 \<Rightarrow> u8 list \<Rightarrow> u8 list option" where
  "number_digits low base num buffer =
     (if num \<noteq> 0
      then if base = 0 \<or> 64 \<le> length buffer then None
        else number_digits low base (num div of_nat base) (buffer @ [printf_digit low (num mod of_nat base)])
      else Some buffer)"
  by auto
termination by (relation "measure (\<lambda>(low, base, num, buffer). 64 - length buffer)") auto

declare number_digits.simps [simp del]

definition number_sign :: "u64 \<Rightarrow> 'd printf_state \<Rightarrow> u8 \<times> u64 \<times> 'd printf_state" where
  "number_sign num st =
     (let narrower = st\<lparr>pf_width := pf_width st - 1\<rparr>
      in if has PRINTF_SIGNED st
         then if sint num < 0 then (45, - num, narrower)
              else if has PRINTF_SIGN_CHAR st then (43, num, narrower)
              else if has PRINTF_SPACE_CHAR st then (32, num, narrower)
              else (0, num, st)
         else (0, num, st))"

definition number_prefix_width :: "'d printf_state \<Rightarrow> 'd printf_state" where
  "number_prefix_width st =
     (if has PRINTF_PREFIX st
      then if pf_base st = 8 then st\<lparr>pf_width := pf_width st - 1\<rparr>
           else if pf_base st = 16 then st\<lparr>pf_width := pf_width st - 2\<rparr> else st
      else st)"

text \<open>The writing of a number whose sign and digits are known: \<open>pf_width\<close> is by now the width that is
  left to padding.\<close>

definition print_layout :: "'d helper \<Rightarrow> u8 \<Rightarrow> u8 list \<Rightarrow> 'd printf_state \<Rightarrow> 'd printf_state option" where
  "print_layout helper sign buffer st = do {
     st \<leftarrow> (if \<not> has (PRINTF_LEFT_JUSTIFY OR PRINTF_ZERO_PAD) st then pad_width helper 32 st else Some st);
     st \<leftarrow> (if sign \<noteq> 0 then print_char helper sign st else Some st);
     st \<leftarrow> (if has PRINTF_PREFIX st \<and> (pf_base st = 8 \<or> pf_base st = 16)
            then do {
              st \<leftarrow> print_char helper 48 st;
              if pf_base st = 16 then print_char helper (if has PRINTF_LOW_CASE st then 120 else 88) st else Some st}
            else Some st);
     st \<leftarrow> (if has PRINTF_ZERO_PAD st then pad_width helper 48 st else Some st);
     st \<leftarrow> pad_precision helper (int (length buffer)) st;
     st \<leftarrow> print_list helper (rev buffer) st;
     if has PRINTF_LEFT_JUSTIFY st then pad_width helper 32 st else Some st}"

definition print_number :: "'d helper \<Rightarrow> u64 \<Rightarrow> 'd printf_state \<Rightarrow> 'd printf_state option" where
  "print_number helper num st = (
     let (sign, num, st) = number_sign num st;
         st = number_prefix_width st
     in do {
       buffer \<leftarrow> number_digits (has PRINTF_LOW_CASE st) (pf_base st) num [];
       let i = int (length buffer);
       let st = (if i > pf_precision st then st\<lparr>pf_precision := i\<rparr> else st);
       let st = st\<lparr>pf_width := pf_width st - pf_precision st\<rparr>;
       print_layout helper sign buffer st})"

section \<open>Format strings\<close>

text \<open>The flags after a percent sign at \<open>fmt\<close>; the position is that of the first other character.\<close>

partial_function (option) parse_flags :: "mem \<Rightarrow> nat \<Rightarrow> u32 \<Rightarrow> (u32 \<times> nat) option" where
  "parse_flags fm fmt flags = do {
     c \<leftarrow> fm (fmt + 1);
     if c = 35 then parse_flags fm (fmt + 1) (flags OR PRINTF_PREFIX)
     else if c = 48
     then parse_flags fm (fmt + 1) (if flags AND PRINTF_LEFT_JUSTIFY = 0 then flags OR PRINTF_ZERO_PAD else flags)
     else if c = 45 then parse_flags fm (fmt + 1) (flags AND NOT PRINTF_ZERO_PAD OR PRINTF_LEFT_JUSTIFY)
     else if c = 32 then parse_flags fm (fmt + 1) (flags OR PRINTF_SPACE_CHAR)
     else if c = 43 then parse_flags fm (fmt + 1) (flags OR PRINTF_SIGN_CHAR)
     else Some (flags, fmt + 1)}"

fun va_arg :: "u64 list \<Rightarrow> (u64 \<times> u64 list) option" where
  "va_arg [] = None"
| "va_arg (a # args) = Some (a, args)"

definition int_arg :: "u64 \<Rightarrow> int" where
  "int_arg a = sint (ucast a :: 32 word)"

definition parse_width :: "mem \<Rightarrow> nat \<Rightarrow> u64 list \<Rightarrow> 'd printf_state \<Rightarrow> (nat \<times> u64 list \<times> 'd printf_state) option" where
  "parse_width fm fmt args st = do {
     c \<leftarrow> fm fmt;
     if isdigit (sint c)
     then do {(w, fmt) \<leftarrow> strtol fmt 10 fm; Some (fmt, args, st\<lparr>pf_width := sint w\<rparr>)}
     else if c = 42
     then do {
       (a, args) \<leftarrow> va_arg args;
       let w = int_arg a;
       Some (fmt + 1, args,
         if w < 0 then st\<lparr>pf_flags := pf_flags st OR PRINTF_LEFT_JUSTIFY, pf_width := - w\<rparr>
         else st\<lparr>pf_width := w\<rparr>)}
     else Some (fmt, args, st\<lparr>pf_width := - 1\<rparr>)}"

definition parse_precision :: "mem \<Rightarrow> nat \<Rightarrow> u64 list \<Rightarrow> 'd printf_state \<Rightarrow> (nat \<times> u64 list \<times> 'd printf_state) option" where
  "parse_precision fm fmt args st = do {
     c \<leftarrow> fm fmt;
     if c = 46
     then do {
       c \<leftarrow> fm (fmt + 1);
       if isdigit (sint c)
       then do {
         (p, fmt) \<leftarrow> strtol (fmt + 1) 10 fm;
         Some (fmt, args, st\<lparr>pf_precision := if sint p < 0 then 0 else sint p\<rparr>)}
       else if c = 42
       then do {
         (a, args) \<leftarrow> va_arg args;
         let p = int_arg a;
         Some (fmt + 2, args, st\<lparr>pf_precision := if p < 0 then 0 else p\<rparr>)}
       else Some (fmt + 1, args, st\<lparr>pf_precision := 0\<rparr>)}
     else Some (fmt, args, st\<lparr>pf_precision := - 1\<rparr>)}"

definition parse_length :: "mem \<Rightarrow> nat \<Rightarrow> (u8 \<times> nat) option" where
  "parse_length fm fmt = do {
     c \<leftarrow> fm fmt;
     if c = 104 \<or> c = 122 then Some (c, fmt + 1)
     else if c = 108
     then do {
       c' \<leftarrow> fm (fmt + 1);
       Some (if c' = 108 then (76, fmt + 2) else (c, fmt + 1))}
     else if c = 76 then Some (c, fmt + 1)
     else Some (0, fmt)}"

definition length_arg :: "u8 \<Rightarrow> bool \<Rightarrow> u64 \<Rightarrow> u64" where
  "length_arg len sg a =
     (if len = 104 then if sg then scast (ucast a :: 16 word) else ucast (ucast a :: 16 word)
      else if len = 108 \<or> len = 76 \<or> len = 122 then a
      else if sg then scast (ucast a :: 32 word) else ucast (ucast a :: 32 word))"

text \<open>What one conversion leaves: the loop goes on after \<open>fmt\<close>, or first prints the symbol at an
  address.\<close>

type_synonym 'd conversion = "(u64 \<times> u8) option \<times> nat \<times> u64 list \<times> 'd printf_state"

definition print_pointer ::
  "'d helper \<Rightarrow> mem \<Rightarrow> nat \<Rightarrow> u64 \<Rightarrow> u64 list \<Rightarrow> 'd printf_state \<Rightarrow> 'd conversion option" where
  "print_pointer helper fm fmt ptr args st = (
     let st = st\<lparr>pf_flags := pf_flags st OR (PRINTF_LOW_CASE OR PRINTF_PREFIX)\<rparr>;
         st = (if pf_precision st = - 1 then st\<lparr>pf_precision := 1\<rparr> else st)
     in do {
       c \<leftarrow> fm (fmt + 1);
       if c = 83 \<or> c = 115 \<or> c = 66 then Some (Some (ptr, c), fmt + 1, args, st)
       else do {
         st \<leftarrow> print_number helper ptr (st\<lparr>pf_base := 16\<rparr>);
         Some (None, fmt, args, st)}})"

definition print_char_arg :: "'d helper \<Rightarrow> u8 \<Rightarrow> 'd printf_state \<Rightarrow> 'd printf_state option" where
  "print_char_arg helper ch st =
     (if has PRINTF_LEFT_JUSTIFY st
      then do {st \<leftarrow> print_char helper ch st; pad_char helper st}
      else do {st \<leftarrow> pad_char helper st; print_char helper ch st})"

definition print_string_arg :: "'d helper \<Rightarrow> nat \<Rightarrow> 'd printf_state \<Rightarrow> 'd printf_state option" where
  "print_string_arg helper str st = do {
     n \<leftarrow> strnlen str (unat (word_of_int (pf_precision st) :: u64)) (pf_mem st);
     let len = (of_nat n :: 32 word);
     let count = unat (scast len :: u64);
     if has PRINTF_LEFT_JUSTIFY st
     then do {st \<leftarrow> print_string helper str count st; pad_string helper (sint len) st}
     else do {st \<leftarrow> pad_string helper (sint len) st; print_string helper str count st}}"

fun back_to_percent :: "mem \<Rightarrow> nat \<Rightarrow> nat option" where
  "back_to_percent fm 0 = None"
| "back_to_percent fm (Suc fmt) = do {
     c \<leftarrow> fm fmt;
     if c \<noteq> 37 then back_to_percent fm fmt else Some (Suc fmt)}"

definition print_number_arg ::
  "'d helper \<Rightarrow> nat \<Rightarrow> u8 \<Rightarrow> u64 list \<Rightarrow> 'd printf_state \<Rightarrow> 'd conversion option" where
  "print_number_arg helper fmt len args st = do {
     let st = (if pf_precision st = - 1 then st\<lparr>pf_precision := 1\<rparr> else st);
     (a, args) \<leftarrow> va_arg args;
     st \<leftarrow> print_number helper (length_arg len (has PRINTF_SIGNED st) a) st;
     Some (None, fmt, args, st)}"

definition printf_convert ::
  "'d helper \<Rightarrow> mem \<Rightarrow> nat \<Rightarrow> u8 \<Rightarrow> u64 list \<Rightarrow> 'd printf_state \<Rightarrow> 'd conversion option" where
  "printf_convert helper fm fmt len args st = do {
     let st = st\<lparr>pf_base := 10\<rparr>;
     c \<leftarrow> fm fmt;
     if c = 37 then do {st \<leftarrow> print_char helper 37 st; Some (None, fmt, args, st)}
     else if c = 99
     then do {
       (a, args) \<leftarrow> va_arg args;
       st \<leftarrow> print_char_arg helper (ucast a) st;
       Some (None, fmt, args, st)}
     else if c = 100 \<or> c = 105
     then print_number_arg helper fmt len args (st\<lparr>pf_flags := pf_flags st OR PRINTF_SIGNED\<rparr>)
     else if c = 111 then print_number_arg helper fmt len args (st\<lparr>pf_base := 8\<rparr>)
     else if c = 112
     then do {(a, args) \<leftarrow> va_arg args; print_pointer helper fm fmt a args st}
     else if c = 115
     then do {
       (a, args) \<leftarrow> va_arg args;
       st \<leftarrow> print_string_arg helper (unat a) st;
       Some (None, fmt, args, st)}
     else if c = 117 then print_number_arg helper fmt len args st
     else if c = 120
     then print_number_arg helper fmt len args (st\<lparr>pf_flags := pf_flags st OR PRINTF_LOW_CASE, pf_base := 16\<rparr>)
     else if c = 88 then print_number_arg helper fmt len args (st\<lparr>pf_base := 16\<rparr>)
     else do {
       st \<leftarrow> print_char helper 37 st;
       fmt \<leftarrow> back_to_percent fm fmt;
       Some (None, fmt, args, st)}}"

definition printf_item ::
  "'d helper \<Rightarrow> mem \<Rightarrow> nat \<Rightarrow> u64 list \<Rightarrow> 'd printf_state \<Rightarrow> 'd conversion option" where
  "printf_item helper fm fmt args st = do {
     (flags, fmt) \<leftarrow> parse_flags fm fmt 0;
     (fmt, args, st) \<leftarrow> parse_width fm fmt args (st\<lparr>pf_flags := flags\<rparr>);
     (fmt, args, st) \<leftarrow> parse_precision fm fmt args st;
     (len, fmt) \<leftarrow> parse_length fm fmt;
     printf_convert helper fm fmt len args st}"

text \<open>The string literals of \<open>print_symbol\<close>.\<close>

definition literal :: "u8 list \<Rightarrow> mem" where
  "literal bs = (\<lambda>a. if a < length bs then Some (bs ! a) else if a = length bs then Some 0 else None)"

definition symbol_format :: "bool \<Rightarrow> mem" where
  "symbol_format with_offset =
     literal (if with_offset then [91, 37, 48, 42, 112, 93, 32, 37, 115, 43, 48, 120, 37, 122, 120]
              else [91, 37, 48, 42, 112, 93, 32, 37, 115])"

type_synonym symbol_lookup = "u64 \<Rightarrow> bool \<times> u64 \<times> u64"

definition symbol_args :: "symbol_lookup \<Rightarrow> u64 \<Rightarrow> u8 \<Rightarrow> u64 list" where
  "symbol_args symbol_from_addr ptr ext = (
     let width = 8 * 2 + 2; delta = (if ext = 66 then - 1 else 0);
         (ret, name, off) = symbol_from_addr (ptr + delta)
     in if isupper (sint ext) then [width, ptr, name, if ret then off - delta else 0] else [width, ptr, name])"

definition printf_start :: "'d \<Rightarrow> mem \<Rightarrow> 'd printf_state" where
  "printf_start d m = \<lparr>pf_data = d, pf_total = 0, pf_mem = m, pf_flags = 0, pf_width = 0, pf_precision = 0, pf_base = 0\<rparr>"

partial_function (option) printf_loop ::
  "'d helper \<Rightarrow> symbol_lookup \<Rightarrow> mem \<Rightarrow> nat \<Rightarrow> u64 list \<Rightarrow> 'd printf_state \<Rightarrow> 'd printf_state option" where
  "printf_loop helper symbol_from_addr fm fmt args st = do {
     c \<leftarrow> fm fmt;
     if c = 0 then Some st
     else do {
       (symbol, fmt', args', st') \<leftarrow> (if c \<noteq> 37
          then do {st \<leftarrow> print_char helper c st; Some (None, fmt, args, st)}
          else printf_item helper fm fmt args st);
       case symbol of
         None \<Rightarrow> printf_loop helper symbol_from_addr fm (fmt' + 1) args' st'
       | Some (ptr, ext) \<Rightarrow> do {
           inner \<leftarrow> printf_loop helper symbol_from_addr (symbol_format (isupper (sint ext))) 0
              (symbol_args symbol_from_addr ptr ext) (printf_start (pf_data st') (pf_mem st'));
           printf_loop helper symbol_from_addr fm (fmt' + 1) args'
             (st'\<lparr>pf_data := pf_data inner, pf_mem := pf_mem inner, pf_total := pf_total st' + pf_total inner\<rparr>)}}}"

definition do_vprintf ::
  "'d helper \<Rightarrow> symbol_lookup \<Rightarrow> 'd \<Rightarrow> mem \<Rightarrow> nat \<Rightarrow> u64 list \<Rightarrow> mem \<Rightarrow> (int \<times> 'd \<times> mem) option" where
  "do_vprintf helper symbol_from_addr data fm fmt args m = do {
     st \<leftarrow> printf_loop helper symbol_from_addr fm fmt args (printf_start data m);
     Some (pf_total st, pf_data st, pf_mem st)}"

section \<open>Formatting into a buffer\<close>

record vsnprintf_data =
  vd_buf :: nat
  vd_size :: nat
  vd_off :: nat

definition vsnprintf_helper :: "vsnprintf_data helper" where
  "vsnprintf_helper ch d t m =
     (if vd_off d < vd_size d
      then do {
        m \<leftarrow> store (vd_buf d + vd_off d) ch m;
        Some (d\<lparr>vd_off := vd_off d + 1\<rparr>, t + 1, m)}
      else Some (d, t, m))"

text \<open>The terminator after the characters, or over the last of them: at \<open>data.size - 1\<close>, which is one
  below the buffer when \<open>data.size\<close> is 0.\<close>

definition vsnprintf_terminate :: "vsnprintf_data \<Rightarrow> mem \<Rightarrow> mem option" where
  "vsnprintf_terminate d m =
     (if vd_off d < vd_size d then store (vd_buf d + vd_off d) 0 m
      else if vd_buf d + vd_size d = 0 then None
      else store (vd_buf d + vd_size d - 1) 0 m)"

definition vsnprintf ::
  "symbol_lookup \<Rightarrow> nat \<Rightarrow> u64 \<Rightarrow> mem \<Rightarrow> nat \<Rightarrow> u64 list \<Rightarrow> mem \<Rightarrow> (int \<times> mem) option" where
  "vsnprintf symbol_from_addr buf sz fm fmt args m = do {
     (ret, d, m) \<leftarrow> do_vprintf vsnprintf_helper symbol_from_addr
       \<lparr>vd_buf = buf, vd_size = unat (sz - 1), vd_off = 0\<rparr> fm fmt args m;
     m \<leftarrow> vsnprintf_terminate d m;
     Some (ret, m)}"

definition vsprintf :: "symbol_lookup \<Rightarrow> nat \<Rightarrow> mem \<Rightarrow> nat \<Rightarrow> u64 list \<Rightarrow> mem \<Rightarrow> (int \<times> mem) option" where
  "vsprintf symbol_from_addr buf fm fmt args m = vsnprintf symbol_from_addr buf (- 1) fm fmt args m"


section \<open>Output as a list of bytes\<close>

text \<open>\<open>out h bs w p\<close> prints \<open>bs\<close> and leaves the width \<open>w\<close> and the precision \<open>p\<close>.\<close>

definition out :: "'d helper \<Rightarrow> u8 list \<Rightarrow> int \<Rightarrow> int \<Rightarrow> 'd printf_state \<Rightarrow> 'd printf_state option" where
  "out h bs w p st = map_option (\<lambda>s. s\<lparr>pf_width := w, pf_precision := p\<rparr>) (print_list h bs st)"

lemma print_char_frame:
  "print_char h b st = Some s \<Longrightarrow> pf_flags s = pf_flags st \<and> pf_width s = pf_width st
     \<and> pf_precision s = pf_precision st \<and> pf_base s = pf_base st"
  by (auto simp: print_char_def)

lemma print_list_frame:
  "print_list h bs st = Some s \<Longrightarrow> pf_flags s = pf_flags st \<and> pf_width s = pf_width st
     \<and> pf_precision s = pf_precision st \<and> pf_base s = pf_base st"
  by (induction bs arbitrary: st) (auto dest!: print_char_frame)

lemma print_char_update:
  "print_char h b (st\<lparr>pf_width := w, pf_precision := p\<rparr>)
     = map_option (\<lambda>s. s\<lparr>pf_width := w, pf_precision := p\<rparr>) (print_char h b st)"
  by (cases "h b (pf_data st) (pf_total st) (pf_mem st)") (auto simp: print_char_def)

lemma print_list_update:
  "print_list h bs (st\<lparr>pf_width := w, pf_precision := p\<rparr>)
     = map_option (\<lambda>s. s\<lparr>pf_width := w, pf_precision := p\<rparr>) (print_list h bs st)"
proof (induction bs arbitrary: st)
  case (Cons b bs)
  then show ?case by (cases "print_char h b st") (auto simp: print_char_update)
qed simp

lemma print_list_append:
  "print_list h (bs @ cs) st = Option.bind (print_list h bs st) (print_list h cs)"
proof (induction bs arbitrary: st)
  case (Cons b bs)
  then show ?case by (cases "print_char h b st") auto
qed simp

lemma out_frame:
  "out h bs w p st = Some s \<Longrightarrow>
     pf_flags s = pf_flags st \<and> pf_base s = pf_base st \<and> pf_width s = w \<and> pf_precision s = p"
  by (auto simp: out_def dest: print_list_frame)

lemma out_update [simp]: "out h bs w p (st\<lparr>pf_width := v, pf_precision := q\<rparr>) = out h bs w p st"
  by (simp add: out_def print_list_update option.map_comp o_def)

lemma out_update_width [simp]: "out h bs w p (st\<lparr>pf_width := v\<rparr>) = out h bs w p st"
  using out_update [where st = st and v = v and q = "pf_precision st"] by simp

lemma out_update_precision [simp]: "out h bs w p (st\<lparr>pf_precision := q\<rparr>) = out h bs w p st"
  using out_update [where st = st and v = "pf_width st" and q = q] by simp

lemma bind_out:
  assumes "\<And>s. pf_flags s = pf_flags st \<Longrightarrow> pf_base s = pf_base st \<Longrightarrow> pf_width s = w \<Longrightarrow>
    pf_precision s = p \<Longrightarrow> f s = out h cs w' p' s"
  shows "Option.bind (out h bs w p st) f = out h (bs @ cs) w' p' st"
proof (cases "print_list h bs st")
  case (Some s)
  then show ?thesis
    using print_list_frame [OF Some] by (simp add: out_def print_list_append assms print_list_update
      option.map_comp o_def)
qed (simp add: out_def print_list_append)

lemma bind_out_eq:
  assumes "bs = bs'"
    and "\<And>s. pf_flags s = pf_flags st \<Longrightarrow> pf_base s = pf_base st \<Longrightarrow> pf_width s = w \<Longrightarrow>
      pf_precision s = p \<Longrightarrow> f s = out h cs w' p' s"
  shows "Option.bind (out h bs w p st) f = out h (bs' @ cs) w' p' st"
  using bind_out [of st w p f h cs w' p' bs] assms by simp

lemma out_nothing: "Some st = out h [] (pf_width st) (pf_precision st) st"
  by (simp add: out_def)

lemma out_char: "print_char h b st = out h [b] (pf_width st) (pf_precision st) st"
proof (cases "print_char h b st")
  case (Some s)
  then show ?thesis using print_char_frame [OF Some] by (simp add: out_def)
qed (simp add: out_def)

lemma out_list: "print_list h bs st = out h bs (pf_width st) (pf_precision st) st"
proof (cases "print_list h bs st")
  case (Some s)
  then show ?thesis using print_list_frame [OF Some] by (simp add: out_def)
qed (simp add: out_def)

lemma out_pad_width:
  "pad_width h b st = out h (replicate (nat (pf_width st)) b) (min (- 1) (pf_width st - 1)) (pf_precision st) st"
proof (induction "nat (pf_width st)" arbitrary: st)
  case 0
  then show ?case by (subst pad_width.simps) (simp add: out_def)
next
  case (Suc n)
  then have n: "nat (pf_width st) = Suc n" "0 \<le> pf_width st - 1" by auto
  have "pad_width h b st
      = Option.bind (out h [b] (pf_width st - 1) (pf_precision st) st) (pad_width h b)"
    using n by (subst pad_width.simps) (simp add: Let_def out_char)
  also have "\<dots> = out h ([b] @ replicate n b) (min (- 1) (pf_width st - 1)) (pf_precision st) st"
  proof (rule bind_out)
    fix s :: "'a printf_state"
    assume "pf_width s = pf_width st - 1" "pf_precision s = pf_precision st"
    moreover from this n have "n = nat (pf_width s)" by simp
    ultimately show "pad_width h b s = out h (replicate n b) (min (- 1) (pf_width st - 1)) (pf_precision st) s"
      using n Suc.hyps(1) [of s] by simp
  qed
  finally show ?case using n by simp
qed

lemma out_pad_precision:
  "pad_precision h i st = out h (replicate (nat (pf_precision st - i)) 48) (pf_width st)
     (min (i - 1) (pf_precision st - 1)) st"
proof (induction "nat (pf_precision st - i)" arbitrary: st)
  case 0
  then show ?case by (subst pad_precision.simps) (simp add: out_def)
next
  case (Suc n)
  then have n: "nat (pf_precision st - i) = Suc n" "i \<le> pf_precision st - 1" by auto
  have "pad_precision h i st
      = Option.bind (out h [48] (pf_width st) (pf_precision st - 1) st) (pad_precision h i)"
    using n by (subst pad_precision.simps) (simp add: Let_def out_char)
  also have "\<dots> = out h ([48] @ replicate n 48) (pf_width st) (min (i - 1) (pf_precision st - 1)) st"
  proof (rule bind_out)
    fix s :: "'a printf_state"
    assume "pf_width s = pf_width st" "pf_precision s = pf_precision st - 1"
    moreover from this n have "n = nat (pf_precision s - i)" by simp
    ultimately show "pad_precision h i s
        = out h (replicate n 48) (pf_width st) (min (i - 1) (pf_precision st - 1)) s"
      using n Suc.hyps(1) [of s] by simp
  qed
  finally show ?case using n by simp
qed


section \<open>Numbers\<close>

fun nat_digits :: "nat \<Rightarrow> nat \<Rightarrow> nat list" where
  "nat_digits b n = (if n = 0 \<or> b < 2 then [] else nat_digits b (n div b) @ [n mod b])"

declare nat_digits.simps [simp del]

definition digit_chars :: "bool \<Rightarrow> nat \<Rightarrow> nat \<Rightarrow> u8 list" where
  "digit_chars low b n = map (\<lambda>d. printf_digit low (of_nat d)) (nat_digits b n)"

lemma nat_digits_less: "d \<in> set (nat_digits b n) \<Longrightarrow> d < b"
proof (induction b n rule: nat_digits.induct)
  case (1 b n)
  then show ?case by (subst (asm) nat_digits.simps) (auto split: if_splits)
qed

lemma number_digits_ok:
  assumes "2 \<le> b" "b \<le> 16" "unat num * 2 ^ length buffer < 2 ^ 64"
  shows "number_digits low b num buffer = Some (buffer @ rev (digit_chars low b (unat num)))"
  using assms
proof (induction low b num buffer rule: number_digits.induct)
  case (1 low b num buffer)
  show ?case
  proof (cases "num = 0")
    case True
    then show ?thesis by (simp add: number_digits.simps digit_chars_def nat_digits.simps)
  next
    case False
    have pos: "0 < unat num" using False by (simp add: unat_gt_0)
    have "(2 :: nat) ^ length buffer \<le> unat num * 2 ^ length buffer" using pos by simp
    with "1.prems"(3) have "(2 :: nat) ^ length buffer < 2 ^ 64" by linarith
    then have len: "length buffer < 64" by (simp only: power_strict_increasing_iff)
    have b64: "unat (of_nat b :: u64) = b" using "1.prems" by (simp add: unat_of_nat take_bit_nat_eq_self)
    have dm: "unat (num div of_nat b) = unat num div b" "num mod of_nat b = of_nat (unat num mod b)"
      using b64 by (simp_all add: unat_div word_arith_nat_mod)
    have "unat num div b * 2 \<le> unat num"
      using "1.prems"(1) by (meson div_times_less_eq_dividend le_trans mult_le_mono2)
    then have "unat num div b * 2 ^ Suc (length buffer) \<le> unat num * 2 ^ length buffer"
      using mult_le_mono1 [of "unat num div b * 2" "unat num" "2 ^ length buffer"] by (simp add: ac_simps)
    with "1.prems"(3) have "unat num div b * 2 ^ Suc (length buffer) < 2 ^ 64" by linarith
    then have "number_digits low b (num div of_nat b) (buffer @ [printf_digit low (num mod of_nat b)])
        = Some ((buffer @ [printf_digit low (num mod of_nat b)]) @ rev (digit_chars low b (unat num div b)))"
      using "1.IH" False "1.prems"(1,2) len dm by simp
    moreover have "digit_chars low b (unat num) = digit_chars low b (unat num div b) @ [printf_digit low (num mod of_nat b)]"
      using pos "1.prems"(1) dm by (simp add: digit_chars_def nat_digits.simps [of b "unat num"])
    ultimately show ?thesis
      using False "1.prems"(1) len by (subst number_digits.simps) simp
  qed
qed

text \<open>The layout that a conversion of a number asks for: padding, sign, prefix, zeros and digits.\<close>

definition flagged :: "u32 \<Rightarrow> u32 \<Rightarrow> bool" where
  "flagged flags f \<longleftrightarrow> flags AND f \<noteq> 0"

definition magnitude :: "u32 \<Rightarrow> u64 \<Rightarrow> u64" where
  "magnitude flags num = (if flagged flags PRINTF_SIGNED \<and> sint num < 0 then - num else num)"

definition sign_image :: "u32 \<Rightarrow> u64 \<Rightarrow> u8 list" where
  "sign_image flags num =
     (if \<not> flagged flags PRINTF_SIGNED then [] else if sint num < 0 then [45]
      else if flagged flags PRINTF_SIGN_CHAR then [43] else if flagged flags PRINTF_SPACE_CHAR then [32] else [])"

definition prefix_image :: "u32 \<Rightarrow> nat \<Rightarrow> u8 list" where
  "prefix_image flags base =
     (if \<not> flagged flags PRINTF_PREFIX then [] else if base = 8 then [48]
      else if base = 16 then [48, if flagged flags PRINTF_LOW_CASE then 120 else 88] else [])"

definition digits_image :: "u32 \<Rightarrow> int \<Rightarrow> nat \<Rightarrow> u64 \<Rightarrow> u8 list" where
  "digits_image flags precision base num = (
     let digits = digit_chars (flagged flags PRINTF_LOW_CASE) base (unat (magnitude flags num))
     in replicate (nat precision - length digits) 48 @ digits)"

definition number_image :: "u32 \<Rightarrow> int \<Rightarrow> int \<Rightarrow> nat \<Rightarrow> u64 \<Rightarrow> u8 list" where
  "number_image flags width precision base num = (
     let front = sign_image flags num @ prefix_image flags base;
         number = digits_image flags precision base num;
         pad = nat (width - int (length (front @ number)))
     in if flagged flags PRINTF_ZERO_PAD then front @ replicate pad 48 @ number
        else if flagged flags PRINTF_LEFT_JUSTIFY then front @ number @ replicate pad 32
        else replicate pad 32 @ front @ number)"

lemma has_flagged: "has f st = flagged (pf_flags st) f"
  by (simp add: has_def flagged_def)

lemma flagged_or: "flagged x (f OR g) \<longleftrightarrow> flagged x f \<or> flagged x g"
  by (simp add: flagged_def bit.conj_disj_distrib or_eq_0_iff)

lemma number_sign_eq:
  "number_sign num st = (case sign_image (pf_flags st) num of [] \<Rightarrow> 0 | c # _ \<Rightarrow> c, magnitude (pf_flags st) num,
     st\<lparr>pf_width := pf_width st - int (length (sign_image (pf_flags st) num))\<rparr>)"
  by (simp add: number_sign_def sign_image_def magnitude_def has_flagged)

lemma number_prefix_width_eq:
  "number_prefix_width st = st\<lparr>pf_width := pf_width st - int (length (prefix_image (pf_flags st) (pf_base st)))\<rparr>"
  by (simp add: number_prefix_width_def prefix_image_def has_flagged)

lemma out_pad_if:
  "(if c then pad_width h b s else Some s)
     = out h (if c then replicate (nat (pf_width s)) b else [])
         (if c then min (- 1) (pf_width s - 1) else pf_width s) (pf_precision s) s"
  by (simp add: out_pad_width out_nothing)

lemma out_sign:
  "(if (case sign_image x num of [] \<Rightarrow> 0 | c # _ \<Rightarrow> c) \<noteq> 0
    then print_char h (case sign_image x num of [] \<Rightarrow> 0 | c # _ \<Rightarrow> c) s else Some s)
     = out h (sign_image x num) (pf_width s) (pf_precision s) s"
  by (simp add: sign_image_def out_char out_nothing)

lemma out_prefix:
  "(if has PRINTF_PREFIX s \<and> (pf_base s = 8 \<or> pf_base s = 16)
    then do {
      s \<leftarrow> print_char h 48 s;
      if pf_base s = 16 then print_char h (if has PRINTF_LOW_CASE s then 120 else 88) s else Some s}
    else Some s) = out h (prefix_image (pf_flags s) (pf_base s)) (pf_width s) (pf_precision s) s"
proof (cases "has PRINTF_PREFIX s \<and> (pf_base s = 8 \<or> pf_base s = 16)")
  case True
  have "Option.bind (out h [48] (pf_width s) (pf_precision s) s)
      (\<lambda>s. if pf_base s = 16 then print_char h (if has PRINTF_LOW_CASE s then 120 else 88) s else Some s)
    = out h ([48] @ (if pf_base s = 16 then [if flagged (pf_flags s) PRINTF_LOW_CASE then 120 else 88] else []))
        (pf_width s) (pf_precision s) s"
    by (rule bind_out) (simp add: out_char [of h] out_nothing [of _ h] has_flagged)
  with True show ?thesis by (auto simp: prefix_image_def has_flagged out_char [of h 48])
qed (auto simp: prefix_image_def has_flagged out_nothing)

text \<open>The printing steps of a number once its digits are known; \<open>pf_width\<close> is the padding.\<close>

definition layout_image :: "u32 \<Rightarrow> int \<Rightarrow> int \<Rightarrow> u8 list \<Rightarrow> u8 list \<Rightarrow> u8 list" where
  "layout_image flags w p front ds = (
     let number = replicate (nat p - length ds) 48 @ ds
     in if flagged flags PRINTF_ZERO_PAD then front @ replicate (nat w) 48 @ number
        else if flagged flags PRINTF_LEFT_JUSTIFY then front @ number @ replicate (nat w) 32
        else replicate (nat w) 32 @ front @ number)"

lemma print_layout_steps:
  fixes st :: "'d printf_state"
  assumes "F = pf_flags st" "B = pf_base st" "w = pf_width st" "p = pf_precision st"
  defines "wl \<equiv> (if \<not> flagged F (PRINTF_LEFT_JUSTIFY OR PRINTF_ZERO_PAD) then min (- 1) (w - 1) else w)"
  defines "wz \<equiv> (if flagged F PRINTF_ZERO_PAD then min (- 1) (wl - 1) else wl)"
  shows "print_layout h (case sign_image F num of [] \<Rightarrow> 0 | c # _ \<Rightarrow> c) buffer st
    = out h ((if \<not> flagged F (PRINTF_LEFT_JUSTIFY OR PRINTF_ZERO_PAD) then replicate (nat w) 32 else [])
        @ sign_image F num @ prefix_image F B
        @ (if flagged F PRINTF_ZERO_PAD then replicate (nat wl) 48 else [])
        @ replicate (nat (p - int (length buffer))) 48 @ rev buffer
        @ (if flagged F PRINTF_LEFT_JUSTIFY then replicate (nat wz) 32 else []))
       (if flagged F PRINTF_LEFT_JUSTIFY then min (- 1) (wz - 1) else wz) (min (int (length buffer) - 1) (p - 1)) st"
  unfolding print_layout_def out_prefix out_sign out_pad_if out_pad_precision out_list
  unfolding assms(1-4) [symmetric] has_flagged
  by (intro bind_out_eq) (simp_all add: wl_def wz_def assms(1,2))

lemma print_layout_ok:
  "\<exists>w p. print_layout h (case sign_image (pf_flags st) num of [] \<Rightarrow> 0 | c # _ \<Rightarrow> c) buffer st
    = out h (layout_image (pf_flags st) (pf_width st) (pf_precision st)
        (sign_image (pf_flags st) num @ prefix_image (pf_flags st) (pf_base st)) (rev buffer)) w p st"
proof -
  have "nat (pf_precision st - int (length buffer)) = nat (pf_precision st) - length buffer" by auto
  then show ?thesis
    by (subst print_layout_steps [OF refl refl refl refl]) (auto simp: layout_image_def flagged_or Let_def)
qed

lemma precision_width_commute:
  "st\<lparr>pf_precision := p, pf_width := w\<rparr> = (st\<lparr>pf_width := w, pf_precision := p\<rparr> :: 'd printf_state)"
  by (cases st) simp

lemma print_number_ok:
  assumes "2 \<le> pf_base st" "pf_base st \<le> 16" "0 \<le> pf_precision st"
  shows "\<exists>w p. print_number h num st
    = out h (number_image (pf_flags st) (pf_width st) (pf_precision st) (pf_base st) num) w p st"
proof -
  let ?F = "pf_flags st" and ?B = "pf_base st"
  let ?ds = "digit_chars (flagged ?F PRINTF_LOW_CASE) ?B (unat (magnitude ?F num))"
  let ?front = "sign_image ?F num @ prefix_image ?F ?B"
  let ?p = "max (int (length ?ds)) (pf_precision st)"
  let ?w = "pf_width st - int (length ?front) - ?p"
  let ?st = "st\<lparr>pf_width := ?w, pf_precision := ?p\<rparr>"
  have dig: "number_digits low ?B (magnitude ?F num) [] = Some (rev (digit_chars low ?B (unat (magnitude ?F num))))" for low
    using number_digits_ok [OF assms(1,2), of "magnitude ?F num" "[]"] unsigned_less [of "magnitude ?F num"] by simp
  have "print_number h num st = print_layout h (case sign_image ?F num of [] \<Rightarrow> 0 | c # _ \<Rightarrow> c) (rev ?ds) ?st"
    by (simp add: print_number_def number_sign_eq number_prefix_width_eq dig has_flagged Let_def
      precision_width_commute algebra_simps max_def)
  moreover have "layout_image ?F ?w ?p ?front ?ds = number_image ?F (pf_width st) (pf_precision st) ?B num"
  proof -
    have body: "replicate (nat ?p - length ?ds) 48 @ ?ds = digits_image ?F (pf_precision st) ?B num"
      by (simp add: digits_image_def Let_def)
    have "int (length (digits_image ?F (pf_precision st) ?B num)) = ?p"
      using assms(3) by (simp add: digits_image_def Let_def)
    then have w: "?w = pf_width st - int (length (?front @ digits_image ?F (pf_precision st) ?B num))"
      by simp
    show ?thesis unfolding layout_image_def number_image_def body w Let_def ..
  qed
  ultimately show ?thesis using print_layout_ok [of h ?st num "rev ?ds"] by auto
qed

section \<open>Reading back what was printed\<close>

lemma printf_digit_table:
  "list_all (\<lambda>(low, d). isxdigit (sint (printf_digit low (of_nat d)))
      \<and> digit_value (sint (printf_digit low (of_nat d))) = of_nat d
      \<and> printf_digit low (of_nat d) \<noteq> 0 \<and> (d \<noteq> 0 \<longrightarrow> printf_digit low (of_nat d) \<noteq> 48))
     (List.product [True, False] [0..<16])"
  by code_simp

lemma printf_digit_value:
  assumes "d < 16"
  shows "isxdigit (sint (printf_digit low (of_nat d)))"
    and "digit_value (sint (printf_digit low (of_nat d))) = of_nat d"
    and "printf_digit low (of_nat d) \<noteq> 0"
    and "d \<noteq> 0 \<Longrightarrow> printf_digit low (of_nat d) \<noteq> 48"
proof -
  have "(low, d) \<in> set (List.product [True, False] [0..<16])" using assms by auto
  from printf_digit_table [unfolded list_all_iff, rule_format, OF this]
  show "isxdigit (sint (printf_digit low (of_nat d)))"
    and "digit_value (sint (printf_digit low (of_nat d))) = of_nat d"
    and "printf_digit low (of_nat d) \<noteq> 0"
    and "d \<noteq> 0 \<Longrightarrow> printf_digit low (of_nat d) \<noteq> 48"
    by simp_all
qed

lemma number_of_append: "number_of b v (xs @ ys) = number_of b (number_of b v xs) ys"
  by (simp add: number_of_def)

lemma number_of_digits:
  assumes "2 \<le> b" "b \<le> 16"
  shows "number_of b 0 (digit_chars low b n) = of_nat n"
  using assms
proof (induction b n rule: nat_digits.induct)
  case (1 b n)
  show ?case
  proof (cases "n = 0")
    case True
    then show ?thesis by (simp add: digit_chars_def nat_digits.simps number_of_def)
  next
    case False
    have "n mod b < 16" using 1 by (meson less_le_trans mod_less_divisor zero_less_numeral order_less_le_trans)
    then have "number_of b 0 (digit_chars low b n) = of_nat (n div b) * of_nat b + of_nat (n mod b)"
      using False 1 printf_digit_value(2) [of "n mod b" low]
      by (simp add: digit_chars_def nat_digits.simps [of b n] number_of_append)
        (simp add: number_of_def digit_chars_def)
    also have "\<dots> = of_nat (n div b * b + n mod b)" by (simp only: of_nat_add of_nat_mult)
    finally show ?thesis by simp
  qed
qed

section \<open>Sinks\<close>

text \<open>
  What a helper promises its caller: \<open>holds bs d m\<close> says that the data \<open>d\<close> and the memory \<open>m\<close> are those
  after the characters \<open>bs\<close> have been put, and \<open>counted bs\<close> is what they added to the total. Every
  formatting function, whatever the format and the arguments, then leaves the state after some longer
  sequence of characters.
\<close>

locale printf_sink =
  fixes helper :: "'d helper"
    and holds :: "u8 list \<Rightarrow> 'd \<Rightarrow> mem \<Rightarrow> bool"
    and counted :: "u8 list \<Rightarrow> int"
  assumes put: "holds bs d m \<Longrightarrow>
      \<exists>d' m'. helper ch d t m = Some (d', t + (counted (bs @ [ch]) - counted bs), m') \<and> holds (bs @ [ch]) d' m'"
begin

definition sunk :: "u8 list \<Rightarrow> int \<Rightarrow> 'd printf_state \<Rightarrow> bool" where
  "sunk bs t st \<longleftrightarrow> holds bs (pf_data st) (pf_mem st) \<and> pf_total st = t + counted bs"

definition keeps :: "'d printf_state \<Rightarrow> 'd printf_state \<Rightarrow> bool" where
  "keeps st st' \<longleftrightarrow> (\<forall>bs t. sunk bs t st \<longrightarrow> (\<exists>cs. sunk (bs @ cs) t st'))"

lemma sunk_simps [simp]:
  "sunk bs t (st\<lparr>pf_flags := f\<rparr>) = sunk bs t st" "sunk bs t (st\<lparr>pf_width := w\<rparr>) = sunk bs t st"
  "sunk bs t (st\<lparr>pf_precision := p\<rparr>) = sunk bs t st" "sunk bs t (st\<lparr>pf_base := b\<rparr>) = sunk bs t st"
  by (simp_all add: sunk_def)

lemma keeps_simps [simp]:
  "keeps (st\<lparr>pf_flags := f\<rparr>) s = keeps st s" "keeps (st\<lparr>pf_width := w\<rparr>) s = keeps st s"
  "keeps (st\<lparr>pf_precision := p\<rparr>) s = keeps st s" "keeps (st\<lparr>pf_base := b\<rparr>) s = keeps st s"
  "keeps s (st\<lparr>pf_flags := f\<rparr>) = keeps s st" "keeps s (st\<lparr>pf_width := w\<rparr>) = keeps s st"
  "keeps s (st\<lparr>pf_precision := p\<rparr>) = keeps s st" "keeps s (st\<lparr>pf_base := b\<rparr>) = keeps s st"
  by (simp_all add: keeps_def)

lemma keeps_refl [simp, intro!]: "keeps st st"
  unfolding keeps_def by (metis append_Nil2)

lemma keeps_trans [trans]: "keeps r s \<Longrightarrow> keeps s t \<Longrightarrow> keeps r t"
  unfolding keeps_def by (metis append.assoc)

lemma sunk_char:
  assumes "sunk bs t st"
  shows "\<exists>s. print_char helper ch st = Some s \<and> sunk (bs @ [ch]) t s"
  using put [of bs "pf_data st" "pf_mem st" ch "pf_total st"] assms
  by (auto simp: sunk_def print_char_def)

lemma sunk_list: "sunk bs t st \<Longrightarrow> \<exists>s. print_list helper cs st = Some s \<and> sunk (bs @ cs) t s"
proof (induction cs arbitrary: bs st)
  case (Cons c cs)
  obtain s where s: "print_char helper c st = Some s" "sunk (bs @ [c]) t s" using sunk_char [OF Cons.prems] by blast
  with Cons.IH [OF s(2)] show ?case by simp
qed simp

lemma sunk_out: "sunk bs t st \<Longrightarrow> \<exists>s. out helper cs w p st = Some s \<and> sunk (bs @ cs) t s"
  using sunk_list [of bs t st cs] by (auto simp: out_def)

lemma keeps_char: "print_char helper ch st = Some s \<Longrightarrow> keeps st s"
  unfolding keeps_def by (metis sunk_char option.inject)

lemma keeps_list: "print_list helper cs st = Some s \<Longrightarrow> keeps st s"
  unfolding keeps_def by (metis sunk_list option.inject)

lemma keeps_out: "out helper cs w p st = Some s \<Longrightarrow> keeps st s"
  unfolding keeps_def by (metis sunk_out option.inject)

lemma keeps_pad_width: "pad_width helper b st = Some s \<Longrightarrow> keeps st s"
  unfolding out_pad_width by (rule keeps_out)

lemma keeps_pad_precision: "pad_precision helper i st = Some s \<Longrightarrow> keeps st s"
  unfolding out_pad_precision by (rule keeps_out)

lemma keeps_string: "print_string helper str n st = Some s \<Longrightarrow> keeps st s"
  by (induction n arbitrary: str st) (auto dest: keeps_char intro: keeps_trans)

lemma keeps_pad_char: "pad_char helper st = Some s \<Longrightarrow> keeps st s"
proof (induction "nat (pf_width st)" arbitrary: st rule: less_induct)
  case less
  show ?case
  proof (cases "pf_width st - 1 > 0")
    case True
    obtain u where u: "print_char helper 32 (st\<lparr>pf_width := pf_width st - 1\<rparr>) = Some u" "pad_char helper u = Some s"
      using less.prems True by (subst (asm) pad_char.simps) (auto simp: Let_def)
    have "keeps u s" using less.hyps [OF _ u(2)] print_char_frame [OF u(1)] True by simp
    with keeps_char [OF u(1)] show ?thesis by (auto intro: keeps_trans)
  next
    case False
    then show ?thesis using less.prems by (subst (asm) pad_char.simps) (auto simp: Let_def)
  qed
qed

lemma keeps_pad_string: "pad_string helper len st = Some s \<Longrightarrow> keeps st s"
proof (induction "nat (pf_width st - len)" arbitrary: st rule: less_induct)
  case less
  show ?case
  proof (cases "len < pf_width st")
    case True
    obtain u where u: "print_char helper 32 (st\<lparr>pf_width := pf_width st - 1\<rparr>) = Some u" "pad_string helper len u = Some s"
      using less.prems True by (subst (asm) pad_string.simps) (auto simp: Let_def)
    have "keeps u s" using less.hyps [OF _ u(2)] print_char_frame [OF u(1)] True by simp
    with keeps_char [OF u(1)] show ?thesis by (auto intro: keeps_trans)
  next
    case False
    then show ?thesis using less.prems by (subst (asm) pad_string.simps) (auto simp: Let_def)
  qed
qed

lemmas keeps_steps = keeps_char keeps_list keeps_pad_width keeps_pad_precision keeps_string
  keeps_pad_char keeps_pad_string

lemma keeps_bind:
  "Option.bind x f = Some s \<Longrightarrow> (\<And>u. x = Some u \<Longrightarrow> keeps st u) \<Longrightarrow> (\<And>u. f u = Some s \<Longrightarrow> keeps u s) \<Longrightarrow> keeps st s"
  by (auto intro: keeps_trans)

lemma keeps_if:
  "(if c then x else y) = Some s \<Longrightarrow> (x = Some s \<Longrightarrow> keeps st s) \<Longrightarrow> (y = Some s \<Longrightarrow> keeps st s) \<Longrightarrow> keeps st s"
  by (simp split: if_splits)

lemma keeps_Some: "Some st = Some s \<Longrightarrow> keeps st s"
  by simp

lemma keeps_layout: "print_layout helper sign buffer st = Some s \<Longrightarrow> keeps st s"
  unfolding print_layout_def
  by (erule keeps_bind keeps_if keeps_Some keeps_steps)+

lemma keeps_number: "print_number helper num st = Some s \<Longrightarrow> keeps st s"
  by (auto simp: print_number_def number_sign_eq number_prefix_width_eq Let_def dest!: keeps_layout split: if_splits)

lemma keeps_char_arg: "print_char_arg helper ch st = Some s \<Longrightarrow> keeps st s"
  unfolding print_char_arg_def by (erule keeps_bind keeps_if keeps_Some keeps_steps)+

lemma keeps_string_arg: "print_string_arg helper str st = Some s \<Longrightarrow> keeps st s"
  unfolding print_string_arg_def
  by (auto simp: Let_def split: if_splits dest!: keeps_string keeps_pad_string intro: keeps_trans)

lemma keeps_pointer: "print_pointer helper fm fmt ptr args st = Some (sy, fmt', args', s) \<Longrightarrow> keeps st s"
  by (auto simp: print_pointer_def Let_def split: if_splits dest!: keeps_number)

lemma keeps_number_arg: "print_number_arg helper fmt len args st = Some (sy, fmt', args', s) \<Longrightarrow> keeps st s"
  by (auto simp: print_number_arg_def Let_def split: if_splits dest!: keeps_number)

lemma keeps_convert: "printf_convert helper fm fmt len args st = Some (sy, fmt', args', s) \<Longrightarrow> keeps st s"
  unfolding printf_convert_def
  by (auto simp: Let_def split: if_splits
      dest!: keeps_pointer keeps_number_arg keeps_char keeps_char_arg keeps_string_arg)

lemma keeps_width: "parse_width fm fmt args st = Some (fmt', args', s) \<Longrightarrow> keeps st s"
  unfolding parse_width_def Let_def
  by (elim bind_SomeE if_SomeE; clarsimp)

lemma keeps_precision: "parse_precision fm fmt args st = Some (fmt', args', s) \<Longrightarrow> keeps st s"
  unfolding parse_precision_def Let_def
  by (elim bind_SomeE if_SomeE; clarsimp)

lemma keeps_item: "printf_item helper fm fmt args st = Some (sy, fmt', args', s) \<Longrightarrow> keeps st s"
proof -
  assume "printf_item helper fm fmt args st = Some (sy, fmt', args', s)"
  then obtain flags f1 f2 a2 s2 f3 a3 s3 len f4 where
      "parse_width fm f1 args (st\<lparr>pf_flags := flags\<rparr>) = Some (f2, a2, s2)"
      "parse_precision fm f2 a2 s2 = Some (f3, a3, s3)"
      "printf_convert helper fm f4 len a3 s3 = Some (sy, fmt', args', s)"
    by (auto simp: printf_item_def)
  then show "keeps st s" using keeps_width keeps_precision keeps_convert keeps_trans keeps_simps(1) by metis
qed

lemma keeps_nested:
  assumes "keeps (printf_start (pf_data st) (pf_mem st)) inner"
  shows "keeps st (st\<lparr>pf_data := pf_data inner, pf_mem := pf_mem inner, pf_total := pf_total st + pf_total inner\<rparr>)"
  unfolding keeps_def
proof (intro allI impI)
  fix bs t
  assume "sunk bs t st"
  then have "sunk bs (- counted bs) (printf_start (pf_data st) (pf_mem st))"
    by (simp add: sunk_def printf_start_def)
  then obtain cs where "sunk (bs @ cs) (- counted bs) inner" using assms unfolding keeps_def by blast
  with \<open>sunk bs t st\<close>
  show "\<exists>cs. sunk (bs @ cs) t (st\<lparr>pf_data := pf_data inner, pf_mem := pf_mem inner, pf_total := pf_total st + pf_total inner\<rparr>)"
    by (intro exI [of _ cs]) (simp add: sunk_def)
qed

lemma keeps_loop_step:
  assumes IH: "\<And>sfa fm fmt args st s. rec sfa fm fmt args st = Some s \<Longrightarrow> keeps st s"
    and step: "do {
       c \<leftarrow> fm fmt;
       if c = 0 then Some st
       else do {
         (symbol, fmt', args', st') \<leftarrow> (if c \<noteq> 37
            then do {st \<leftarrow> print_char helper c st; Some (None, fmt, args, st)}
            else printf_item helper fm fmt args st);
         case symbol of
           None \<Rightarrow> rec sfa fm (fmt' + 1) args' st'
         | Some (ptr, ext) \<Rightarrow> do {
             inner \<leftarrow> rec sfa (symbol_format (isupper (sint ext))) 0
                (symbol_args sfa ptr ext) (printf_start (pf_data st') (pf_mem st'));
             rec sfa fm (fmt' + 1) args'
               (st'\<lparr>pf_data := pf_data inner, pf_mem := pf_mem inner, pf_total := pf_total st' + pf_total inner\<rparr>)}}} = Some s"
  shows "keeps st s"
proof (cases "fm fmt = Some 0")
  case True
  with step show ?thesis by simp
next
  case False
  then obtain c where "fm fmt = Some c" "c \<noteq> 0" using step by auto
  then obtain symbol fmt' args' st' where it: "(if c \<noteq> 37
            then do {st \<leftarrow> print_char helper c st; Some (None, fmt, args, st)}
            else printf_item helper fm fmt args st) = Some (symbol, fmt', args', st')"
      and rest: "(case symbol of
           None \<Rightarrow> rec sfa fm (fmt' + 1) args' st'
         | Some (ptr, ext) \<Rightarrow> do {
             inner \<leftarrow> rec sfa (symbol_format (isupper (sint ext))) 0
                (symbol_args sfa ptr ext) (printf_start (pf_data st') (pf_mem st'));
             rec sfa fm (fmt' + 1) args'
               (st'\<lparr>pf_data := pf_data inner, pf_mem := pf_mem inner, pf_total := pf_total st' + pf_total inner\<rparr>)}) = Some s"
    using step by auto
  have "keeps st st'" using it by (auto split: if_splits dest!: keeps_char keeps_item)
  moreover have "keeps st' s"
  proof (cases symbol)
    case None
    then show ?thesis using rest IH by simp
  next
    case (Some pe)
    obtain inner where i: "rec sfa (symbol_format (isupper (sint (snd pe)))) 0 (symbol_args sfa (fst pe) (snd pe))
          (printf_start (pf_data st') (pf_mem st')) = Some inner"
        "rec sfa fm (fmt' + 1) args'
          (st'\<lparr>pf_data := pf_data inner, pf_mem := pf_mem inner, pf_total := pf_total st' + pf_total inner\<rparr>) = Some s"
      using rest Some by (auto split: prod.splits)
    from keeps_nested [OF IH [OF i(1)]] IH [OF i(2)] show ?thesis by (rule keeps_trans)
  qed
  ultimately show ?thesis by (rule keeps_trans)
qed

lemma sunk_number:
  assumes "sunk bs t st" "2 \<le> pf_base st" "pf_base st \<le> 16" "0 \<le> pf_precision st"
  shows "\<exists>s. print_number helper num st = Some s
    \<and> sunk (bs @ number_image (pf_flags st) (pf_width st) (pf_precision st) (pf_base st) num) t s"
  using print_number_ok [OF assms(2-4), of helper num] sunk_out [OF assms(1)] by metis

lemma loop_plain:
  "\<forall>i<length bs. fm (a + i) = Some (bs ! i) \<Longrightarrow> \<forall>b\<in>set bs. b \<noteq> 0 \<and> b \<noteq> 37 \<Longrightarrow> sunk cs t st \<Longrightarrow>
   \<exists>s. sunk (cs @ bs) t s \<and> printf_loop helper sfa fm a args st = printf_loop helper sfa fm (a + length bs) args s"
proof (induction bs arbitrary: a cs st)
  case Nil
  then show ?case by auto
next
  case (Cons b bs)
  obtain s where s: "print_char helper b st = Some s" "sunk (cs @ [b]) t s" using sunk_char [OF Cons.prems(3)] by blast
  have "fm a = Some b" "b \<noteq> 0" "b \<noteq> 37" using Cons.prems(1,2) by auto
  then have step: "printf_loop helper sfa fm a args st = printf_loop helper sfa fm (a + 1) args s"
    using s by (subst printf_loop.simps) simp
  have "\<forall>i<length bs. fm (a + 1 + i) = Some (bs ! i)" using Cons.prems(1) by (auto dest: spec [of _ "Suc _"])
  from Cons.IH [OF this _ s(2)] Cons.prems(2) step show ?case by auto
qed

lemma keeps_loop:
  assumes "printf_loop helper sfa fm fmt args st = Some s"
  shows "keeps st s"
proof -
  have "h = helper \<longrightarrow> keeps st s" if "printf_loop h sfa fm fmt args st = Some s" for h
  proof (rule printf_loop.raw_induct [OF _ that, of "\<lambda>h sfa fm fmt args st s. h = helper \<longrightarrow> keeps st s"], intro impI, goal_cases)
    case (1 rec h sfa fm fmt args st s)
    show ?case
      by (rule keeps_loop_step [of "rec helper" fm fmt st args sfa s]) (use 1 in auto)
  qed
  with assms show ?thesis by simp
qed

end

section \<open>The buffer of vsnprintf\<close>

definition written :: "nat \<Rightarrow> u8 list \<Rightarrow> mem \<Rightarrow> mem" where
  "written a bs m = (\<lambda>x. if a \<le> x \<and> x < a + length bs then Some (bs ! (x - a)) else m x)"

definition buffered :: "nat \<Rightarrow> nat \<Rightarrow> mem \<Rightarrow> u8 list \<Rightarrow> vsnprintf_data \<Rightarrow> mem \<Rightarrow> bool" where
  "buffered buf n m0 bs d m \<longleftrightarrow> accessible buf n m0
     \<and> d = \<lparr>vd_buf = buf, vd_size = n, vd_off = min (length bs) n\<rparr> \<and> m = written buf (take n bs) m0"

lemma written_Nil [simp]: "written a [] m = m"
  by (auto simp: written_def fun_eq_iff)

lemma written_snoc: "(written a bs m)(a + length bs \<mapsto> b) = written a (bs @ [b]) m"
  by (auto simp: written_def fun_eq_iff nth_append)

lemma written_update: "i < length bs \<Longrightarrow> (written a bs m)(a + i \<mapsto> b) = written a (bs[i := b]) m"
  by (auto simp: written_def fun_eq_iff nth_list_update)

lemma written_accessible: "accessible a n m \<Longrightarrow> i < n \<Longrightarrow> written a bs m (a + i) \<noteq> None"
  by (auto simp: written_def accessible_def)

lemma written_cstr: "\<forall>b\<in>set bs. b \<noteq> 0 \<Longrightarrow> is_cstr (written a (bs @ [0]) m) a bs"
  by (auto simp: is_cstr_nth written_def nth_append)

interpretation vsn: printf_sink vsnprintf_helper "buffered buf n m0" "\<lambda>bs. int (min (length bs) n)" for buf n m0
proof
  fix bs d m ch t
  assume b: "buffered buf n m0 bs d m"
  show "\<exists>d' m'. vsnprintf_helper ch d t m
      = Some (d', t + (int (min (length (bs @ [ch])) n) - int (min (length bs) n)), m') \<and> buffered buf n m0 (bs @ [ch]) d' m'"
  proof (cases "length bs < n")
    case True
    then have "m (buf + length bs) \<noteq> None" "take n bs = bs" "take n (bs @ [ch]) = bs @ [ch]"
      using b written_accessible [of buf n m0 "length bs"] by (auto simp: buffered_def)
    moreover from this have "m(buf + length bs \<mapsto> ch) = written buf (bs @ [ch]) m0"
      using b written_snoc [of buf bs m0 ch] by (simp add: buffered_def)
    ultimately show ?thesis
      using b True by (auto simp: vsnprintf_helper_def store_def buffered_def)
  next
    case False
    then show ?thesis using b by (auto simp: vsnprintf_helper_def buffered_def)
  qed
qed

lemma buffered_start:
  "accessible buf n m \<Longrightarrow> vsn.sunk buf n m [] 0 (printf_start \<lparr>vd_buf = buf, vd_size = n, vd_off = 0\<rparr> m)"
  by (simp add: vsn.sunk_def buffered_def printf_start_def)

lemma vsnprintf_terminate_ok:
  assumes "buffered buf n m0 bs d m" "0 < n"
  shows "vsnprintf_terminate d m = Some (written buf (take (n - 1) bs @ [0]) m0)"
proof (cases "length bs < n")
  case True
  then have "m (buf + length bs) \<noteq> None" "take n bs = bs" "take (n - 1) bs = bs"
    using assms written_accessible [of buf n m0 "length bs"] by (auto simp: buffered_def)
  then show ?thesis
    using assms True written_snoc [of buf bs m0 0]
    by (simp add: vsnprintf_terminate_def store_def buffered_def)
next
  case False
  then have "m (buf + (n - 1)) \<noteq> None"
    using assms written_accessible [of buf n m0 "n - 1"] by (auto simp: buffered_def)
  moreover have "(take n bs)[n - 1 := 0] = take (n - 1) bs @ [0]"
    using False assms(2) by (intro nth_equalityI) (auto simp: nth_append nth_list_update)
  ultimately show ?thesis
    using assms False written_update [of "n - 1" "take n bs" buf m0 0]
    by (simp add: vsnprintf_terminate_def store_def buffered_def)
qed

lemma vsnprintf_ok:
  assumes "vsn.sunk buf n m bs 0 st"
    and "printf_loop vsnprintf_helper sfa fm fmt args (printf_start \<lparr>vd_buf = buf, vd_size = n, vd_off = 0\<rparr> m) = Some st"
    and "unat (sz - 1) = n" "0 < n"
  shows "vsnprintf sfa buf sz fm fmt args m = Some (int (min (length bs) n), written buf (take (n - 1) bs @ [0]) m)"
  using assms vsnprintf_terminate_ok [of buf n m bs "pf_data st" "pf_mem st"]
  by (simp add: vsnprintf_def do_vprintf_def vsn.sunk_def)


lemma vsnprintf_plain_ok:
  assumes "is_cstr fm fmt bs" "37 \<notin> set bs" "2 \<le> unat sz" "accessible buf (unat sz - 1) m"
  shows "vsnprintf sfa buf sz fm fmt args m
    = Some (int (min (length bs) (unat sz - 1)), written buf (take (unat sz - 2) bs @ [0]) m)"
proof -
  have n: "unat (sz - 1) = unat sz - 1" using assms(3) by (intro unat_minus_one) auto
  let ?st = "printf_start \<lparr>vd_buf = buf, vd_size = unat sz - 1, vd_off = 0\<rparr> m"
  have plain: "\<forall>i<length bs. fm (fmt + i) = Some (bs ! i)" "\<forall>b\<in>set bs. b \<noteq> 0 \<and> b \<noteq> 37" "fm (fmt + length bs) = Some 0"
    using assms(1,2) by (auto simp: is_cstr_nth in_set_conv_nth)
  obtain s where s: "vsn.sunk buf (unat sz - 1) m bs 0 s"
      "printf_loop vsnprintf_helper sfa fm fmt args ?st = printf_loop vsnprintf_helper sfa fm (fmt + length bs) args s"
    using vsn.loop_plain [OF plain(1,2) buffered_start [OF assms(4)]] by auto
  have "printf_loop vsnprintf_helper sfa fm fmt args ?st = Some s"
    unfolding s(2) using plain(3) by (subst printf_loop.simps) simp
  from vsnprintf_ok [OF s(1) this n] assms(3) show ?thesis by (simp add: numeral_2_eq_2)
qed

text \<open>
  Further property. A format without conversions is copied: \<open>vsnprintf\<close> returns, and the buffer then holds the
  first \<open>sz - 2\<close> characters of the text and a null byte. A text that with its terminator fills the buffer
  exactly loses its last character, although the result counts it.
\<close>

theorem vsnprintf_plain:
  assumes "is_cstr fm fmt bs" "37 \<notin> set bs" "2 \<le> unat sz" "accessible buf (unat sz - 1) m"
  shows "vsnprintf sfa buf sz fm fmt args m
    = Some (int (min (length bs) (unat sz - 1)), written buf (take (unat sz - 2) bs @ [0]) m)"
  by (rule vsnprintf_plain_ok [OF assms])

section \<open>Numbers written and read\<close>

lemma nat_digits_length: "n < b ^ k \<Longrightarrow> length (nat_digits b n) \<le> k"
proof (induction b n arbitrary: k rule: nat_digits.induct)
  case (1 b n)
  show ?case
  proof (cases "n = 0 \<or> b < 2")
    case False
    with "1.prems" obtain k' where k: "k = Suc k'" by (cases k) auto
    have "n div b < b ^ k'" using "1.prems" False k by (simp add: less_mult_imp_div_less mult.commute)
    with "1.IH" False k show ?thesis by (simp add: nat_digits.simps [of b n])
  qed (simp add: nat_digits.simps)
qed

lemma nat_digits_hd: "n \<noteq> 0 \<Longrightarrow> 2 \<le> b \<Longrightarrow> nat_digits b n \<noteq> [] \<and> hd (nat_digits b n) \<noteq> 0"
proof (induction b n rule: nat_digits.induct)
  case (1 b n)
  show ?case
  proof (cases "n div b = 0")
    case True
    then show ?thesis using "1.prems" by (simp add: nat_digits.simps [of b n] nat_digits.simps [of b 0] div_eq_0_iff)
  next
    case False
    then show ?thesis using "1.prems" "1.IH" by (simp add: nat_digits.simps [of b n])
  qed
qed

text \<open>The conversions \<open>%lu\<close>, \<open>%lo\<close> and \<open>%#lx\<close>: their format, base and flags.\<close>

definition long_formats :: "(u8 list \<times> nat \<times> u32) set" where
  "long_formats = {([37, 108, 117], 10, 0), ([37, 108, 111], 8, 0), ([37, 35, 108, 120], 16, PRINTF_PREFIX OR PRINTF_LOW_CASE)}"

lemma parse_flags_stop:
  "fm (fmt + 1) = Some c \<Longrightarrow> c \<notin> {35, 48, 45, 32, 43} \<Longrightarrow> parse_flags fm fmt flags = Some (flags, fmt + 1)"
  by (subst parse_flags.simps) simp

lemma parse_flags_prefix:
  "fm (fmt + 1) = Some 35 \<Longrightarrow> parse_flags fm fmt flags = parse_flags fm (fmt + 1) (flags OR PRINTF_PREFIX)"
  by (subst parse_flags.simps) simp

lemma printf_loop_end: "fm fmt = Some 0 \<Longrightarrow> printf_loop h sfa fm fmt args st = Some st"
  by (subst printf_loop.simps) simp

lemma printf_loop_item:
  assumes "fm fmt = Some 37" "printf_item h fm fmt args st = map_option (\<lambda>s. (None, f', args', s)) x"
    and "fm (f' + 1) = Some 0"
  shows "printf_loop h sfa fm fmt args st = x"
  using assms by (subst printf_loop.simps) (cases x; simp add: printf_loop_end)

lemma long_formatE:
  assumes "(f, base, flags) \<in> long_formats"
  obtains "f = [37, 108, 117]" "base = 10" "flags = 0"
    | "f = [37, 108, 111]" "base = 8" "flags = 0"
    | "f = [37, 35, 108, 120]" "base = 16" "flags = PRINTF_PREFIX OR PRINTF_LOW_CASE"
  using assms by (auto simp: long_formats_def)

lemmas long_format_defs = printf_item_def literal_def parse_width_def isdigit_def parse_precision_def
  parse_length_def printf_convert_def print_number_arg_def length_arg_def

lemma long_format_item:
  assumes "(f, base, flags) \<in> long_formats"
  shows "printf_loop h sfa (literal f) 0 [num] st
    = print_number h num \<lparr>pf_data = pf_data st, pf_total = pf_total st, pf_mem = pf_mem st, pf_flags = flags,
        pf_width = - 1, pf_precision = 1, pf_base = base\<rparr>"
proof (rule printf_loop_item)
  let ?st = "\<lparr>pf_data = pf_data st, pf_total = pf_total st, pf_mem = pf_mem st, pf_flags = flags,
        pf_width = - 1, pf_precision = 1, pf_base = base\<rparr>"
  show "printf_item h (literal f) 0 [num] st
      = map_option (\<lambda>s. (None, length f - 1, [], s)) (print_number h num ?st)"
    using assms
  proof (cases rule: long_formatE)
    case 1
    have "parse_flags (literal f) 0 0 = Some (0, 1)" using 1 parse_flags_stop [of "literal f" 0 108 0] by (simp add: literal_def)
    then show ?thesis using 1 by (cases "print_number h num ?st"; cases st) (simp_all add: long_format_defs)
  next
    case 2
    have "parse_flags (literal f) 0 0 = Some (0, 1)" using 2 parse_flags_stop [of "literal f" 0 108 0] by (simp add: literal_def)
    then show ?thesis using 2 by (cases "print_number h num ?st"; cases st) (simp_all add: long_format_defs)
  next
    case 3
    have "parse_flags (literal f) 0 0 = Some (PRINTF_PREFIX, 2)"
      using 3 parse_flags_prefix [of "literal f" 0 0] parse_flags_stop [of "literal f" 1 108]
      by (simp add: literal_def del: One_nat_def)
    then show ?thesis using 3 by (cases "print_number h num ?st"; cases st) (simp_all add: long_format_defs)
  qed
qed (use assms in \<open>auto simp: long_formats_def literal_def\<close>)

text \<open>The digits printed for an unsigned number: at least one, none of them superfluous.\<close>

lemma digit_is_digit:
  assumes "d < b" "b \<le> 16"
  shows "is_digit_of b (printf_digit low (of_nat d))"
proof -
  have "unat (of_nat d :: u64) = d" "unat (of_nat b :: u64) = b"
    using assms by (simp_all add: unat_of_nat take_bit_nat_eq_self)
  then show ?thesis
    using assms printf_digit_value(1,2) [of d low] by (simp add: is_digit_of_def word_less_nat_alt)
qed

lemma unsigned_digits:
  fixes num :: u64
  assumes "8 \<le> base" "base \<le> 16" "\<not> flagged flags PRINTF_SIGNED"
  defines "ds \<equiv> digits_image flags 1 base num"
  shows "\<forall>d\<in>set ds. is_digit_of base d" "number_of base 0 ds = num" "length ds \<le> 22" "ds \<noteq> []"
    "num = 0 \<Longrightarrow> ds = [48]" "num \<noteq> 0 \<Longrightarrow> hd ds \<noteq> 48" "\<forall>d\<in>set ds. d \<noteq> 0"
proof -
  let ?low = "flagged flags PRINTF_LOW_CASE" and ?n = "unat num"
  have img: "ds = (if num = 0 then [48] else digit_chars ?low base ?n)"
    using assms nat_digits_hd [of ?n base]
    by (auto simp: ds_def digits_image_def magnitude_def digit_chars_def Let_def nat_digits.simps [of base 0] unat_eq_0
        Suc_diff_le Suc_le_eq)
  have zero: "is_digit_of base 48" using digit_is_digit [of 0 base ?low] assms(1,2) by (simp add: printf_digit_def split: if_splits)
  show dig: "\<forall>d\<in>set ds. is_digit_of base d"
    using assms(1,2) zero nat_digits_less [of _ base ?n] digit_is_digit [of _ base ?low]
    by (auto simp: img digit_chars_def)
  show "\<forall>d\<in>set ds. d \<noteq> 0"
    using less_le_trans [OF nat_digits_less assms(2)] printf_digit_value(3) [of _ ?low]
    by (auto simp: img digit_chars_def)
  show "number_of base 0 ds = num"
    using number_of_digits [of base ?low ?n] assms(1,2)
    by (simp add: img number_of_def digit_value_def isdigit_def)
  have "?n < 8 ^ 22" using unsigned_less [of num, where 'a = nat] by simp
  also have "\<dots> \<le> base ^ 22" using assms(1) by (rule power_mono) simp
  finally have "length (nat_digits base ?n) \<le> 22" by (rule nat_digits_length)
  then show "length ds \<le> 22" by (simp add: img digit_chars_def)
  show "ds \<noteq> []" "num = 0 \<Longrightarrow> ds = [48]" using nat_digits_hd [of ?n base] assms(1) by (auto simp: img digit_chars_def unat_eq_0)
  show "hd ds \<noteq> 48" if "num \<noteq> 0"
  proof -
    from that have nz: "?n \<noteq> 0" by (simp add: unat_eq_0)
    with nat_digits_hd [of ?n base] assms(1) have h: "nat_digits base ?n \<noteq> []" "hd (nat_digits base ?n) \<noteq> 0" by auto
    then have "hd (nat_digits base ?n) < 16"
      using nat_digits_less [of "hd (nat_digits base ?n)" base ?n] assms(2) by (auto simp: hd_in_set)
    with h printf_digit_value(4) [of "hd (nat_digits base ?n)" ?low] that show ?thesis
      by (simp add: img digit_chars_def hd_map)
  qed
qed

lemma sint_48: "sint (d :: u8) = 48 \<longleftrightarrow> d = 48"
  using sint_inj [of d 48] by simp

lemma strtoux_digits:
  assumes "is_cstr m a ds" "\<forall>d\<in>set ds. is_digit_of base d"
  shows "strtoux_loop base 0 a m = Some (number_of base 0 ds, a + length ds)"
proof (rule strtoux_loop_ok [OF assms(2)])
  show "\<not> is_digit_of base 0" by (simp add: is_digit_of_def isxdigit_def)
qed (use assms(1) in \<open>simp_all add: is_cstr_nth\<close>)

lemma strtoul_image:
  assumes "(f, base, flags) \<in> long_formats" "is_cstr m a (number_image flags (- 1) 1 base num)"
    and "b = base \<or> b = 0 \<and> base \<noteq> 8"
  shows "strtoul a b m = Some (num, a + length (number_image flags (- 1) 1 base num))"
proof -
  let ?ds = "digits_image flags 1 base num"
  have img: "number_image flags (- 1) 1 base num = prefix_image flags base @ ?ds" and uns: "\<not> flagged flags PRINTF_SIGNED"
    using assms(1) by (auto simp: number_image_def sign_image_def Let_def long_formats_def flagged_def printf_flag_defs)
  have base: "8 \<le> base" "base \<le> 16" using assms(1) by (auto simp: long_formats_def)
  note ds = unsigned_digits [OF base uns, of num]
  from assms(1) show ?thesis
  proof (cases rule: long_formatE)
    case 3
    then have pre: "prefix_image flags base = [48, 120]"
      by (simp add: prefix_image_def flagged_def printf_flag_defs)
    obtain d ds' where dd: "?ds = d # ds'" using ds(4) by (cases ?ds) auto
    have m: "m a = Some 48" "m (a + 1) = Some 120" "m (a + 2) = Some d" "is_cstr m (a + 2) ?ds"
      using assms(2) by (simp_all add: img pre dd)
    have "isxdigit (sint d)" using ds(1) dd by (simp add: is_digit_of_def)
    then have "strtoux_base a b m = Some (a + 2, 16)"
      using assms(3) m 3 by (auto simp: strtoux_base_def tolower_def isalpha_def islower_def isupper_def)
    then show ?thesis unfolding img pre using strtoux_digits [OF m(4) ds(1)] ds(2) 3 by (simp add: strtoul_def)
  next
    case 1
    then have pre: "prefix_image flags base = []" by (simp add: prefix_image_def flagged_def printf_flag_defs)
    then have m: "is_cstr m a ?ds" using assms(2) by (simp add: img)
    show ?thesis
    proof (cases "b = 0 \<and> num = 0")
      case True
      then have "m a = Some 48" "m (a + 1) = Some 0" using m ds(5) by simp_all
      moreover from this have "strtoux_loop 8 0 (a + 1) m = Some (0, a + 1)"
        by (subst strtoux_loop.simps) (simp add: isxdigit_def)
      ultimately show ?thesis unfolding img pre using True ds(5)
        by (simp add: strtoul_def strtoux_base_def tolower_def isalpha_def islower_def isupper_def)
    next
      case False
      obtain d ds' where dd: "?ds = d # ds'" using ds(4) by (cases ?ds) auto
      then have "m a = Some d" "b = 0 \<Longrightarrow> sint d \<noteq> 48" using m ds(6) False by (auto simp: sint_48)
      then have "strtoux_base a b m = Some (a, 10)" using assms(3) 1 by (auto simp: strtoux_base_def)
      then show ?thesis unfolding img pre using strtoux_digits [OF m ds(1)] ds(2) 1 by (simp add: strtoul_def)
    qed
  next
    case 2
    then have pre: "prefix_image flags base = []" by (simp add: prefix_image_def flagged_def printf_flag_defs)
    then have m: "is_cstr m a ?ds" using assms(2) by (simp add: img)
    show ?thesis
      unfolding img pre using strtoux_digits [OF m ds(1)] ds(2) 2 assms(3) by (simp add: strtoul_def strtoux_base_def)
  qed
qed

text \<open>
  Further property. \<open>print_number\<close> writes the number in the layout its conversion asks for, through any helper: the
  padding to the field width, the sign, the prefix of the base, the zeros up to the precision and the
  digits, most significant first, left-justified, zero-padded or right-justified as the flags say. The
  digit buffer of 64 bytes never overflows.
\<close>

theorem print_number_correct:
  assumes "2 \<le> pf_base st" "pf_base st \<le> 16" "0 \<le> pf_precision st"
  shows "\<exists>w p. print_number h num st
    = map_option (\<lambda>s. s\<lparr>pf_width := w, pf_precision := p\<rparr>)
        (print_list h (number_image (pf_flags st) (pf_width st) (pf_precision st) (pf_base st) num) st)"
  using print_number_ok [OF assms, of h num] by (simp add: out_def)

text \<open>
  Property C37. What \<open>vsnprintf\<close> writes, \<open>strtoul\<close> reads back: for every 64-bit number and each of the formats
  \<open>%lu\<close>, \<open>%lo\<close> and \<open>%#lx\<close>, a call with a buffer of at least 26 bytes returns, and \<open>strtoul\<close> on the buffer with
  the base of the format (or with base 0, which detects 10 and 16) returns the number and the address of
  the terminator.
\<close>

theorem vsnprintf_strtoul_roundtrip:
  assumes "(f, base, flags) \<in> long_formats" "26 \<le> unat sz" "accessible buf (unat sz - 1) m"
    and "b = base \<or> b = 0 \<and> base \<noteq> 8"
  shows "\<exists>len m'. vsnprintf sfa buf sz (literal f) 0 [num] m = Some (int len, m')
    \<and> strtoul buf b m' = Some (num, buf + len)"
proof -
  have n: "unat (sz - 1) = unat sz - 1" using assms(2) by (intro unat_minus_one) auto
  let ?st = "printf_start \<lparr>vd_buf = buf, vd_size = unat sz - 1, vd_off = 0\<rparr> m"
  let ?st1 = "\<lparr>pf_data = pf_data ?st, pf_total = pf_total ?st, pf_mem = pf_mem ?st, pf_flags = flags,
        pf_width = - 1, pf_precision = 1, pf_base = base\<rparr>"
  let ?img = "number_image flags (- 1) 1 base num"
  have base: "8 \<le> base" "base \<le> 16" and uns: "\<not> flagged flags PRINTF_SIGNED"
    using assms(1) by (auto simp: long_formats_def flagged_def printf_flag_defs)
  have "vsn.sunk buf (unat sz - 1) m [] 0 ?st1"
    using buffered_start [OF assms(3)] by (simp add: vsn.sunk_def)
  then obtain s where s: "print_number vsnprintf_helper num ?st1 = Some s" "vsn.sunk buf (unat sz - 1) m ?img 0 s"
    using vsn.sunk_number [of buf "unat sz - 1" m "[]" 0 ?st1 num] base by auto
  have "printf_loop vsnprintf_helper sfa (literal f) 0 [num] ?st = Some s"
    using long_format_item [OF assms(1), of vsnprintf_helper sfa num ?st] s(1) by simp
  from vsnprintf_ok [OF s(2) this n] assms(2)
  have v: "vsnprintf sfa buf sz (literal f) 0 [num] m
      = Some (int (min (length ?img) (unat sz - 1)), written buf (take (unat sz - 2) ?img @ [0]) m)"
    by (simp add: numeral_2_eq_2)
  have front: "length (sign_image flags num @ prefix_image flags base) \<le> 2" "0 \<notin> set (sign_image flags num @ prefix_image flags base)"
    using uns by (auto simp: sign_image_def prefix_image_def)
  have img: "?img = sign_image flags num @ prefix_image flags base @ digits_image flags 1 base num"
    by (simp add: number_image_def Let_def)
  then have len: "length ?img \<le> 24" "\<forall>d\<in>set ?img. d \<noteq> 0"
    using front unsigned_digits(3,7) [OF base uns, of num] by auto
  then have "is_cstr (written buf (take (unat sz - 2) ?img @ [0]) m) buf ?img"
    using written_cstr [of ?img buf m] assms(2) by simp
  from strtoul_image [OF assms(1) this assms(4)] v len assms(2) show ?thesis by auto
qed

section \<open>Witnesses\<close>

definition demo_buffer :: mem where
  "demo_buffer = (\<lambda>a. if 100 \<le> a \<and> a < 130 then Some 7 else None)"

lemma demo_buffer_accessible: "n \<le> 30 \<Longrightarrow> accessible 100 n demo_buffer"
  by (simp add: accessible_def demo_buffer_def)

lemma demo_text: "is_cstr (literal [104, 105]) 0 [104, 105]"
  by (simp add: literal_def)

theorem vsnprintf_plain_witness:
  "vsnprintf (\<lambda>_. (False, 0, 0)) 100 3 (literal [104, 105]) 0 [] demo_buffer = Some (2, written 100 [104, 0] demo_buffer)"
  using vsnprintf_plain [OF demo_text, of 3 100 demo_buffer "\<lambda>_. (False, 0, 0)" "[]"] demo_buffer_accessible [of 2] by simp


theorem print_number_correct_witness:
  "\<exists>w p. print_number vsnprintf_helper 42 \<lparr>pf_data = \<lparr>vd_buf = 100, vd_size = 9, vd_off = 0\<rparr>, pf_total = 0,
       pf_mem = demo_buffer, pf_flags = PRINTF_ZERO_PAD, pf_width = 5, pf_precision = 1, pf_base = 10\<rparr>
     = map_option (\<lambda>s. s\<lparr>pf_width := w, pf_precision := p\<rparr>)
        (print_list vsnprintf_helper [48, 48, 48, 52, 50] \<lparr>pf_data = \<lparr>vd_buf = 100, vd_size = 9, vd_off = 0\<rparr>, pf_total = 0,
       pf_mem = demo_buffer, pf_flags = PRINTF_ZERO_PAD, pf_width = 5, pf_precision = 1, pf_base = 10\<rparr>)"
proof -
  have "number_image PRINTF_ZERO_PAD 5 1 10 42 = [48, 48, 48, 52, 50]" by code_simp
  then show ?thesis
    using print_number_correct [of "\<lparr>pf_data = \<lparr>vd_buf = 100, vd_size = 9, vd_off = 0\<rparr>, pf_total = 0,
       pf_mem = demo_buffer, pf_flags = PRINTF_ZERO_PAD, pf_width = 5, pf_precision = 1, pf_base = 10\<rparr>" vsnprintf_helper 42]
    by simp
qed

theorem vsnprintf_strtoul_roundtrip_witness:
  "\<exists>len m'. vsnprintf (\<lambda>_. (False, 0, 0)) 100 26 (literal [37, 108, 117]) 0 [12345] demo_buffer = Some (int len, m')
    \<and> strtoul 100 0 m' = Some (12345, 100 + len)"
  by (rule vsnprintf_strtoul_roundtrip [where base = 10 and flags = 0])
    (use demo_buffer_accessible [of 25] in \<open>simp_all add: long_formats_def\<close>)

end
