(* ===== verification/Qsort.thy ===== *)
theory Qsort
  imports Kernel_Prelude "HOL-Library.Multiset"
begin

text \<open>
  \<open>lib/qsort.c\<close>: quicksort with a median-of-three pivot and an explicit stack, and insertion sort for
  short segments. The array is a list of elements and a pointer into it is an index; an access outside the
  list, or a push beyond the 20 pairs of the stack, has no result. The comparison function is a parameter,
  with the laws of a total preorder as the assumptions of the locale \<open>comparison\<close>.
\<close>

section \<open>Model\<close>

definition memswp :: "nat \<Rightarrow> nat \<Rightarrow> 'a list \<Rightarrow> 'a list option" where
  "memswp i j xs = (if i < length xs \<and> j < length xs then Some (xs[i := xs ! j, j := xs ! i]) else None)"

definition compar_at :: "('a \<Rightarrow> 'a \<Rightarrow> int) \<Rightarrow> nat \<Rightarrow> nat \<Rightarrow> 'a list \<Rightarrow> int option" where
  "compar_at compar i j xs = (if i < length xs \<and> j < length xs then Some (compar (xs ! i) (xs ! j)) else None)"

definition swap_if_greater :: "('a \<Rightarrow> 'a \<Rightarrow> int) \<Rightarrow> nat \<Rightarrow> nat \<Rightarrow> 'a list \<Rightarrow> 'a list option" where
  "swap_if_greater compar i j xs = do {
     r \<leftarrow> compar_at compar i j xs;
     if r > 0 then memswp i j xs else Some xs}"

definition median_of_three :: "('a \<Rightarrow> 'a \<Rightarrow> int) \<Rightarrow> nat \<Rightarrow> nat \<Rightarrow> 'a list \<Rightarrow> 'a list option" where
  "median_of_three compar base limit xs = do {
     xs \<leftarrow> memswp ((limit - base) div 2 + base) base xs;
     xs \<leftarrow> swap_if_greater compar (base + 1) (limit - 1) xs;
     xs \<leftarrow> swap_if_greater compar base (limit - 1) xs;
     swap_if_greater compar (base + 1) base xs}"

partial_function (option) scan_right :: "('a \<Rightarrow> 'a \<Rightarrow> int) \<Rightarrow> nat \<Rightarrow> 'a list \<Rightarrow> nat \<Rightarrow> nat option" where
  "scan_right compar base xs i = do {
     r \<leftarrow> compar_at compar (i + 1) base xs;
     if r < 0 then scan_right compar base xs (i + 1) else Some (i + 1)}"

fun scan_left :: "('a \<Rightarrow> 'a \<Rightarrow> int) \<Rightarrow> nat \<Rightarrow> 'a list \<Rightarrow> nat \<Rightarrow> nat option" where
  "scan_left compar base xs 0 = None"
| "scan_left compar base xs (Suc j) = do {
     r \<leftarrow> compar_at compar j base xs;
     if r > 0 then scan_left compar base xs j else Some j}"

partial_function (option) partition_loop ::
  "('a \<Rightarrow> 'a \<Rightarrow> int) \<Rightarrow> nat \<Rightarrow> nat \<Rightarrow> nat \<Rightarrow> 'a list \<Rightarrow> (nat \<times> nat \<times> 'a list) option" where
  "partition_loop compar base i j xs = do {
     i' \<leftarrow> scan_right compar base xs i;
     j' \<leftarrow> scan_left compar base xs j;
     if i' > j' then Some (i', j', xs)
     else do {ys \<leftarrow> memswp i' j' xs; partition_loop compar base i' j' ys}}"

fun insert_down :: "('a \<Rightarrow> 'a \<Rightarrow> int) \<Rightarrow> nat \<Rightarrow> nat \<Rightarrow> 'a list \<Rightarrow> 'a list option" where
  "insert_down compar base j xs = do {
     r \<leftarrow> compar_at compar j (j + 1) xs;
     if r > 0
     then do {
       xs \<leftarrow> memswp j (j + 1) xs;
       if j = base then Some xs else if j = 0 then None else insert_down compar base (j - 1) xs}
     else Some xs}"

declare insert_down.simps [simp del]

function insertion_sort :: "('a \<Rightarrow> 'a \<Rightarrow> int) \<Rightarrow> nat \<Rightarrow> nat \<Rightarrow> nat \<Rightarrow> 'a list \<Rightarrow> 'a list option" where
  "insertion_sort compar base i limit xs =
     (if i < limit
      then Option.bind (insert_down compar base (i - 1) xs) (insertion_sort compar base (i + 1) limit)
      else Some xs)"
  by auto
termination by (relation "measure (\<lambda>(c, b, i, l, xs). l - i)") auto

declare insertion_sort.simps [simp del]

partial_function (option) qsort_loop ::
  "('a \<Rightarrow> 'a \<Rightarrow> int) \<Rightarrow> nat \<Rightarrow> nat \<Rightarrow> (nat \<times> nat) list \<Rightarrow> 'a list \<Rightarrow> 'a list option" where
  "qsort_loop compar base limit stack xs =
     (if limit - base > 7
      then do {
        ys \<leftarrow> median_of_three compar base limit xs;
        (i, j, ys) \<leftarrow> partition_loop compar base (base + 1) (limit - 1) ys;
        ys \<leftarrow> memswp base j ys;
        if length stack \<ge> 20 then None
        else if j - base > limit - i then qsort_loop compar i limit ((base, j) # stack) ys
        else qsort_loop compar base j ((i, limit) # stack) ys}
      else do {
        ys \<leftarrow> insertion_sort compar base (base + 1) limit xs;
        case stack of [] \<Rightarrow> Some ys | (b, l) # stack' \<Rightarrow> qsort_loop compar b l stack' ys})"

definition qsort :: "('a \<Rightarrow> 'a \<Rightarrow> int) \<Rightarrow> 'a list \<Rightarrow> 'a list option" where
  "qsort compar xs = qsort_loop compar 0 (length xs) [] xs"

section \<open>Rearrangements of a segment\<close>

definition within :: "nat \<Rightarrow> nat \<Rightarrow> 'a list \<Rightarrow> 'a list \<Rightarrow> bool" where
  "within b l xs ys \<longleftrightarrow> length ys = length xs \<and> mset ys = mset xs
     \<and> (\<forall>k. k < b \<or> l \<le> k \<longrightarrow> ys ! k = xs ! k) \<and> (\<forall>k. b \<le> k \<and> k < l \<longrightarrow> (\<exists>k'. b \<le> k' \<and> k' < l \<and> ys ! k = xs ! k'))"

lemma within_refl [simp, intro]: "within b l xs xs"
  by (auto simp: within_def)

lemma within_trans: "within b l xs ys \<Longrightarrow> within b l ys zs \<Longrightarrow> within b l xs zs"
  unfolding within_def by metis

lemma within_length: "within b l xs ys \<Longrightarrow> length ys = length xs"
  by (simp add: within_def)

lemma memswp_ok:
  assumes "b \<le> i" "i < l" "b \<le> j" "j < l" "l \<le> length xs"
  shows "memswp i j xs = Some (xs[i := xs ! j, j := xs ! i])" "within b l xs (xs[i := xs ! j, j := xs ! i])"
proof -
  show "memswp i j xs = Some (xs[i := xs ! j, j := xs ! i])" using assms by (simp add: memswp_def)
  have "mset (xs[i := xs ! j, j := xs ! i]) = mset xs" using assms by (simp add: mset_swap)
  moreover have "\<exists>k'. b \<le> k' \<and> k' < l \<and> xs[i := xs ! j, j := xs ! i] ! k = xs ! k'" if "b \<le> k" "k < l" for k
    using assms that by (cases "k = j"; cases "k = i") (auto simp: nth_list_update)
  ultimately show "within b l xs (xs[i := xs ! j, j := xs ! i])"
    using assms by (auto simp: within_def nth_list_update)
qed

lemma swap_nth:
  "i < length xs \<Longrightarrow> j < length xs \<Longrightarrow> xs[i := xs ! j, j := xs ! i] ! k = (if k = i then xs ! j else if k = j then xs ! i else xs ! k)"
  by (auto simp: nth_list_update)

section \<open>Comparison functions\<close>

locale comparison =
  fixes compar :: "'a \<Rightarrow> 'a \<Rightarrow> int"
  assumes compar_self: "compar x x = 0"
    and compar_swap: "compar x y > 0 \<longleftrightarrow> compar y x < 0"
    and compar_trans: "compar x y \<le> 0 \<Longrightarrow> compar y z \<le> 0 \<Longrightarrow> compar x z \<le> 0"
begin

definition le :: "'a \<Rightarrow> 'a \<Rightarrow> bool" where
  "le x y \<longleftrightarrow> compar x y \<le> 0"

lemma le_refl [simp]: "le x x" by (simp add: le_def compar_self)

lemma le_trans: "le x y \<Longrightarrow> le y z \<Longrightarrow> le x z"
  unfolding le_def by (rule compar_trans)

lemma not_greater: "\<not> compar x y > 0 \<longleftrightarrow> le x y" "\<not> compar x y < 0 \<longleftrightarrow> le y x"
  using compar_swap [of y x] by (auto simp: le_def)

lemma greater_le: "compar x y > 0 \<Longrightarrow> le y x" "compar x y < 0 \<Longrightarrow> le x y"
  using compar_swap [of x y] by (auto simp: le_def)

lemma swap_if_greater_ok:
  assumes "b \<le> i" "i < l" "b \<le> j" "j < l" "l \<le> length xs" "i \<noteq> j"
  obtains ys where "swap_if_greater compar i j xs = Some ys" "within b l xs ys" "le (ys ! i) (ys ! j)"
    "\<forall>k. k \<noteq> i \<longrightarrow> k \<noteq> j \<longrightarrow> ys ! k = xs ! k" "ys ! i = xs ! i \<and> ys ! j = xs ! j \<or> ys ! i = xs ! j \<and> ys ! j = xs ! i"
proof (cases "compar (xs ! i) (xs ! j) > 0")
  case True
  with assms memswp_ok [OF assms(1-5)] that [of "xs[i := xs ! j, j := xs ! i]"] greater_le(1) [OF True] show ?thesis
    by (auto simp: swap_if_greater_def compar_at_def swap_nth)
next
  case False
  with assms that [of xs] not_greater(1) show ?thesis by (auto simp: swap_if_greater_def compar_at_def)
qed

lemma median_of_three_ok:
  assumes "b + 3 \<le> l" "l \<le> length xs"
  obtains ys where "median_of_three compar b l xs = Some ys" "within b l xs ys"
    "le (ys ! (b + 1)) (ys ! b)" "le (ys ! b) (ys ! (l - 1))"
proof -
  let ?m = "(l - b) div 2 + b"
  have m: "b \<le> ?m" "?m < l" using assms by linarith+
  obtain xs1 where 1: "memswp ?m b xs = Some xs1" "within b l xs xs1"
    using memswp_ok [of b ?m l b xs] assms m by auto
  obtain xs2 where 2: "swap_if_greater compar (b + 1) (l - 1) xs1 = Some xs2" "within b l xs1 xs2"
      "le (xs2 ! (b + 1)) (xs2 ! (l - 1))"
    by (rule swap_if_greater_ok [of b "b + 1" l "l - 1" xs1]) (use assms within_length [OF 1(2)] in auto)
  obtain xs3 where 3: "swap_if_greater compar b (l - 1) xs2 = Some xs3" "within b l xs2 xs3"
      "le (xs3 ! b) (xs3 ! (l - 1))" "xs3 ! (b + 1) = xs2 ! (b + 1)"
      "xs3 ! b = xs2 ! b \<and> xs3 ! (l - 1) = xs2 ! (l - 1) \<or> xs3 ! b = xs2 ! (l - 1) \<and> xs3 ! (l - 1) = xs2 ! b"
    by (rule swap_if_greater_ok [of b b l "l - 1" xs2])
      (use assms within_length [OF 1(2)] within_length [OF 2(2)] in auto)
  have top: "le (xs3 ! (b + 1)) (xs3 ! (l - 1))" using 2(3) 3(3-5) le_trans by metis
  obtain ys where 4: "swap_if_greater compar (b + 1) b xs3 = Some ys" "within b l xs3 ys"
      "le (ys ! (b + 1)) (ys ! b)" "ys ! (l - 1) = xs3 ! (l - 1)"
      "ys ! (b + 1) = xs3 ! (b + 1) \<and> ys ! b = xs3 ! b \<or> ys ! (b + 1) = xs3 ! b \<and> ys ! b = xs3 ! (b + 1)"
    by (rule swap_if_greater_ok [of b "b + 1" l b xs3])
      (use assms within_length [OF 1(2)] within_length [OF 2(2)] within_length [OF 3(2)] in auto)
  show ?thesis
  proof (rule that)
    show "median_of_three compar b l xs = Some ys" using 1(1) 2(1) 3(1) 4(1) by (simp add: median_of_three_def)
    show "within b l xs ys" using 1(2) 2(2) 3(2) 4(2) by (blast intro: within_trans)
    show "le (ys ! (b + 1)) (ys ! b)" by (rule 4(3))
    show "le (ys ! b) (ys ! (l - 1))" using 4(4,5) top 3(3) by metis
  qed
qed

section \<open>Partition\<close>

lemma scan_right_ok:
  assumes "i < s" "s < length xs" "b < length xs" "le (xs ! b) (xs ! s)"
  obtains i' where "scan_right compar b xs i = Some i'" "i < i'" "i' \<le> s" "le (xs ! b) (xs ! i')"
    "\<forall>k. i < k \<and> k < i' \<longrightarrow> le (xs ! k) (xs ! b)"
  using assms
proof (induction "s - i" arbitrary: i thesis)
  case (Suc n)
  show ?case
  proof (cases "compar (xs ! (i + 1)) (xs ! b) < 0")
    case True
    then have "i + 1 \<noteq> s" using Suc.prems not_greater(2) by auto
    then have "n = s - (i + 1)" "i + 1 < s" using Suc by auto
    from Suc.hyps(1) [OF this(1) _ this(2) Suc.prems(3-5)] obtain i' where i':
        "scan_right compar b xs (i + 1) = Some i'" "i + 1 < i'" "i' \<le> s" "le (xs ! b) (xs ! i')"
        "\<forall>k. i + 1 < k \<and> k < i' \<longrightarrow> le (xs ! k) (xs ! b)" by blast
    have "scan_right compar b xs i = Some i'"
      using i'(1) True Suc.prems by (subst scan_right.simps) (simp add: compar_at_def)
    moreover have "le (xs ! k) (xs ! b)" if "i < k" "k < i'" for k
      using i'(5) greater_le(2) [OF True] that by (cases "k = i + 1") auto
    ultimately show ?thesis using Suc.prems(1) [of i'] i' by auto
  next
    case False
    have "scan_right compar b xs i = Some (i + 1)"
      using False Suc.prems by (subst scan_right.simps) (simp add: compar_at_def)
    then show ?thesis
    proof (rule Suc.prems(1))
      show "\<forall>k. i < k \<and> k < i + 1 \<longrightarrow> le (xs ! k) (xs ! b)" by auto
      show "le (xs ! b) (xs ! (i + 1))" using False not_greater(2) by blast
    qed (use Suc.prems(2) in auto)
  qed
qed simp

lemma scan_left_ok:
  assumes "s < j" "j \<le> length xs" "b < length xs" "le (xs ! s) (xs ! b)"
  obtains j' where "scan_left compar b xs j = Some j'" "j' < j" "s \<le> j'" "le (xs ! j') (xs ! b)"
    "\<forall>k. j' < k \<and> k < j \<longrightarrow> le (xs ! b) (xs ! k)"
  using assms
proof (induction j arbitrary: thesis)
  case (Suc j)
  show ?case
  proof (cases "compar (xs ! j) (xs ! b) > 0")
    case True
    then have "s \<noteq> j" using Suc.prems not_greater(1) by auto
    then have "s < j" using Suc.prems by auto
    with Suc obtain j' where j': "scan_left compar b xs j = Some j'" "j' < j" "s \<le> j'" "le (xs ! j') (xs ! b)"
        "\<forall>k. j' < k \<and> k < j \<longrightarrow> le (xs ! b) (xs ! k)" by (metis Suc_leD)
    have "le (xs ! b) (xs ! k)" if "j' < k" "k < Suc j" for k
      using j'(5) greater_le(1) [OF True] that by (cases "k = j") auto
    then show ?thesis using Suc.prems(1) [of j'] j' True Suc.prems by (auto simp: compar_at_def)
  next
    case False
    show ?thesis
    proof (rule Suc.prems(1))
      show "scan_left compar b xs (Suc j) = Some j" using False Suc.prems by (simp add: compar_at_def)
      show "le (xs ! j) (xs ! b)" using False not_greater(1) by blast
      show "\<forall>k. j < k \<and> k < Suc j \<longrightarrow> le (xs ! b) (xs ! k)" by auto
    qed (use Suc.prems(2) in auto)
  qed
qed simp

definition part_inv :: "nat \<Rightarrow> nat \<Rightarrow> nat \<Rightarrow> nat \<Rightarrow> 'a list \<Rightarrow> bool" where
  "part_inv b l i j xs \<longleftrightarrow> b < i \<and> i \<le> j \<and> j < l \<and> (i = j \<longrightarrow> j + 1 < l) \<and> l \<le> length xs
     \<and> (\<forall>k. b < k \<and> k \<le> i \<longrightarrow> le (xs ! k) (xs ! b)) \<and> (\<forall>k. j \<le> k \<and> k < l \<longrightarrow> le (xs ! b) (xs ! k))"

lemma part_inv_scans:
  assumes "part_inv b l i j xs"
  obtains i' j' where "scan_right compar b xs i = Some i'" "scan_left compar b xs j = Some j'"
    "i < i'" "i' < l" "j' < j" "b \<le> j'" "le (xs ! b) (xs ! i')" "le (xs ! j') (xs ! b)"
    "\<forall>k. b < k \<and> k < i' \<longrightarrow> le (xs ! k) (xs ! b)" "\<forall>k. j' < k \<and> k < l \<longrightarrow> le (xs ! b) (xs ! k)"
proof -
  note inv = assms [unfolded part_inv_def]
  obtain s where s: "i < s" "s < l" "le (xs ! b) (xs ! s)"
    using inv that [of j] that [of "j + 1"] by (cases "i = j") auto
  obtain i' where i': "scan_right compar b xs i = Some i'" "i < i'" "i' \<le> s" "le (xs ! b) (xs ! i')"
      "\<forall>k. i < k \<and> k < i' \<longrightarrow> le (xs ! k) (xs ! b)"
    by (rule scan_right_ok [of i s xs b]) (use s inv in auto)
  obtain j' where j': "scan_left compar b xs j = Some j'" "j' < j" "b \<le> j'" "le (xs ! j') (xs ! b)"
      "\<forall>k. j' < k \<and> k < j \<longrightarrow> le (xs ! b) (xs ! k)"
    by (rule scan_left_ok [of b j xs b]) (use inv in auto)
  show ?thesis
  proof (rule that)
    show "\<forall>k. b < k \<and> k < i' \<longrightarrow> le (xs ! k) (xs ! b)" using i'(5) inv by (metis not_le)
    show "\<forall>k. j' < k \<and> k < l \<longrightarrow> le (xs ! b) (xs ! k)" using j'(5) inv by (metis not_le)
  qed (use i' j' s in auto)
qed

lemma part_inv_swap:
  assumes "b < i" "i \<le> j" "j + 1 < l" "l \<le> length xs" "le (xs ! b) (xs ! i)" "le (xs ! j) (xs ! b)"
    "\<forall>k. b < k \<and> k < i \<longrightarrow> le (xs ! k) (xs ! b)" "\<forall>k. j < k \<and> k < l \<longrightarrow> le (xs ! b) (xs ! k)"
  shows "part_inv b l i j (xs[i := xs ! j, j := xs ! i])"
  using assms unfolding part_inv_def by (auto simp: swap_nth le_less_Suc_eq)

lemma partition_loop_ok:
  assumes "part_inv b l i j xs"
  obtains i' j' ys where "partition_loop compar b i j xs = Some (i', j', ys)" "within b l xs ys" "ys ! b = xs ! b"
    "b \<le> j'" "j' < i'" "i' < l" "j' < j" "\<forall>k. b < k \<and> k < i' \<longrightarrow> le (ys ! k) (ys ! b)" "\<forall>k. j' < k \<and> k < l \<longrightarrow> le (ys ! b) (ys ! k)"
    "le (ys ! j') (ys ! b)"
  using assms
proof (induction "j - i" arbitrary: i j xs thesis rule: less_induct)
  case less
  note inv = less.prems(2) [unfolded part_inv_def]
  obtain i' j' where sc: "scan_right compar b xs i = Some i'" "scan_left compar b xs j = Some j'"
      "i < i'" "i' < l" "j' < j" "b \<le> j'" "le (xs ! b) (xs ! i')" "le (xs ! j') (xs ! b)"
      "\<forall>k. b < k \<and> k < i' \<longrightarrow> le (xs ! k) (xs ! b)" "\<forall>k. j' < k \<and> k < l \<longrightarrow> le (xs ! b) (xs ! k)"
    using part_inv_scans [OF less.prems(2)] by metis
  show ?case
  proof (cases "i' > j'")
    case True
    then have "partition_loop compar b i j xs = Some (i', j', xs)"
      using sc(1,2) by (subst partition_loop.simps) simp
    then show ?thesis using sc True by (intro less.prems(1) [of i' j' xs]) auto
  next
    case False
    let ?ys = "xs[i' := xs ! j', j' := xs ! i']"
    have sw: "memswp i' j' xs = Some ?ys" "within b l xs ?ys" "?ys ! b = xs ! b"
      using memswp_ok [of b i' l j' xs] sc inv False by (auto simp: swap_nth)
    have "part_inv b l i' j' ?ys" by (rule part_inv_swap) (use sc inv False in auto)
    moreover have "j' - i' < j - i" using sc False by linarith
    ultimately obtain i2 j2 zs where r:
        "partition_loop compar b i' j' ?ys = Some (i2, j2, zs)" "within b l ?ys zs" "zs ! b = ?ys ! b" "b \<le> j2"
        "j2 < i2" "i2 < l" "j2 < j'" "\<forall>k. b < k \<and> k < i2 \<longrightarrow> le (zs ! k) (zs ! b)" "\<forall>k. j2 < k \<and> k < l \<longrightarrow> le (zs ! b) (zs ! k)"
        "le (zs ! j2) (zs ! b)"
      using less.hyps [of j' i' ?ys] by blast
    have "partition_loop compar b i j xs = Some (i2, j2, zs)"
      using sc(1,2) sw(1) r(1) False by (subst partition_loop.simps) simp
    then show ?thesis
    proof (rule less.prems(1))
      show "within b l xs zs" by (rule within_trans [OF sw(2) r(2)])
      show "zs ! b = xs ! b" using r(3) sw(3) by simp
      show "j2 < j" using r(7) sc(5) by simp
    qed (rule r)+
  qed
qed

section \<open>Insertion sort\<close>

definition sorted_seg :: "nat \<Rightarrow> nat \<Rightarrow> 'a list \<Rightarrow> bool" where
  "sorted_seg b l xs \<longleftrightarrow> (\<forall>p q. b \<le> p \<and> p < q \<and> q < l \<longrightarrow> le (xs ! p) (xs ! q))"

definition sorted_but :: "nat \<Rightarrow> nat \<Rightarrow> nat \<Rightarrow> 'a list \<Rightarrow> bool" where
  "sorted_but h b l xs \<longleftrightarrow> (\<forall>p q. b \<le> p \<and> p < q \<and> q < l \<and> p \<noteq> h \<and> q \<noteq> h \<longrightarrow> le (xs ! p) (xs ! q))
     \<and> (\<forall>q. h < q \<and> q < l \<longrightarrow> le (xs ! h) (xs ! q))"

lemma sorted_but_done:
  assumes "sorted_but (Suc j) b l xs" "b \<le> j" "le (xs ! j) (xs ! Suc j)"
  shows "sorted_seg b l xs"
  unfolding sorted_seg_def
proof (intro allI impI, elim conjE)
  fix p q assume pq: "b \<le> p" "p < q" "q < l"
  show "le (xs ! p) (xs ! q)"
  proof (cases "q = Suc j")
    case True
    with assms pq have "le (xs ! p) (xs ! j)" by (cases "p = j") (auto simp: sorted_but_def)
    with True assms(3) show ?thesis by (blast intro: le_trans)
  next
    case False
    with assms pq show ?thesis by (cases "p = Suc j") (auto simp: sorted_but_def)
  qed
qed

lemma sorted_but_step:
  assumes "sorted_but (Suc j) b l xs" "b \<le> j" "Suc j < l" "l \<le> length xs" "le (xs ! Suc j) (xs ! j)"
  defines "ys \<equiv> xs[j := xs ! Suc j, Suc j := xs ! j]"
  shows "sorted_but j b l ys"
proof -
  have ys: "ys ! k = (if k = j then xs ! Suc j else if k = Suc j then xs ! j else xs ! k)" for k
    using assms(3,4) by (simp add: ys_def swap_nth)
  have up: "le (xs ! Suc j) (xs ! q)" if "Suc j < q" "q < l" for q
    using assms(1) that by (auto simp: sorted_but_def)
  show ?thesis
    unfolding sorted_but_def ys
    using assms(1,2,5) up by (auto simp: sorted_but_def)
qed

lemma sorted_but_first: "sorted_but b b l xs \<Longrightarrow> sorted_seg b l xs"
  unfolding sorted_seg_def sorted_but_def
proof (intro allI impI, elim conjE)
  fix p q
  assume "\<forall>p q. b \<le> p \<and> p < q \<and> q < l \<and> p \<noteq> b \<and> q \<noteq> b \<longrightarrow> le (xs ! p) (xs ! q)"
    "\<forall>q. b < q \<and> q < l \<longrightarrow> le (xs ! b) (xs ! q)" "b \<le> p" "p < q" "q < l"
  then show "le (xs ! p) (xs ! q)" by (cases "p = b") auto
qed

lemma insert_down_ok:
  "b \<le> j \<Longrightarrow> Suc j < l \<Longrightarrow> l \<le> length xs \<Longrightarrow> sorted_but (Suc j) b l xs \<Longrightarrow>
   \<exists>ys. insert_down compar b j xs = Some ys \<and> within b l xs ys \<and> sorted_seg b l ys"
proof (induction j arbitrary: xs rule: less_induct)
  case (less j)
  show ?case
  proof (cases "compar (xs ! j) (xs ! Suc j) > 0")
    case False
    then have "insert_down compar b j xs = Some xs"
      using less.prems by (subst insert_down.simps) (simp add: compar_at_def)
    moreover have "sorted_seg b l xs" using sorted_but_done [OF less.prems(4,1)] False not_greater(1) by blast
    ultimately show ?thesis by blast
  next
    case True
    let ?ys = "xs[j := xs ! Suc j, Suc j := xs ! j]"
    have sw: "memswp j (Suc j) xs = Some ?ys" "within b l xs ?ys" using memswp_ok [of b j l "Suc j" xs] less.prems by auto
    have but: "sorted_but j b l ?ys" using sorted_but_step [OF less.prems(4,1-3) greater_le(1) [OF True]] .
    show ?thesis
    proof (cases "j = b")
      case True': True
      then have "insert_down compar b j xs = Some ?ys"
        using True sw(1) less.prems by (subst insert_down.simps) (simp add: compar_at_def)
      moreover have "sorted_seg b l ?ys" using but unfolding True' by (rule sorted_but_first)
      ultimately show ?thesis using sw(2) by blast
    next
      case False
      then obtain k where k: "j = Suc k" "b \<le> k" using less.prems(1) by (cases j) auto
      obtain zs where zs: "insert_down compar b k ?ys = Some zs" "within b l ?ys zs" "sorted_seg b l zs"
        using less.IH [of k ?ys] k less.prems but by auto
      have "insert_down compar b j xs = Some zs"
        using True sw(1) less.prems zs(1) False k by (subst insert_down.simps) (simp add: compar_at_def)
      then show ?thesis using zs within_trans [OF sw(2)] by blast
    qed
  qed
qed

lemma within_mono:
  assumes "within b l xs ys" "l \<le> l'"
  shows "within b l' xs ys"
proof -
  have "\<exists>k'. b \<le> k' \<and> k' < l' \<and> ys ! k = xs ! k'" if "b \<le> k" "k < l'" for k
  proof (cases "k < l")
    case True
    with assms that obtain k' where "b \<le> k'" "k' < l" "ys ! k = xs ! k'" by (auto simp: within_def)
    then show ?thesis using assms(2) by (intro exI [of _ k']) auto
  next
    case False
    then have "ys ! k = xs ! k" using assms(1) by (simp add: within_def)
    then show ?thesis using that by blast
  qed
  then show ?thesis using assms by (auto simp: within_def)
qed

lemma insertion_sort_ok:
  "b < i \<Longrightarrow> l \<le> length xs \<Longrightarrow> sorted_seg b i xs \<Longrightarrow>
   \<exists>ys. insertion_sort compar b i l xs = Some ys \<and> within b l xs ys \<and> sorted_seg b l ys"
proof (induction "l - i" arbitrary: i xs)
  case 0
  then have "insertion_sort compar b i l xs = Some xs" by (subst insertion_sort.simps) simp
  moreover have "sorted_seg b l xs" using 0 by (auto simp: sorted_seg_def)
  ultimately show ?case by blast
next
  case (Suc n)
  have "sorted_but (Suc (i - 1)) b (i + 1) xs"
    using Suc.prems(1,3) by (auto simp: sorted_but_def sorted_seg_def)
  moreover have "b \<le> i - 1" "Suc (i - 1) < i + 1" "i + 1 \<le> length xs" using Suc.hyps(2) Suc.prems by linarith+
  ultimately obtain ys where
      ys: "insert_down compar b (i - 1) xs = Some ys" "within b (i + 1) xs ys" "sorted_seg b (i + 1) ys"
    using insert_down_ok [of b "i - 1" "i + 1" xs] by blast
  moreover have "n = l - (i + 1)" "b < i + 1" "l \<le> length ys"
    using Suc.hyps(2) Suc.prems within_length [OF ys(2)] by auto
  ultimately obtain zs where
      zs: "insertion_sort compar b (i + 1) l ys = Some zs" "within b l ys zs" "sorted_seg b l zs"
    using Suc.hyps(1) by blast
  have "insertion_sort compar b i l xs = Some zs"
    using ys(1) zs(1) Suc.hyps(2) by (subst insertion_sort.simps) (simp; linarith)
  with zs within_trans [OF within_mono [OF ys(2)] zs(2)] Suc.hyps(2) show ?case by auto
qed

section \<open>The whole sort\<close>

text \<open>Two positions are in order unless one pending segment holds both.\<close>

definition blocks :: "(nat \<times> nat) set \<Rightarrow> 'a list \<Rightarrow> bool" where
  "blocks S xs \<longleftrightarrow> (\<forall>p q. p < q \<and> q < length xs \<and> (\<forall>(b, l)\<in>S. \<not> (b \<le> p \<and> q < l)) \<longrightarrow> le (xs ! p) (xs ! q))"

definition apart :: "nat \<times> nat \<Rightarrow> (nat \<times> nat) set \<Rightarrow> bool" where
  "apart s S \<longleftrightarrow> (\<forall>t\<in>S. snd s \<le> fst t \<or> snd t \<le> fst s)"

lemma blocks_within:
  assumes "blocks (insert (b, l) S) xs" "apart (b, l) S" "within b l xs ys" "l \<le> length xs"
    and "p < q" "q < length ys" "\<not> (b \<le> p \<and> q < l)" "\<forall>(b', l')\<in>S. \<not> (b' \<le> p \<and> q < l')"
  shows "le (ys ! p) (ys ! q)"
proof -
  have pick: "\<exists>k'. ys ! k = xs ! k' \<and> (if b \<le> k \<and> k < l then b \<le> k' \<and> k' < l else k' = k)" for k
    using assms(3) by (cases "b \<le> k \<and> k < l") (auto simp: within_def)
  obtain p' where p': "ys ! p = xs ! p'" "if b \<le> p \<and> p < l then b \<le> p' \<and> p' < l else p' = p"
    using pick [of p] by blast
  obtain q' where q': "ys ! q = xs ! q'" "if b \<le> q \<and> q < l then b \<le> q' \<and> q' < l else q' = q"
    using pick [of q] by blast
  have "p' < q'" "q' < length xs" "\<not> (b \<le> p' \<and> q' < l)"
    using assms(4-7) p'(2) q'(2) within_length [OF assms(3)] by (auto split: if_splits)
  moreover have "\<not> (b' \<le> p' \<and> q' < l')" if "(b', l') \<in> S" for b' l'
  proof -
    have "l \<le> b' \<or> l' \<le> b" "\<not> (b' \<le> p \<and> q < l')" using assms(2,8) that by (auto simp: apart_def)
    then show ?thesis using p'(2) q'(2) \<open>p' < q'\<close> by (auto split: if_splits)
  qed
  ultimately have "p' < q' \<and> q' < length xs \<and> (\<forall>(b', l')\<in>insert (b, l) S. \<not> (b' \<le> p' \<and> q' < l'))" by auto
  with assms(1) have "le (xs ! p') (xs ! q')" unfolding blocks_def by blast
  then show ?thesis using p'(1) q'(1) by simp
qed

lemma blocks_refine:
  assumes "blocks (insert (b, l) S) xs" "apart (b, l) S" "within b l xs ys" "l \<le> length xs"
    and "\<And>p q. b \<le> p \<Longrightarrow> p < q \<Longrightarrow> q < l \<Longrightarrow> (\<forall>(b', l')\<in>R. \<not> (b' \<le> p \<and> q < l')) \<Longrightarrow> le (ys ! p) (ys ! q)"
  shows "blocks (R \<union> S) ys"
  unfolding blocks_def
proof (intro allI impI, elim conjE)
  fix p q assume pq: "p < q" "q < length ys" "\<forall>(b', l')\<in>R \<union> S. \<not> (b' \<le> p \<and> q < l')"
  show "le (ys ! p) (ys ! q)"
  proof (cases "b \<le> p \<and> q < l")
    case True
    with assms(5) [of p q] pq show ?thesis by auto
  next
    case False
    with blocks_within [OF assms(1-4) pq(1,2) False] pq(3) show ?thesis by auto
  qed
qed

lemma partition_ok:
  assumes "7 < l - b" "l \<le> length xs"
  obtains i j ys zs where "median_of_three compar b l xs = Some ys"
    "\<exists>us. partition_loop compar b (b + 1) (l - 1) ys = Some (i, j, us) \<and> memswp b j us = Some zs"
    "within b l xs zs" "b \<le> j" "j < i" "i < l"
    "\<And>p q. b \<le> p \<Longrightarrow> p < q \<Longrightarrow> q < l \<Longrightarrow> \<not> q < j \<Longrightarrow> \<not> i \<le> p \<Longrightarrow> le (zs ! p) (zs ! q)"
proof -
  obtain ys where ys: "median_of_three compar b l xs = Some ys" "within b l xs ys"
      "le (ys ! (b + 1)) (ys ! b)" "le (ys ! b) (ys ! (l - 1))"
    by (rule median_of_three_ok [of b l xs]) (use assms in linarith)+
  have "k = b + 1" if "b < k" "k \<le> b + 1" for k using that by linarith
  moreover have "k = l - 1" if "l - 1 \<le> k" "k < l" for k using that by linarith
  ultimately have "part_inv b l (b + 1) (l - 1) ys"
    unfolding part_inv_def using ys(3,4) assms within_length [OF ys(2)] by fastforce
  then obtain i j us where us: "partition_loop compar b (b + 1) (l - 1) ys = Some (i, j, us)" "within b l ys us"
      "us ! b = ys ! b" "b \<le> j" "j < i" "i < l" "\<forall>k. b < k \<and> k < i \<longrightarrow> le (us ! k) (us ! b)"
      "\<forall>k. j < k \<and> k < l \<longrightarrow> le (us ! b) (us ! k)" "le (us ! j) (us ! b)"
    using partition_loop_ok by metis
  let ?zs = "us[b := us ! j, j := us ! b]"
  have len: "l \<le> length us" using assms(2) within_length [OF ys(2)] within_length [OF us(2)] by simp
  have sw: "memswp b j us = Some ?zs" "within b l us ?zs" using memswp_ok [of b b l j us] us len by auto
  have zs: "?zs ! k = (if k = b then us ! j else if k = j then us ! b else us ! k)" for k
    using us len by (simp add: swap_nth)
  have low: "le (?zs ! k) (us ! b)" if "b \<le> k" "k < i" for k
    using us(7,9) that unfolding zs by auto
  have high: "le (us ! b) (?zs ! k)" if "j \<le> k" "k < l" for k
    using us(4,8,9) that unfolding zs by (cases "k = j") auto
  show ?thesis
  proof (rule that [OF ys(1) _ within_trans [OF ys(2) within_trans [OF us(2) sw(2)]] us(4-6)])
    show "\<exists>vs. partition_loop compar b (b + 1) (l - 1) ys = Some (i, j, vs) \<and> memswp b j vs = Some ?zs"
      using us(1) sw(1) by blast
    show "le (?zs ! p) (?zs ! q)" if "b \<le> p" "p < q" "q < l" "\<not> q < j" "\<not> i \<le> p" for p q
      using low [of p] high [of q] that le_trans by auto
  qed
qed

text \<open>The largest segment that can be sorted with \<open>d\<close> pairs on the stack.\<close>

definition cap :: "nat \<Rightarrow> nat" where
  "cap d = 8 * 2 ^ (20 - d) - 1"

fun stack_ok :: "nat \<Rightarrow> (nat \<times> nat) list \<Rightarrow> bool" where
  "stack_ok n [] \<longleftrightarrow> True"
| "stack_ok n ((b, l) # ss) \<longleftrightarrow> b \<le> l \<and> l \<le> n \<and> l - b \<le> cap (length ss) \<and> length ss \<le> 20 \<and> apart (b, l) (set ss) \<and> stack_ok n ss"

lemma cap_half:
  assumes "7 < n" "n \<le> cap d" "d \<le> 20" "2 * m < n"
  shows "d < 20" "m \<le> cap (Suc d)"
proof -
  show d: "d < 20" using assms(1-3) by (cases "d = 20") (auto simp: cap_def)
  then have "20 - d = Suc (20 - Suc d)" by linarith
  then have "cap d = 2 * (8 * 2 ^ (20 - Suc d)) - 1" unfolding cap_def by simp
  then show "m \<le> cap (Suc d)" using assms(2,4) unfolding cap_def by linarith
qed

lemma qsort_loop_ok:
  assumes "stack_ok (length xs) ((b, l) # ss)" "blocks (set ((b, l) # ss)) xs"
  shows "\<exists>ys. qsort_loop compar b l ss xs = Some ys \<and> mset ys = mset xs \<and> blocks {} ys"
  using assms
proof (induction "2 * sum_list (map (\<lambda>(b, l). l - b) ((b, l) # ss)) + length ss" arbitrary: b l ss xs rule: less_induct)
  case less
  have seg: "b \<le> l" "l \<le> length xs" "l - b \<le> cap (length ss)" "length ss \<le> 20" "apart (b, l) (set ss)" "stack_ok (length xs) ss"
    using less.prems(1) by auto
  have bl: "blocks (insert (b, l) (set ss)) xs" using less.prems(2) by simp
  show ?case
  proof (cases "7 < l - b")
    case False
    have "sorted_seg b (b + 1) xs" by (auto simp: sorted_seg_def)
    then obtain ys where ys: "insertion_sort compar b (b + 1) l xs = Some ys" "within b l xs ys" "sorted_seg b l ys"
      using insertion_sort_ok [of b "b + 1" l xs] seg by auto
    have fin: "blocks ({} \<union> set ss) ys"
      by (rule blocks_refine [OF bl seg(5) ys(2) seg(2)]) (use ys(3) in \<open>auto simp: sorted_seg_def\<close>)
    have ms: "mset ys = mset xs" "length ys = length xs" using ys(2) by (auto simp: within_def)
    show ?thesis
    proof (cases ss)
      case Nil
      then have "qsort_loop compar b l ss xs = Some ys" using False ys(1) by (subst qsort_loop.simps) simp
      then show ?thesis using ms fin Nil by simp
    next
      case (Cons t ss')
      obtain b' l' where t: "t = (b', l')" by (cases t)
      have "qsort_loop compar b l ss xs = qsort_loop compar b' l' ss' ys"
        using False ys(1) Cons t by (subst qsort_loop.simps) simp
      moreover have "\<exists>zs. qsort_loop compar b' l' ss' ys = Some zs \<and> mset zs = mset ys \<and> blocks {} zs"
        by (rule less.hyps) (use seg fin ms Cons t in auto)
      ultimately show ?thesis using ms by simp
    qed
  next
    case True
    obtain i j ys zs us where p: "median_of_three compar b l xs = Some ys"
        "partition_loop compar b (b + 1) (l - 1) ys = Some (i, j, us)" "memswp b j us = Some zs"
        "within b l xs zs" "b \<le> j" "j < i" "i < l"
        "\<And>p q. b \<le> p \<Longrightarrow> p < q \<Longrightarrow> q < l \<Longrightarrow> \<not> q < j \<Longrightarrow> \<not> i \<le> p \<Longrightarrow> le (zs ! p) (zs ! q)"
      using partition_ok [OF True seg(2)] by metis
    have parts: "blocks ({(b, j), (i, l)} \<union> set ss) zs"
      by (rule blocks_refine [OF bl seg(5) p(4) seg(2)]) (use p(8) in auto)
    have ms: "mset zs = mset xs" "length zs = length xs" using p(4) by (auto simp: within_def)
    have ap: "apart (b, j) (set ss)" "apart (i, l) (set ss)" using seg(5) p(5-7) by (fastforce simp: apart_def)+
    define small where "small = (if j - b > l - i then (i, l) else (b, j))"
    define large where "large = (if j - b > l - i then (b, j) else (i, l))"
    have sz: "2 * (snd small - fst small) < l - b" "snd large - fst large < l - b"
        "(snd small - fst small) + (snd large - fst large) < l - b"
      using p(5-7) by (auto simp: small_def large_def)
    from cap_half [OF True seg(3,4) sz(1)] have room: "length ss < 20" "snd small - fst small \<le> cap (Suc (length ss))" .
    have "qsort_loop compar b l ss xs = qsort_loop compar (fst small) (snd small) (large # ss) zs"
      using True p(1-3) room by (subst qsort_loop.simps) (auto simp: small_def large_def)
    moreover have "\<exists>ws. qsort_loop compar (fst small) (snd small) (large # ss) zs = Some ws \<and> mset ws = mset zs \<and> blocks {} ws"
    proof (rule less.hyps)
      show "stack_ok (length zs) ((fst small, snd small) # large # ss)"
        using seg ap room sz p(5-7) ms(2) by (auto simp: small_def large_def apart_def)
      show "blocks (set ((fst small, snd small) # large # ss)) zs"
        using parts by (auto simp: small_def large_def insert_commute)
      show "2 * sum_list (map (\<lambda>(b, l). l - b) ((fst small, snd small) # large # ss)) + length (large # ss)
          < 2 * sum_list (map (\<lambda>(b, l). l - b) ((b, l) # ss)) + length ss"
        using sz(3) by (auto simp: case_prod_beta)
    qed
    ultimately show ?thesis using ms by simp
  qed
qed

lemma qsort_ok:
  assumes "length xs < 8 * 2 ^ 20"
  shows "\<exists>ys. qsort compar xs = Some ys \<and> mset ys = mset xs \<and> sorted_wrt le ys"
proof -
  have "\<exists>ys. qsort_loop compar 0 (length xs) [] xs = Some ys \<and> mset ys = mset xs \<and> blocks {} ys"
    by (rule qsort_loop_ok) (use assms in \<open>auto simp: cap_def apart_def blocks_def\<close>)
  then show ?thesis by (auto simp: qsort_def blocks_def sorted_wrt_iff_nth_less)
qed

end

end
