(* ===== verification/Security.thy ===== *)
theory Security
  imports Qsort
begin

text \<open>
  Security contexts (\<open>kernel/security.h\<close>), security tokens (\<open>security/token.c\<close>) and the reference counts
  they use (\<open>lib/refcount.h\<close>). User and group IDs are 16-bit signed, a privilege set is an array of four
  32-bit words. Tokens live in a store; \<open>slab_cache_alloc\<close> is a parameter in the form of the free slot it
  returns and of the token that the slot's memory happens to hold. The copy of the context from user
  memory either fails or yields a context. The process lock around the choice of the current token and the
  publication of a new token as an object handle are left out.
\<close>

section \<open>Reference counts\<close>

definition refcount_inc :: "i32 \<Rightarrow> int \<times> i32" where
  "refcount_inc ref = (sint (ref + 1), ref + 1)"

definition refcount_dec :: "i32 \<Rightarrow> (int \<times> i32) option" where
  "refcount_dec ref = (let val = ref - 1 in if sint val < 0 then None else Some (sint val, val))"

section \<open>Security contexts\<close>

definition SECURITY_CONTEXT_MAX_GROUPS :: nat where "SECURITY_CONTEXT_MAX_GROUPS = 32"
definition SECURITY_CONTEXT_MAX_PRIVS :: nat where "SECURITY_CONTEXT_MAX_PRIVS = 128"
definition PRIV_CHANGE_IDENTITY :: nat where "PRIV_CHANGE_IDENTITY = 3"
definition PRIV_MAX :: nat where "PRIV_MAX = 8"

lemmas security_limits = SECURITY_CONTEXT_MAX_GROUPS_def SECURITY_CONTEXT_MAX_PRIVS_def
  PRIV_CHANGE_IDENTITY_def PRIV_MAX_def

type_synonym id16 = "16 word"

record security_context =
  sc_uid :: id16
  sc_gid :: id16
  sc_groups :: "id16 list"
  sc_privs :: "u32 list"
  sc_inherit :: "u32 list"

definition security_context_init :: "security_context" where
  "security_context_init = \<lparr>sc_uid = 0, sc_gid = 0, sc_groups = replicate SECURITY_CONTEXT_MAX_GROUPS (- 1),
     sc_privs = replicate (SECURITY_CONTEXT_MAX_PRIVS div 32) 0,
     sc_inherit = replicate (SECURITY_CONTEXT_MAX_PRIVS div 32) 0\<rparr>"

definition security_context_has_group :: "security_context \<Rightarrow> id16 \<Rightarrow> bool" where
  "security_context_has_group ctx gid =
     (sc_gid ctx = gid \<or> (\<exists>g\<in>set (sc_groups ctx). sint g \<ge> 0 \<and> g = gid))"

fun group_add :: "id16 \<Rightarrow> id16 list \<Rightarrow> bool \<times> id16 list" where
  "group_add gid [] = (False, [])"
| "group_add gid (g # gs) =
     (if sint g < 0 then (True, gid # gs) else let (r, gs) = group_add gid gs in (r, g # gs))"

definition security_context_add_group :: "security_context \<Rightarrow> id16 \<Rightarrow> bool \<times> security_context" where
  "security_context_add_group ctx gid = (let (r, gs) = group_add gid (sc_groups ctx) in (r, ctx\<lparr>sc_groups := gs\<rparr>))"

fun group_remove :: "id16 \<Rightarrow> id16 list \<Rightarrow> id16 list" where
  "group_remove gid [] = []"
| "group_remove gid (g # gs) = (if g = gid then - 1 # gs else g # group_remove gid gs)"

definition security_context_remove_group :: "security_context \<Rightarrow> id16 \<Rightarrow> security_context" where
  "security_context_remove_group ctx gid = ctx\<lparr>sc_groups := group_remove gid (sc_groups ctx)\<rparr>"

text \<open>A bit of a privilege array; a privilege beyond the array has no result.\<close>

definition priv_bit :: "nat \<Rightarrow> u32" where
  "priv_bit priv = push_bit (priv mod 32) 1"

definition priv_test :: "u32 list \<Rightarrow> nat \<Rightarrow> bool option" where
  "priv_test ps priv = (if priv div 32 < length ps then Some (ps ! (priv div 32) AND priv_bit priv \<noteq> 0) else None)"

definition priv_set :: "nat \<Rightarrow> u32 list \<Rightarrow> u32 list option" where
  "priv_set priv ps =
     (if priv div 32 < length ps then Some (ps[priv div 32 := ps ! (priv div 32) OR priv_bit priv]) else None)"

definition priv_unset :: "nat \<Rightarrow> u32 list \<Rightarrow> u32 list option" where
  "priv_unset priv ps =
     (if priv div 32 < length ps then Some (ps[priv div 32 := ps ! (priv div 32) AND NOT (priv_bit priv)]) else None)"

definition security_context_has_priv :: "security_context \<Rightarrow> nat \<Rightarrow> bool option" where
  "security_context_has_priv ctx priv = priv_test (sc_privs ctx) priv"

definition security_context_set_priv :: "nat \<Rightarrow> security_context \<Rightarrow> security_context option" where
  "security_context_set_priv priv ctx = map_option (\<lambda>ps. ctx\<lparr>sc_privs := ps\<rparr>) (priv_set priv (sc_privs ctx))"

definition security_context_unset_priv :: "nat \<Rightarrow> security_context \<Rightarrow> security_context option" where
  "security_context_unset_priv priv ctx = map_option (\<lambda>ps. ctx\<lparr>sc_privs := ps\<rparr>) (priv_unset priv (sc_privs ctx))"

definition security_context_set_inherit :: "nat \<Rightarrow> security_context \<Rightarrow> security_context option" where
  "security_context_set_inherit priv ctx = map_option (\<lambda>ps. ctx\<lparr>sc_inherit := ps\<rparr>) (priv_set priv (sc_inherit ctx))"

definition security_context_unset_inherit :: "nat \<Rightarrow> security_context \<Rightarrow> security_context option" where
  "security_context_unset_inherit priv ctx = map_option (\<lambda>ps. ctx\<lparr>sc_inherit := ps\<rparr>) (priv_unset priv (sc_inherit ctx))"

section \<open>Tokens\<close>

record token =
  tk_ctx :: security_context
  tk_count :: i32
  tk_copy_on_inherit :: bool

type_synonym tokens = "nat \<rightharpoonup> token"

definition token_retain :: "nat \<Rightarrow> tokens \<Rightarrow> tokens option" where
  "token_retain t ts = do {
     tok \<leftarrow> ts t;
     Some (ts(t \<mapsto> tok\<lparr>tk_count := snd (refcount_inc (tk_count tok))\<rparr>))}"

definition token_release :: "nat \<Rightarrow> tokens \<Rightarrow> tokens option" where
  "token_release t ts = do {
     tok \<leftarrow> ts t;
     (val, count) \<leftarrow> refcount_dec (tk_count tok);
     Some (if val = 0 then ts(t := None) else ts(t \<mapsto> tok\<lparr>tk_count := count\<rparr>))}"

definition token_copy :: "token \<Rightarrow> token \<Rightarrow> token" where
  "token_copy source new =
     new\<lparr>tk_count := 1,
         tk_ctx := (tk_ctx new)\<lparr>sc_uid := sc_uid (tk_ctx source), sc_gid := sc_gid (tk_ctx source),
           sc_groups := sc_groups (tk_ctx source), sc_privs := sc_inherit (tk_ctx source),
           sc_inherit := sc_inherit (tk_ctx source)\<rparr>\<rparr>"

definition token_inherit :: "nat \<times> token \<Rightarrow> nat \<Rightarrow> tokens \<Rightarrow> (nat \<times> tokens) option" where
  "token_inherit slab source ts = do {
     src \<leftarrow> ts source;
     if tk_copy_on_inherit src
     then Some (fst slab, ts(fst slab \<mapsto> token_copy src (snd slab)))
     else do {ts \<leftarrow> token_retain source ts; Some (source, ts)}}"

text \<open>The tokens of the current thread and of its process.\<close>

record identity =
  id_active :: "nat option"
  id_thread :: "nat option"
  id_process :: nat

definition token_current :: "identity \<Rightarrow> tokens \<Rightarrow> (nat \<times> identity \<times> tokens) option" where
  "token_current me ts =
     (case id_active me of
        Some t \<Rightarrow> Some (t, me, ts)
      | None \<Rightarrow>
          let t = (case id_thread me of Some t \<Rightarrow> t | None \<Rightarrow> id_process me)
          in do {ts \<leftarrow> token_retain t ts; Some (t, me\<lparr>id_active := Some t\<rparr>, ts)})"

fun grant_all :: "nat list \<Rightarrow> security_context \<Rightarrow> security_context option" where
  "grant_all [] ctx = Some ctx"
| "grant_all (i # is) ctx = do {
     ctx \<leftarrow> security_context_set_priv i ctx;
     ctx \<leftarrow> security_context_set_inherit i ctx;
     grant_all is ctx}"

definition token_init :: "nat \<times> token \<Rightarrow> tokens \<Rightarrow> (nat \<times> tokens) option" where
  "token_init slab ts = (
     let ctx = (tk_ctx (snd slab))\<lparr>sc_uid := 0, sc_gid := 0, sc_groups := replicate SECURITY_CONTEXT_MAX_GROUPS (- 1)\<rparr>
     in do {
       ctx \<leftarrow> grant_all [0..<PRIV_MAX + 1] ctx;
       Some (fst slab, ts(fst slab \<mapsto> (snd slab)\<lparr>tk_count := 1, tk_ctx := ctx\<rparr>))})"

definition compare_group :: "id16 \<Rightarrow> id16 \<Rightarrow> int" where
  "compare_group a b = (
     let ga = sint a; gb = sint b
     in if ga < 0 \<and> gb < 0 \<or> ga \<ge> 0 \<and> gb \<ge> 0 then ga - gb else if ga < 0 then 1 else - 1)"

fun mask_privs :: "nat list \<Rightarrow> security_context \<Rightarrow> security_context option" where
  "mask_privs [] ctx = Some ctx"
| "mask_privs (i # is) ctx = do {
     ctx \<leftarrow> security_context_unset_priv i ctx;
     ctx \<leftarrow> security_context_unset_inherit i ctx;
     mask_privs is ctx}"

text \<open>The loop over the two privilege sets: the error, or whether a copy is needed.\<close>

fun check_inherit :: "u32 list \<Rightarrow> u32 list \<Rightarrow> bool \<Rightarrow> status + bool" where
  "check_inherit (i # is) (p # ps) copy =
     (if i AND NOT p \<noteq> 0 then Inl STATUS_INVALID_ARG
      else check_inherit is ps (if i \<noteq> p then True else copy))"
| "check_inherit _ _ copy = Inr copy"

fun check_privs :: "u32 list \<Rightarrow> u32 list \<Rightarrow> bool" where
  "check_privs (p # ps) (c # cs) \<longleftrightarrow> p AND NOT c = 0 \<and> check_privs ps cs"
| "check_privs _ _ \<longleftrightarrow> True"

text \<open>\<open>kern_token_create\<close> up to the handle: the status of a failed check, whose token is freed, or the new
  token. \<open>creator\<close> is the token that \<open>token_current\<close> returns, \<open>user\<close> the context copied from user memory.\<close>

definition kern_token_create :: "token \<Rightarrow> status + security_context \<Rightarrow> (status + token) option" where
  "kern_token_create creator user = (
     case user of
       Inl ret \<Rightarrow> Some (Inl ret)
     | Inr ctx \<Rightarrow>
         if sint (sc_uid ctx) < 0 \<or> sint (sc_gid ctx) < 0 then Some (Inl STATUS_INVALID_ARG)
         else do {
           groups \<leftarrow> qsort compare_group (sc_groups ctx);
           ctx \<leftarrow> mask_privs [PRIV_MAX + 1..<SECURITY_CONTEXT_MAX_PRIVS] (ctx\<lparr>sc_groups := groups\<rparr>);
           case check_inherit (sc_inherit ctx) (sc_privs ctx) False of
             Inl ret \<Rightarrow> Some (Inl ret)
           | Inr copy \<Rightarrow>
               if \<not> check_privs (sc_privs ctx) (sc_privs (tk_ctx creator)) then Some (Inl STATUS_PERM_DENIED)
               else do {
                 change \<leftarrow> security_context_has_priv (tk_ctx creator) PRIV_CHANGE_IDENTITY;
                 if \<not> change \<and> (sc_uid ctx \<noteq> sc_uid (tk_ctx creator) \<or> sc_gid ctx \<noteq> sc_gid (tk_ctx creator)
                     \<or> sc_groups ctx \<noteq> sc_groups (tk_ctx creator))
                 then Some (Inl STATUS_PERM_DENIED)
                 else Some (Inr \<lparr>tk_ctx = ctx, tk_count = 1, tk_copy_on_inherit = copy\<rparr>)}})"

section \<open>The order of group IDs\<close>

interpretation groups: comparison compare_group
  by unfold_locales (auto simp: compare_group_def Let_def split: if_splits)

section \<open>Privilege sets\<close>

definition has_bit :: "u32 list \<Rightarrow> nat \<Rightarrow> bool" where
  "has_bit ps n \<longleftrightarrow> n div 32 < length ps \<and> bit (ps ! (n div 32)) (n mod 32)"

definition ctx_ok :: "security_context \<Rightarrow> bool" where
  "ctx_ok ctx \<longleftrightarrow> length (sc_groups ctx) = SECURITY_CONTEXT_MAX_GROUPS
     \<and> length (sc_privs ctx) = SECURITY_CONTEXT_MAX_PRIVS div 32
     \<and> length (sc_inherit ctx) = SECURITY_CONTEXT_MAX_PRIVS div 32"

lemma bit_priv_bit: "bit (priv_bit n) k \<longleftrightarrow> k = n mod 32"
  by (auto simp: priv_bit_def push_bit_of_1 bit_exp_iff)

lemma and_priv_bit: "(w AND priv_bit n \<noteq> 0) \<longleftrightarrow> bit w (n mod 32)"
proof
  assume "w AND priv_bit n \<noteq> 0"
  then obtain k where "bit (w AND priv_bit n) k" using bit_eqI [of "w AND priv_bit n" 0] by auto
  then show "bit w (n mod 32)" by (auto simp: bit_and_iff bit_priv_bit)
next
  assume "bit w (n mod 32)"
  then have "bit (w AND priv_bit n) (n mod 32)" by (simp add: bit_and_iff bit_priv_bit)
  then show "w AND priv_bit n \<noteq> 0" by auto
qed

lemma priv_test_ok: "n < 32 * length ps \<Longrightarrow> priv_test ps n = Some (has_bit ps n)"
  by (simp add: priv_test_def has_bit_def and_priv_bit less_mult_imp_div_less mult.commute)

lemma same_word: "n div 32 = k div 32 \<Longrightarrow> n mod 32 = k mod 32 \<longleftrightarrow> n = (k :: nat)"
  by (metis div_mult_mod_eq)

lemma priv_unset_ok:
  assumes "n < 32 * length ps"
  shows "\<exists>qs. priv_unset n ps = Some qs \<and> length qs = length ps \<and> (\<forall>k. has_bit qs k \<longleftrightarrow> has_bit ps k \<and> k \<noteq> n)"
proof -
  have "n div 32 < length ps" using assms by (simp add: less_mult_imp_div_less mult.commute)
  then show ?thesis
    by (auto simp: priv_unset_def has_bit_def nth_list_update bit_and_iff bit_not_iff bit_priv_bit dest: same_word)
qed

lemma priv_set_ok:
  assumes "n < 32 * length ps"
  shows "\<exists>qs. priv_set n ps = Some qs \<and> length qs = length ps \<and> (\<forall>k. has_bit qs k \<longleftrightarrow> has_bit ps k \<or> k = n)"
proof -
  have "n div 32 < length ps" using assms by (simp add: less_mult_imp_div_less mult.commute)
  then show ?thesis
    by (auto simp: priv_set_def has_bit_def nth_list_update bit_or_iff bit_priv_bit dest: same_word)
qed

lemma mask_privs_ok:
  "\<forall>i\<in>set is. i < 32 * length (sc_privs ctx) \<and> i < 32 * length (sc_inherit ctx) \<Longrightarrow>
   \<exists>qs js. mask_privs is ctx = Some (ctx\<lparr>sc_privs := qs, sc_inherit := js\<rparr>)
     \<and> length qs = length (sc_privs ctx) \<and> length js = length (sc_inherit ctx)
     \<and> (\<forall>k. has_bit qs k \<longleftrightarrow> has_bit (sc_privs ctx) k \<and> k \<notin> set is)
     \<and> (\<forall>k. has_bit js k \<longleftrightarrow> has_bit (sc_inherit ctx) k \<and> k \<notin> set is)"
proof (induction "is" arbitrary: ctx)
  case (Cons i "is")
  obtain qs where q: "priv_unset i (sc_privs ctx) = Some qs" "length qs = length (sc_privs ctx)"
      "\<forall>k. has_bit qs k \<longleftrightarrow> has_bit (sc_privs ctx) k \<and> k \<noteq> i"
    using priv_unset_ok [of i "sc_privs ctx"] Cons.prems by auto
  obtain js where j: "priv_unset i (sc_inherit ctx) = Some js" "length js = length (sc_inherit ctx)"
      "\<forall>k. has_bit js k \<longleftrightarrow> has_bit (sc_inherit ctx) k \<and> k \<noteq> i"
    using priv_unset_ok [of i "sc_inherit ctx"] Cons.prems by auto
  obtain qs' js' where r: "mask_privs is (ctx\<lparr>sc_privs := qs, sc_inherit := js\<rparr>)
        = Some (ctx\<lparr>sc_privs := qs', sc_inherit := js'\<rparr>)"
      "length qs' = length qs" "length js' = length js"
      "\<forall>k. has_bit qs' k \<longleftrightarrow> has_bit qs k \<and> k \<notin> set is" "\<forall>k. has_bit js' k \<longleftrightarrow> has_bit js k \<and> k \<notin> set is"
    using Cons.IH [of "ctx\<lparr>sc_privs := qs, sc_inherit := js\<rparr>"] Cons.prems q(2) j(2) by auto
  show ?case
    using q j r by (intro exI [of _ qs'] exI [of _ js'])
      (auto simp: security_context_unset_priv_def security_context_unset_inherit_def)
next
  case Nil
  show ?case by (intro exI [of _ "sc_privs ctx"] exI [of _ "sc_inherit ctx"]) simp
qed

lemma subset_word: "(p AND NOT c = 0) \<longleftrightarrow> (\<forall>k. bit p k \<longrightarrow> bit (c :: u32) k)"
proof
  assume "p AND NOT c = 0"
  then have "\<not> bit (p AND NOT c) k" for k by simp
  then show "\<forall>k. bit p k \<longrightarrow> bit c k" using bit_imp_le_length [of p] by (auto simp: bit_and_iff bit_not_iff)
next
  assume "\<forall>k. bit p k \<longrightarrow> bit c k"
  then show "p AND NOT c = 0" by (intro bit_eqI) (auto simp: bit_and_iff bit_not_iff)
qed

lemma has_bit_nth: "has_bit ps (32 * i + k) \<longleftrightarrow> i < length ps \<and> bit (ps ! i) k" if "k < 32"
  using that by (simp add: has_bit_def)

lemma has_bit_subset:
  "length ps = length cs \<Longrightarrow> (\<forall>n. has_bit ps n \<longrightarrow> has_bit cs n) \<longleftrightarrow> (\<forall>i<length ps. ps ! i AND NOT (cs ! i) = 0)"
proof (intro iffI allI impI)
  fix i assume "length ps = length cs" "\<forall>n. has_bit ps n \<longrightarrow> has_bit cs n" "i < length ps"
  then have "bit (cs ! i) k" if "bit (ps ! i) k" for k
    using that bit_imp_le_length [OF that] has_bit_nth [of k ps i] has_bit_nth [of k cs i] by auto
  then show "ps ! i AND NOT (cs ! i) = 0" unfolding subset_word by blast
next
  fix n assume "length ps = length cs" "\<forall>i<length ps. ps ! i AND NOT (cs ! i) = 0" "has_bit ps n"
  then show "has_bit cs n" by (auto simp: subset_word has_bit_def)
qed

lemma check_inherit_eq:
  "length js = length ps \<Longrightarrow> check_inherit js ps copy
     = (if \<forall>n. has_bit js n \<longrightarrow> has_bit ps n then Inr (copy \<or> js \<noteq> ps) else Inl STATUS_INVALID_ARG)"
proof -
  assume len: "length js = length ps"
  have "check_inherit js ps copy
      = (if \<forall>i<length js. js ! i AND NOT (ps ! i) = 0 then Inr (copy \<or> js \<noteq> ps) else Inl STATUS_INVALID_ARG)"
    using len by (induction js ps arbitrary: copy rule: list_induct2) (auto simp: less_Suc_eq_0_disj)
  then show ?thesis unfolding has_bit_subset [OF len] .
qed

lemma check_privs_eq:
  "length ps = length cs \<Longrightarrow> check_privs ps cs \<longleftrightarrow> (\<forall>n. has_bit ps n \<longrightarrow> has_bit cs n)"
proof -
  assume len: "length ps = length cs"
  have "check_privs ps cs \<longleftrightarrow> (\<forall>i<length ps. ps ! i AND NOT (cs ! i) = 0)"
    using len by (induction ps cs rule: list_induct2) (auto simp: less_Suc_eq_0_disj)
  then show ?thesis unfolding has_bit_subset [OF len] .
qed

section \<open>Creating a token\<close>

text \<open>The checks of \<open>kern_token_create\<close> on the supported privileges, and the token it makes.\<close>

definition token_granted :: "token \<Rightarrow> security_context \<Rightarrow> id16 list \<Rightarrow> bool" where
  "token_granted creator ctx groups \<longleftrightarrow>
     (\<forall>n\<le>PRIV_MAX. has_bit (sc_inherit ctx) n \<longrightarrow> has_bit (sc_privs ctx) n)
     \<and> (\<forall>n\<le>PRIV_MAX. has_bit (sc_privs ctx) n \<longrightarrow> has_bit (sc_privs (tk_ctx creator)) n)
     \<and> (has_bit (sc_privs (tk_ctx creator)) PRIV_CHANGE_IDENTITY
        \<or> sc_uid ctx = sc_uid (tk_ctx creator) \<and> sc_gid ctx = sc_gid (tk_ctx creator)
          \<and> groups = sc_groups (tk_ctx creator))"

definition token_made :: "security_context \<Rightarrow> id16 list \<Rightarrow> token \<Rightarrow> bool" where
  "token_made ctx groups t \<longleftrightarrow> ctx_ok (tk_ctx t) \<and> sc_uid (tk_ctx t) = sc_uid ctx \<and> sc_gid (tk_ctx t) = sc_gid ctx
     \<and> sc_groups (tk_ctx t) = groups
     \<and> (\<forall>n. has_bit (sc_privs (tk_ctx t)) n \<longleftrightarrow> n \<le> PRIV_MAX \<and> has_bit (sc_privs ctx) n)
     \<and> (\<forall>n. has_bit (sc_inherit (tk_ctx t)) n \<longleftrightarrow> n \<le> PRIV_MAX \<and> has_bit (sc_inherit ctx) n)
     \<and> tk_count t = 1 \<and> (tk_copy_on_inherit t \<longleftrightarrow> sc_inherit (tk_ctx t) \<noteq> sc_privs (tk_ctx t))"

lemma qsort_groups:
  assumes "ctx_ok ctx"
  obtains gs where "qsort compare_group (sc_groups ctx) = Some gs" "mset gs = mset (sc_groups ctx)"
    "sorted_wrt groups.le gs" "length gs = SECURITY_CONTEXT_MAX_GROUPS"
proof -
  obtain gs where gs: "qsort compare_group (sc_groups ctx) = Some gs" "mset gs = mset (sc_groups ctx)" "sorted_wrt groups.le gs"
    using groups.qsort_ok [of "sc_groups ctx"] assms by (auto simp: ctx_ok_def security_limits)
  with that [OF gs] mset_eq_length [OF gs(2)] assms show ?thesis by (simp add: ctx_ok_def)
qed

lemma has_bit_length: "has_bit ps n \<Longrightarrow> length ps = 4 \<Longrightarrow> n < 128"
  by (simp add: has_bit_def) linarith

lemma token_create_ok:
  assumes "ctx_ok (tk_ctx creator)" "ctx_ok ctx" "0 \<le> sint (sc_uid ctx)" "0 \<le> sint (sc_gid ctx)"
    and gs: "qsort compare_group (sc_groups ctx) = Some gs" "length gs = SECURITY_CONTEXT_MAX_GROUPS"
  shows "if token_granted creator ctx gs
    then \<exists>t. kern_token_create creator (Inr ctx) = Some (Inr t) \<and> token_made ctx gs t
    else \<exists>e. kern_token_create creator (Inr ctx) = Some (Inl e) \<and> e \<in> {STATUS_INVALID_ARG, STATUS_PERM_DENIED}"
proof -
  have len: "length (sc_privs ctx) = 4" "length (sc_inherit ctx) = 4" "length (sc_privs (tk_ctx creator)) = 4"
    using assms(1,2) by (auto simp: ctx_ok_def security_limits)
  define unsupported where "unsupported = [PRIV_MAX + 1..<SECURITY_CONTEXT_MAX_PRIVS]"
  have un: "k \<in> set unsupported \<longleftrightarrow> 8 < k \<and> k < 128" for k
    unfolding unsupported_def set_upt by (auto simp: security_limits)
  obtain qs js where m: "mask_privs unsupported (ctx\<lparr>sc_groups := gs\<rparr>)
        = Some (ctx\<lparr>sc_groups := gs, sc_privs := qs, sc_inherit := js\<rparr>)" "length qs = 4" "length js = 4"
      "\<forall>k. has_bit qs k \<longleftrightarrow> has_bit (sc_privs ctx) k \<and> k \<notin> set unsupported"
      "\<forall>k. has_bit js k \<longleftrightarrow> has_bit (sc_inherit ctx) k \<and> k \<notin> set unsupported"
    using mask_privs_ok [of unsupported "ctx\<lparr>sc_groups := gs\<rparr>"] len un by auto
  have bits: "has_bit qs k \<longleftrightarrow> k \<le> 8 \<and> has_bit (sc_privs ctx) k" "has_bit js k \<longleftrightarrow> k \<le> 8 \<and> has_bit (sc_inherit ctx) k" for k
    using m(4,5) has_bit_length [of "sc_privs ctx" k] has_bit_length [of "sc_inherit ctx" k] len un [of k] by auto
  have change: "security_context_has_priv (tk_ctx creator) PRIV_CHANGE_IDENTITY = Some (has_bit (sc_privs (tk_ctx creator)) 3)"
    using priv_test_ok [of 3 "sc_privs (tk_ctx creator)"] len by (simp add: security_context_has_priv_def security_limits)
  let ?t = "\<lparr>tk_ctx = ctx\<lparr>sc_groups := gs, sc_privs := qs, sc_inherit := js\<rparr>, tk_count = 1, tk_copy_on_inherit = (js \<noteq> qs)\<rparr>"
  have run: "kern_token_create creator (Inr ctx) =
      (if \<forall>n. has_bit js n \<longrightarrow> has_bit qs n
       then if \<forall>n. has_bit qs n \<longrightarrow> has_bit (sc_privs (tk_ctx creator)) n
         then if \<not> has_bit (sc_privs (tk_ctx creator)) 3 \<and> (sc_uid ctx \<noteq> sc_uid (tk_ctx creator)
                  \<or> sc_gid ctx \<noteq> sc_gid (tk_ctx creator) \<or> gs \<noteq> sc_groups (tk_ctx creator))
           then Some (Inl STATUS_PERM_DENIED) else Some (Inr ?t)
         else Some (Inl STATUS_PERM_DENIED)
       else Some (Inl STATUS_INVALID_ARG))"
    unfolding kern_token_create_def unsupported_def [symmetric]
    using assms(3,4) gs(1) m(1-3) len change by (simp add: check_inherit_eq check_privs_eq)
  have made: "token_made ctx gs ?t"
    using m(2,3) bits gs(2) assms(2) by (auto simp: token_made_def ctx_ok_def security_limits)
  have granted: "token_granted creator ctx gs \<longleftrightarrow> (\<forall>n. has_bit js n \<longrightarrow> has_bit qs n)
      \<and> (\<forall>n. has_bit qs n \<longrightarrow> has_bit (sc_privs (tk_ctx creator)) n)
      \<and> \<not> (\<not> has_bit (sc_privs (tk_ctx creator)) 3 \<and> (sc_uid ctx \<noteq> sc_uid (tk_ctx creator)
                  \<or> sc_gid ctx \<noteq> sc_gid (tk_ctx creator) \<or> gs \<noteq> sc_groups (tk_ctx creator)))"
    unfolding token_granted_def bits by (auto simp: security_limits)
  show ?thesis using run made granted by auto
qed

text \<open>
  Property C34. A token never holds more than its creator may give. \<open>kern_token_create\<close> returns for every
  context; it makes a token exactly when the IDs are not negative, the inheritable privileges are among
  the effective ones, the effective ones among those of the creator, and the identity is that of the
  creator or the creator may change it. The token then holds the requested IDs, the groups sorted with the
  unused ones last, and the supported privileges asked for, and is marked for copying exactly when its two
  sets differ.
\<close>

theorem kern_token_create_correct:
  assumes "ctx_ok (tk_ctx creator)" "ctx_ok ctx"
  shows "\<exists>groups. mset groups = mset (sc_groups ctx) \<and> sorted_wrt (\<lambda>a b. compare_group a b \<le> 0) groups
    \<and> (if 0 \<le> sint (sc_uid ctx) \<and> 0 \<le> sint (sc_gid ctx) \<and> token_granted creator ctx groups
       then \<exists>t. kern_token_create creator (Inr ctx) = Some (Inr t) \<and> token_made ctx groups t
       else \<exists>e. kern_token_create creator (Inr ctx) = Some (Inl e) \<and> e \<in> {STATUS_INVALID_ARG, STATUS_PERM_DENIED})"
proof -
  obtain gs where gs: "qsort compare_group (sc_groups ctx) = Some gs" "mset gs = mset (sc_groups ctx)"
      "sorted_wrt groups.le gs" "length gs = SECURITY_CONTEXT_MAX_GROUPS"
    using qsort_groups [OF assms(2)] .
  have sorted: "sorted_wrt (\<lambda>a b. compare_group a b \<le> 0) gs" using gs(3) by (simp add: groups.le_def [abs_def])
  show ?thesis
  proof (cases "0 \<le> sint (sc_uid ctx) \<and> 0 \<le> sint (sc_gid ctx)")
    case True
    with token_create_ok [OF assms _ _ gs(1,4)] gs(2) sorted show ?thesis by auto
  next
    case False
    then have "kern_token_create creator (Inr ctx) = Some (Inl STATUS_INVALID_ARG)"
      by (auto simp: kern_token_create_def)
    with False gs(2) sorted show ?thesis by (intro exI [of _ gs]) auto
  qed
qed

section \<open>Chains of tokens\<close>

text \<open>The tokens that can arise from a token: by creation on a user's request, and by inheritance, which
  shares the token or copies it over whatever the memory held.\<close>

inductive token_from :: "token \<Rightarrow> token \<Rightarrow> bool" for origin where
  token_origin: "token_from origin origin"
| token_create: "token_from origin creator \<Longrightarrow> ctx_ok ctx \<Longrightarrow> kern_token_create creator (Inr ctx) = Some (Inr t) \<Longrightarrow> token_from origin t"
| token_copied: "token_from origin source \<Longrightarrow> tk_copy_on_inherit source \<Longrightarrow> token_from origin (token_copy source junk)"

definition token_ok :: "token \<Rightarrow> bool" where
  "token_ok t \<longleftrightarrow> ctx_ok (tk_ctx t) \<and> (\<forall>n. has_bit (sc_inherit (tk_ctx t)) n \<longrightarrow> has_bit (sc_privs (tk_ctx t)) n)"

lemma created_token:
  assumes "token_ok creator" "ctx_ok ctx" "kern_token_create creator (Inr ctx) = Some (Inr t)"
  shows "token_ok t" "has_bit (sc_privs (tk_ctx t)) n \<Longrightarrow> has_bit (sc_privs (tk_ctx creator)) n"
    "\<not> has_bit (sc_privs (tk_ctx creator)) PRIV_CHANGE_IDENTITY \<Longrightarrow> sc_uid (tk_ctx t) = sc_uid (tk_ctx creator)
      \<and> sc_gid (tk_ctx t) = sc_gid (tk_ctx creator) \<and> sc_groups (tk_ctx t) = sc_groups (tk_ctx creator)"
proof -
  have cr: "ctx_ok (tk_ctx creator)" using assms(1) by (simp add: token_ok_def)
  obtain gs where gs: "qsort compare_group (sc_groups ctx) = Some gs" "length gs = SECURITY_CONTEXT_MAX_GROUPS"
    using qsort_groups [OF assms(2)] by blast
  have ids: "0 \<le> sint (sc_uid ctx)" "0 \<le> sint (sc_gid ctx)"
    using assms(3) by (auto simp: kern_token_create_def split: if_splits)
  from token_create_ok [OF cr assms(2) ids gs] assms(3)
  have made: "token_granted creator ctx gs" "token_made ctx gs t" by (auto split: if_splits)
  then show "token_ok t" "has_bit (sc_privs (tk_ctx t)) n \<Longrightarrow> has_bit (sc_privs (tk_ctx creator)) n"
      "\<not> has_bit (sc_privs (tk_ctx creator)) PRIV_CHANGE_IDENTITY \<Longrightarrow> sc_uid (tk_ctx t) = sc_uid (tk_ctx creator)
        \<and> sc_gid (tk_ctx t) = sc_gid (tk_ctx creator) \<and> sc_groups (tk_ctx t) = sc_groups (tk_ctx creator)"
    by (auto simp: token_granted_def token_made_def token_ok_def)
qed

text \<open>
  Property C33. Privileges only shrink: whatever sequence of creations and inheritances leads from one token
  to another, the second holds no privilege that the first does not, its inheritable set stays within its
  effective set, and without the privilege to change identity the IDs and groups are those of the first.
\<close>

theorem tokens_never_gain:
  assumes "token_from origin t" "token_ok origin"
  shows "token_ok t \<and> (\<forall>n. has_bit (sc_privs (tk_ctx t)) n \<longrightarrow> has_bit (sc_privs (tk_ctx origin)) n)
    \<and> (has_bit (sc_privs (tk_ctx origin)) PRIV_CHANGE_IDENTITY \<or> sc_uid (tk_ctx t) = sc_uid (tk_ctx origin)
       \<and> sc_gid (tk_ctx t) = sc_gid (tk_ctx origin) \<and> sc_groups (tk_ctx t) = sc_groups (tk_ctx origin))"
  using assms
proof (induction rule: token_from.induct)
  case (token_create creator ctx t)
  from created_token [OF _ token_create.hyps(2,3)] token_create.IH token_create.prems show ?case by metis
next
  case (token_copied source junk)
  then show ?case by (auto simp: token_ok_def token_copy_def ctx_ok_def)
qed auto

section \<open>Sorting, and the witnesses\<close>

text \<open>
  Property C35. \<open>qsort\<close> sorts: with a comparison function that is a total preorder, an array of fewer than
  \<open>8 * 2 ^ 20\<close> elements is rearranged into ascending order. The sort returns: no access leaves the array,
  no scan runs away and the stack of 20 pairs is never exceeded. It is stated for the comparison of group
  IDs, with which the kernel calls it, and holds for every \<open>comparison\<close>.
\<close>

theorem qsort_correct:
  assumes "length xs < 8 * 2 ^ 20"
  shows "\<exists>ys. qsort compare_group xs = Some ys \<and> mset ys = mset xs \<and> sorted_wrt (\<lambda>a b. compare_group a b \<le> 0) ys"
  using groups.qsort_ok [OF assms] by (simp add: groups.le_def [abs_def])

theorem qsort_correct_witness:
  "\<exists>ys. qsort compare_group [5, - 1, 3, 2, 9, 9, - 2, 0, 7] = Some ys \<and> mset ys = mset [5, - 1, 3, 2, 9, 9, - 2, 0, 7]
     \<and> sorted_wrt (\<lambda>a b. compare_group a b \<le> 0) ys"
  by (rule qsort_correct) simp

definition demo_ctx :: security_context where
  "demo_ctx = \<lparr>sc_uid = 7, sc_gid = 8, sc_groups = replicate 32 (- 1), sc_privs = [5, 0, 0, 0], sc_inherit = [1, 0, 0, 0]\<rparr>"

definition demo_token :: token where
  "demo_token = \<lparr>tk_ctx = demo_ctx, tk_count = 1, tk_copy_on_inherit = True\<rparr>"

lemma demo_ctx_ok: "ctx_ok demo_ctx"
  by (simp add: ctx_ok_def demo_ctx_def security_limits)

lemma demo_subset: "has_bit [1, 0, 0, 0] n \<Longrightarrow> has_bit [5, 0, 0, 0] n"
  by (auto simp: has_bit_def nth_Cons' bit_1_iff split: if_splits)

lemma demo_token_ok: "token_ok demo_token"
  using demo_ctx_ok demo_subset by (simp add: token_ok_def demo_token_def demo_ctx_def)

theorem kern_token_create_correct_witness:
  "\<exists>t. kern_token_create demo_token (Inr demo_ctx) = Some (Inr t) \<and> sc_groups (tk_ctx t) = replicate 32 (- 1)"
proof -
  obtain groups where g: "mset groups = mset (sc_groups demo_ctx)"
      "if 0 \<le> sint (sc_uid demo_ctx) \<and> 0 \<le> sint (sc_gid demo_ctx) \<and> token_granted demo_token demo_ctx groups
       then \<exists>t. kern_token_create demo_token (Inr demo_ctx) = Some (Inr t) \<and> token_made demo_ctx groups t
       else \<exists>e. kern_token_create demo_token (Inr demo_ctx) = Some (Inl e) \<and> e \<in> {STATUS_INVALID_ARG, STATUS_PERM_DENIED}"
    using kern_token_create_correct [of demo_token demo_ctx] demo_ctx_ok by (auto simp: demo_token_def)
  have "length groups = 32" "set groups = {- 1}"
    using mset_eq_length [OF g(1)] mset_eq_setD [OF g(1)] by (auto simp: demo_ctx_def)
  then have groups: "groups = replicate 32 (- 1)" by (intro replicate_eqI) auto
  then have "token_granted demo_token demo_ctx groups"
    using demo_subset by (auto simp: token_granted_def demo_token_def demo_ctx_def)
  with g(2) groups show ?thesis by (auto simp: token_made_def demo_ctx_def)
qed

theorem tokens_never_gain_witness:
  "token_ok (token_copy demo_token demo_token) \<and> \<not> has_bit (sc_privs (tk_ctx (token_copy demo_token demo_token))) 1"
proof -
  have "token_from demo_token (token_copy demo_token demo_token)"
    by (rule token_copied [OF token_origin]) (simp add: demo_token_def)
  moreover have "\<not> has_bit (sc_privs (tk_ctx demo_token)) 1" by (simp add: has_bit_def demo_token_def demo_ctx_def)
  ultimately show ?thesis using tokens_never_gain [OF _ demo_token_ok] by blast
qed

end
