(* ===== verification/Radix_Tree.thy ===== *)
theory Radix_Tree
  imports Kernel_Prelude "HOL-Library.Sublist"
begin

text \<open>
  \<open>lib/radix_tree.c\<close>: a compressed trie over strings. A node has its part of the key, its value, the
  number of its children and a two-level table of them, indexed by the two halves of the first byte of
  the child's key. Keys are the bytes before the terminator, so they hold no null byte. A pointer to a node
  inside the tree, with its chain of \<open>parent\<close> pointers, is the node with the list of its ancestors; an
  update through such a pointer is the update of the node and the replacement of its slot in the parent
  (\<open>plug\<close>). The memory of freed nodes is not modelled; a failed assertion or \<open>fatal\<close> is \<open>None\<close>.
\<close>

section \<open>Nodes\<close>

datatype 'v rnode =
  RNode (rkey: "u8 list option") (rvalue: "'v option") (rcount: nat)
    (rtable: "('v rnode option list \<times> nat) option list")

type_synonym 'v rpath = "'v rnode list"

definition radix_tree_init :: "'v rnode" where
  "radix_tree_init = RNode None None 0 (replicate 16 None)"

definition radix_tree_empty :: "'v rnode \<Rightarrow> bool" where
  "radix_tree_empty tree \<longleftrightarrow> rcount tree = 0"

text \<open>The first byte of a key; the terminator when it is empty.\<close>

definition key0 :: "u8 list \<Rightarrow> u8" where
  "key0 key = (case key of [] \<Rightarrow> 0 | c # _ \<Rightarrow> c)"

definition node_key0 :: "'v rnode \<Rightarrow> u8" where
  "node_key0 n = key0 (case rkey n of None \<Rightarrow> [] | Some k \<Rightarrow> k)"

definition hi :: "u8 \<Rightarrow> nat" where "hi c = unat (drop_bit 4 c AND 0xF)"
definition lo :: "u8 \<Rightarrow> nat" where "lo c = unat (c AND 0xF)"

definition set_slot :: "u8 \<Rightarrow> 'v rnode option \<Rightarrow> 'v rnode option list \<Rightarrow> 'v rnode option list" where
  "set_slot c ch nodes = nodes[lo c := ch]"

definition radix_tree_node_add_child :: "'v rnode \<Rightarrow> 'v rnode \<Rightarrow> 'v rnode" where
  "radix_tree_node_add_child parent child = (
     let c = node_key0 child;
         (nodes, count) = (case rtable parent ! hi c of None \<Rightarrow> (replicate 16 None, 0) | Some p \<Rightarrow> p);
         new = (nodes ! lo c = None)
     in RNode (rkey parent) (rvalue parent) (if new then rcount parent + 1 else rcount parent)
          ((rtable parent)[hi c := Some (set_slot c (Some child) nodes, if new then count + 1 else count)]))"

definition radix_tree_node_remove_child :: "'v rnode \<Rightarrow> 'v rnode \<Rightarrow> 'v rnode option" where
  "radix_tree_node_remove_child parent child = (
     let c = node_key0 child
     in case rtable parent ! hi c of
          None \<Rightarrow> None
        | Some (nodes, count) \<Rightarrow>
            if nodes ! lo c = None \<or> count = 0 then None
            else Some (RNode (rkey parent) (rvalue parent) (rcount parent - 1)
              ((rtable parent)[hi c := if count - 1 = 0 then None else Some (set_slot c None nodes, count - 1)])))"

definition radix_tree_node_find_child :: "'v rnode \<Rightarrow> u8 list \<Rightarrow> 'v rnode option" where
  "radix_tree_node_find_child parent key =
     (case rtable parent ! hi (key0 key) of None \<Rightarrow> None | Some (nodes, _) \<Rightarrow> nodes ! lo (key0 key))"

definition radix_tree_node_alloc :: "'v rnode \<Rightarrow> u8 list \<Rightarrow> 'v option \<Rightarrow> 'v rnode \<times> 'v rnode" where
  "radix_tree_node_alloc parent key val = (
     let node = RNode (Some key) val 0 (replicate 16 None)
     in (node, radix_tree_node_add_child parent node))"

text \<open>An update of a node is seen through the slot of its parent, which holds a pointer to it.\<close>

definition set_child :: "'v rnode \<Rightarrow> 'v rnode \<Rightarrow> 'v rnode" where
  "set_child parent child = (
     let c = node_key0 child
     in RNode (rkey parent) (rvalue parent) (rcount parent)
       ((rtable parent)[hi c := map_option (\<lambda>(nodes, count). (set_slot c (Some child) nodes, count)) (rtable parent ! hi c)]))"

fun plug :: "'v rnode \<Rightarrow> 'v rpath \<Rightarrow> 'v rnode" where
  "plug n [] = n"
| "plug n (p # ps) = plug (set_child p n) ps"

section \<open>Search\<close>

fun match_rest :: "u8 list \<Rightarrow> u8 list \<Rightarrow> nat" where
  "match_rest [] [] = 2"
| "match_rest [] (k # ks) = 3"
| "match_rest (n # ns) [] = 1"
| "match_rest (n # ns) (k # ks) = (if n \<noteq> k then 1 else match_rest ns ks)"

definition radix_tree_node_match :: "'v rnode \<Rightarrow> u8 list \<Rightarrow> nat" where
  "radix_tree_node_match n key =
     (case rkey n of None \<Rightarrow> 3 | Some nk \<Rightarrow> if key0 nk \<noteq> key0 key then 0 else match_rest nk key)"

definition skip_key :: "'v rnode \<Rightarrow> u8 list \<Rightarrow> u8 list" where
  "skip_key n key = (case rkey n of None \<Rightarrow> key | Some nk \<Rightarrow> drop (length nk) key)"

partial_function (option) node_lookup_loop :: "'v rpath \<Rightarrow> 'v rnode \<Rightarrow> u8 list \<Rightarrow> ('v rpath \<times> 'v rnode) option option" where
  "node_lookup_loop path n key =
     (let ret = radix_tree_node_match n key
      in if ret = 2 then Some (Some (path, n))
         else if ret = 3
         then (case radix_tree_node_find_child n (skip_key n key) of
                 Some child \<Rightarrow> node_lookup_loop (n # path) child (skip_key n key)
               | None \<Rightarrow> Some None)
         else Some None)"

definition radix_tree_node_lookup :: "'v rnode \<Rightarrow> u8 list \<Rightarrow> ('v rpath \<times> 'v rnode) option option" where
  "radix_tree_node_lookup tree key = (if key = [] then Some None else node_lookup_loop [] tree key)"

definition radix_tree_lookup :: "'v rnode \<Rightarrow> u8 list \<Rightarrow> 'v option option" where
  "radix_tree_lookup tree key = do {
     r \<leftarrow> radix_tree_node_lookup tree key;
     Some (case r of Some (_, n) \<Rightarrow> rvalue n | None \<Rightarrow> None)}"

section \<open>Insertion and removal\<close>

fun radix_tree_key_common :: "u8 list \<Rightarrow> u8 list \<Rightarrow> u8 list" where
  "radix_tree_key_common (a # as) (b # bs) = (if a = b then a # radix_tree_key_common as bs else [])"
| "radix_tree_key_common _ _ = []"

definition set_value :: "'v option \<Rightarrow> 'v rnode \<Rightarrow> 'v rnode" where
  "set_value v n = RNode (rkey n) v (rcount n) (rtable n)"

definition set_key :: "u8 list \<Rightarrow> 'v rnode \<Rightarrow> 'v rnode" where
  "set_key k n = RNode (Some k) (rvalue n) (rcount n) (rtable n)"

text \<open>The partial match: the new intermediate node takes the slot of the old node.\<close>

definition radix_tree_split :: "'v rnode \<Rightarrow> u8 list \<Rightarrow> 'v option \<Rightarrow> 'v rnode" where
  "radix_tree_split n str val = (
     let nk = the (rkey n);
         common = radix_tree_key_common str nk;
         len = length common;
         inter = RNode (Some common) None 0 (replicate 16 None);
         inter = radix_tree_node_add_child inter (set_key (drop len nk) n)
     in if drop len str \<noteq> [] then snd (radix_tree_node_alloc inter (drop len str) val)
        else set_value val inter)"

partial_function (option) radix_tree_insert_loop :: "'v rpath \<Rightarrow> 'v rnode \<Rightarrow> u8 list \<Rightarrow> 'v option \<Rightarrow> 'v rnode option" where
  "radix_tree_insert_loop path n str val =
     (let ret = radix_tree_node_match n str
      in if ret = 1
         then (case path of
                 [] \<Rightarrow> None
               | parent # ps \<Rightarrow> Some (plug (radix_tree_node_add_child parent (radix_tree_split n str val)) ps))
         else if ret = 2 then Some (plug (set_value val n) path)
         else if ret = 3
         then (case radix_tree_node_find_child n (skip_key n str) of
                 Some child \<Rightarrow> radix_tree_insert_loop (n # path) child (skip_key n str) val
               | None \<Rightarrow> Some (plug (snd (radix_tree_node_alloc n (skip_key n str) val)) path))
         else None)"

definition radix_tree_insert :: "'v rnode \<Rightarrow> u8 list \<Rightarrow> 'v option \<Rightarrow> 'v rnode option" where
  "radix_tree_insert tree key val = (if key = [] then Some tree else radix_tree_insert_loop [] tree key val)"

text \<open>The search for the only child of a node.\<close>

definition slot_in_row :: "('v rnode option list \<times> nat) option \<Rightarrow> 'v rnode option" where
  "slot_in_row row = (case row of None \<Rightarrow> None | Some (nodes, _) \<Rightarrow> Option.bind (List.find (\<lambda>x. x \<noteq> None) nodes) id)"

definition radix_tree_only_child :: "'v rnode \<Rightarrow> 'v rnode option" where
  "radix_tree_only_child n = Option.bind (List.find (\<lambda>r. slot_in_row r \<noteq> None) (rtable n)) slot_in_row"

text \<open>The loop that goes up from a node whose value is gone.\<close>

fun radix_tree_optimize :: "'v rnode \<Rightarrow> 'v rpath \<Rightarrow> 'v rnode option" where
  "radix_tree_optimize n [] = Some n"
| "radix_tree_optimize n (parent # ps) =
     (if rvalue n \<noteq> None then Some (plug n (parent # ps))
      else if rcount n = 1
      then (case radix_tree_only_child n of
              None \<Rightarrow> None
            | Some child \<Rightarrow> do {
                _ \<leftarrow> radix_tree_node_remove_child n child;
                Some (plug (radix_tree_node_add_child parent
                  (set_key (the (rkey n) @ the (rkey child)) child)) ps)})
      else if rcount n = 0
      then do {
        parent' \<leftarrow> radix_tree_node_remove_child parent n;
        radix_tree_optimize parent' ps}
      else Some (plug n (parent # ps)))"

text \<open>The result has the value that the helper, if any, is called on.\<close>

definition radix_tree_remove :: "'v rnode \<Rightarrow> u8 list \<Rightarrow> ('v option \<times> 'v rnode) option" where
  "radix_tree_remove tree key = do {
     r \<leftarrow> radix_tree_node_lookup tree key;
     case r of
       None \<Rightarrow> Some (None, tree)
     | Some (path, n) \<Rightarrow> do {
         tree \<leftarrow> radix_tree_optimize (set_value None n) path;
         Some (rvalue n, tree)}}"

text \<open>
  Clearing a node: the loop over the slots reads the table as the removals leave it. The result has the
  values the helper is called on, in the order of the calls.
\<close>

partial_function (option) radix_tree_node_clear :: "'v rnode \<Rightarrow> nat \<Rightarrow> nat \<Rightarrow> ('v list \<times> 'v rnode) option" where
  "radix_tree_node_clear node i j =
     (if i \<ge> 16 then Some ([], node)
      else case rtable node ! i of
        None \<Rightarrow> radix_tree_node_clear node (i + 1) 0
      | Some (nodes, _) \<Rightarrow>
          if j \<ge> 16 then radix_tree_node_clear node (i + 1) 0
          else case nodes ! j of
            None \<Rightarrow> radix_tree_node_clear node i (j + 1)
          | Some child \<Rightarrow> do {
              (vs, child) \<leftarrow> radix_tree_node_clear child 0 0;
              node \<leftarrow> radix_tree_node_remove_child node child;
              (ws, node) \<leftarrow> radix_tree_node_clear node i (j + 1);
              Some (vs @ (case rvalue child of None \<Rightarrow> [] | Some v \<Rightarrow> [v]) @ ws, node)})"

definition radix_tree_clear :: "'v rnode \<Rightarrow> ('v list \<times> 'v rnode) option" where
  "radix_tree_clear tree = radix_tree_node_clear tree 0 0"

declare node_lookup_loop.simps [code] radix_tree_insert_loop.simps [code] radix_tree_node_clear.simps [code]

section \<open>The table of children\<close>

definition child :: "'v rnode \<Rightarrow> u8 \<Rightarrow> 'v rnode option" where
  "child n c = (case rtable n ! hi c of None \<Rightarrow> None | Some (nodes, _) \<Rightarrow> nodes ! lo c)"

definition used :: "'v rnode option list \<Rightarrow> nat set" where
  "used nodes = {j. j < 16 \<and> nodes ! j \<noteq> None}"

definition shape :: "'v rnode \<Rightarrow> bool" where
  "shape n \<longleftrightarrow> length (rtable n) = 16
     \<and> (\<forall>i<16. \<forall>nodes count. rtable n ! i = Some (nodes, count) \<longrightarrow>
          length nodes = 16 \<and> count = card (used nodes) \<and> count \<noteq> 0)
     \<and> rcount n = card {c. child n c \<noteq> None}"

lemma hi_lo: "hi c = unat c div 16" "lo c = unat c mod 16"
proof -
  have "lo c = unat (take_bit 4 c)" by (simp add: lo_def take_bit_eq_mask mask_eq_exp_minus_1)
  then show "lo c = unat c mod 16" by (simp only: unsigned_take_bit_eq) (simp add: take_bit_eq_mod)
  have small: "unat c < 256" using unsigned_less [of c, where 'a = nat] by simp
  have "drop_bit 4 c AND 0xF = take_bit 4 (drop_bit 4 c)" by (simp add: take_bit_eq_mask mask_eq_exp_minus_1)
  then have "hi c = take_bit 4 (drop_bit 4 (take_bit 8 (unat c)))" unfolding hi_def
    by (simp only: unsigned_take_bit_eq unsigned_drop_bit_eq) simp
  then show "hi c = unat c div 16" using small by (simp add: take_bit_eq_mod drop_bit_eq_div)
qed

lemma hi_less [simp]: "hi c < 16" and lo_less [simp]: "lo c < 16"
  using unsigned_less [of c, where 'a = nat] by (simp_all add: hi_lo)

lemma hi_lo_inj: "hi a = hi b \<Longrightarrow> lo a = lo b \<longleftrightarrow> a = b"
  by (metis hi_lo div_mult_mod_eq unsigned_word_eqI)

lemma find_child: "radix_tree_node_find_child n key = child n (key0 key)"
  by (simp add: radix_tree_node_find_child_def child_def)

lemma finite_used [simp]: "finite (used nodes)" by (simp add: used_def)

lemma used_set: "length nodes = 16 \<Longrightarrow> l < 16 \<Longrightarrow> used (nodes[l := x]) = (if x = None then used nodes - {l} else insert l (used nodes))"
  by (auto simp: used_def nth_list_update)

lemma card_children_upd:
  fixes f :: "u8 \<Rightarrow> 'a option"
  shows "card {c. (f(a \<mapsto> x)) c \<noteq> None} = (if f a = None then card {c. f c \<noteq> None} + 1 else card {c. f c \<noteq> None})"
    and "f a \<noteq> None \<Longrightarrow> card {c. (f(a := None)) c \<noteq> None} = card {c. f c \<noteq> None} - 1"
proof -
  have "{c. (f(a \<mapsto> x)) c \<noteq> None} = insert a {c. f c \<noteq> None}" by auto
  then show "card {c. (f(a \<mapsto> x)) c \<noteq> None} = (if f a = None then card {c. f c \<noteq> None} + 1 else card {c. f c \<noteq> None})"
    by (simp add: card_insert_if)
  have "{c. (f(a := None)) c \<noteq> None} = {c. f c \<noteq> None} - {a}" by auto
  then show "f a \<noteq> None \<Longrightarrow> card {c. (f(a := None)) c \<noteq> None} = card {c. f c \<noteq> None} - 1" by simp
qed

lemma child_init [simp]: "child (RNode k v 0 (replicate 16 None)) c = None"
  by (simp add: child_def)

lemma shape_init [simp]: "shape (RNode k v 0 (replicate 16 None))"
  by (simp add: shape_def)

lemma child_fields [simp]:
  "child (set_value v n) = child n" "child (set_key k n) = child n" "shape (set_value v n) = shape n" "shape (set_key k n) = shape n"
  "rkey (set_value v n) = rkey n" "rvalue (set_value v n) = v" "rkey (set_key k n) = Some k" "rvalue (set_key k n) = rvalue n"
  "rcount (set_value v n) = rcount n" "rcount (set_key k n) = rcount n"
  by (simp_all add: child_def set_value_def set_key_def shape_def fun_eq_iff)

lemma shape_row:
  "shape n \<Longrightarrow> i < 16 \<Longrightarrow> rtable n ! i = Some (nodes, count) \<Longrightarrow> length nodes = 16 \<and> count = card (used nodes) \<and> count \<noteq> 0"
  by (simp add: shape_def)

lemma add_child_ok:
  fixes p ch :: "'v rnode"
  assumes "shape p"
  defines "q \<equiv> radix_tree_node_add_child p ch"
  shows "shape q" "child q = (child p)(node_key0 ch \<mapsto> ch)" "rkey q = rkey p" "rvalue q = rvalue p"
proof -
  let ?c = "node_key0 ch"
  obtain nodes count where row: "(case rtable p ! hi ?c of None \<Rightarrow> (replicate 16 None, 0) | Some r \<Rightarrow> r) = (nodes, count)"
    by force
  have len: "length (rtable p) = 16" using assms(1) by (simp add: shape_def)
  have nodes: "length nodes = 16" "count = card (used nodes)" "child p ?c = nodes ! lo ?c"
    using row shape_row [OF assms(1) hi_less] by (cases "rtable p ! hi ?c"; auto simp: child_def used_def)+
  have other: "nodes ! lo d = child p d" if "hi d = hi ?c" for d
    using row that by (auto simp: child_def split: option.splits)
  have q: "q = RNode (rkey p) (rvalue p) (if nodes ! lo ?c = None then rcount p + 1 else rcount p)
      ((rtable p)[hi ?c := Some (nodes[lo ?c := Some ch], if nodes ! lo ?c = None then count + 1 else count)])"
    using row by (simp add: q_def radix_tree_node_add_child_def Let_def set_slot_def)
  then show "rkey q = rkey p" "rvalue q = rvalue p" by simp_all
  show ch: "child q = (child p)(?c \<mapsto> ch)"
  proof
    fix d
    show "child q d = ((child p)(?c \<mapsto> ch)) d"
      using nodes(1) hi_lo_inj [of d ?c] other [of d] len
      by (cases "hi d = hi ?c") (auto simp: q child_def nth_list_update)
  qed
  have "rcount q = card {c. child q c \<noteq> None}"
    unfolding ch card_children_upd using assms(1) nodes(3) by (simp add: q shape_def)
  moreover have "length ns = 16 \<and> n = card (used ns) \<and> n \<noteq> 0" if "i < 16" "rtable q ! i = Some (ns, n)" for i ns n
    using that assms(1) nodes len used_set [OF nodes(1) lo_less, of ?c "Some ch"]
    by (cases "i = hi ?c") (auto simp: q shape_def card_insert_if used_def split: if_splits)
  ultimately show "shape q" using len by (simp add: shape_def q)
qed


lemma set_child_eq:
  "child p (node_key0 s) \<noteq> None \<Longrightarrow> radix_tree_node_add_child p s = set_child p s"
  by (auto simp: child_def radix_tree_node_add_child_def set_child_def Let_def split: option.splits)

lemma set_child_same:
  assumes "shape p" "child p (node_key0 s) = Some s"
  shows "set_child p s = p"
proof -
  obtain nodes count where row: "rtable p ! hi (node_key0 s) = Some (nodes, count)" "nodes ! lo (node_key0 s) = Some s"
    using assms(2) by (auto simp: child_def split: option.splits)
  then have "set_slot (node_key0 s) (Some s) nodes = nodes"
    by (metis list_update_id set_slot_def)
  with row show ?thesis using list_update_id [of "rtable p" "hi (node_key0 s)"]
    by (cases p) (auto simp: set_child_def Let_def)
qed

lemma remove_child_ok:
  fixes p ch :: "'v rnode"
  assumes "shape p" "child p (node_key0 ch) \<noteq> None"
  obtains q where "radix_tree_node_remove_child p ch = Some q" "shape q" "child q = (child p)(node_key0 ch := None)"
    "rkey q = rkey p" "rvalue q = rvalue p"
proof -
  let ?c = "node_key0 ch"
  obtain nodes count where row: "rtable p ! hi ?c = Some (nodes, count)" "nodes ! lo ?c \<noteq> None"
    using assms(2) by (auto simp: child_def split: option.splits)
  have len: "length (rtable p) = 16" using assms(1) by (simp add: shape_def)
  have nodes: "length nodes = 16" "count = card (used nodes)" "count \<noteq> 0"
    using row shape_row [OF assms(1) hi_less row(1)] by auto
  let ?q = "RNode (rkey p) (rvalue p) (rcount p - 1)
      ((rtable p)[hi ?c := if count - 1 = 0 then None else Some (nodes[lo ?c := None], count - 1)])"
  have lo_used: "lo ?c \<in> used nodes" using row(2) by (simp add: used_def)
  have last: "nodes ! lo d = None" if "count - 1 = 0" "hi d = hi ?c" "d \<noteq> ?c" for d
  proof -
    have "card (used nodes) = 1" using nodes(2,3) that(1) by linarith
    then obtain x where "used nodes = {x}" by (rule card_1_singletonE)
    then have "used nodes = {lo ?c}" using lo_used by simp
    then have "lo d \<notin> used nodes" using hi_lo_inj [OF that(2)] that(3) by simp
    then show ?thesis by (simp add: used_def)
  qed
  have ch: "child ?q = (child p)(?c := None)"
  proof
    fix d
    show "child ?q d = ((child p)(?c := None)) d"
      using nodes(1) hi_lo_inj [of d ?c] row len last [of d]
      by (cases "hi d = hi ?c") (auto simp: child_def nth_list_update)
  qed
  have "rcount ?q = card {c. child ?q c \<noteq> None}"
    unfolding ch card_children_upd(2) [of "child p", OF assms(2)] using assms(1) by (simp add: shape_def)
  moreover have "length ns = 16 \<and> n = card (used ns) \<and> n \<noteq> 0" if "i < 16" "rtable ?q ! i = Some (ns, n)" for i ns n
    using that assms(1) nodes len used_set [OF nodes(1) lo_less, of ?c None] lo_used
    by (cases "i = hi ?c") (auto simp: shape_def split: if_splits)
  ultimately have "shape ?q" using len by (simp add: shape_def)
  moreover have "radix_tree_node_remove_child p ch = Some ?q"
    using row nodes(3) by (auto simp: radix_tree_node_remove_child_def Let_def set_slot_def)
  ultimately show thesis using that ch by simp
qed

lemma hi_lo_ex: "i < 16 \<Longrightarrow> j < 16 \<Longrightarrow> \<exists>c. hi c = i \<and> lo c = j"
  by (rule exI [of _ "word_of_nat (16 * i + j)"]) (simp add: hi_lo unat_of_nat take_bit_eq_mod del: of_nat_add of_nat_mult)

lemma slot_in_row_Some:
  assumes "slot_in_row row = Some ch"
  obtains nodes count j where "row = Some (nodes, count)" "j < length nodes" "nodes ! j = Some ch"
proof (cases row)
  case (Some p)
  then obtain nodes count where row: "row = Some (nodes, count)" by force
  then have "List.find (\<lambda>x. x \<noteq> None) nodes = Some (Some ch)"
    using assms by (auto simp: slot_in_row_def bind_eq_Some_conv)
  then obtain j where "j < length nodes" "nodes ! j = Some ch" by (auto simp: find_Some_iff)
  with row show thesis by (rule that)
qed (use assms in \<open>simp add: slot_in_row_def\<close>)

lemma slot_in_row_None:
  assumes "slot_in_row (Some (nodes, count)) = None" "j < length nodes"
  shows "nodes ! j = None"
proof (rule ccontr)
  assume "nodes ! j \<noteq> None"
  then have "List.find (\<lambda>x. x \<noteq> None) nodes \<noteq> None"
    unfolding find_None_iff using assms(2) nth_mem by blast
  then obtain x where "List.find (\<lambda>x. x \<noteq> None) nodes = Some x" "x \<noteq> None" by (auto simp: find_Some_iff)
  then show False using assms(1) by (simp add: slot_in_row_def)
qed

lemma only_child_ok:
  assumes "shape n" "rcount n = 1"
  obtains c ch where "radix_tree_only_child n = Some ch" "child n = [c \<mapsto> ch]"
proof -
  have "card {c. child n c \<noteq> None} = 1" using assms by (simp add: shape_def)
  then obtain c where c: "{c. child n c \<noteq> None} = {c}" by (rule card_1_singletonE)
  then obtain ch where ch: "child n c = Some ch" by blast
  then obtain nodes count where row: "rtable n ! hi c = Some (nodes, count)" "nodes ! lo c = Some ch"
    by (auto simp: child_def split: option.splits)
  have len: "length (rtable n) = 16" "length nodes = 16"
    using assms(1) shape_row [OF assms(1) hi_less row(1)] by (simp_all add: shape_def)
  have "slot_in_row (rtable n ! hi c) \<noteq> None" using slot_in_row_None [of nodes count "lo c"] row len by auto
  then have "List.find (\<lambda>r. slot_in_row r \<noteq> None) (rtable n) \<noteq> None"
    unfolding find_None_iff using len by (metis hi_less nth_mem)
  then obtain r x where r: "List.find (\<lambda>r. slot_in_row r \<noteq> None) (rtable n) = Some r" "slot_in_row r = Some x"
    by (auto simp: find_Some_iff)
  then obtain i where i: "i < 16" "rtable n ! i = r" using len by (auto simp: find_Some_iff)
  obtain ns m j where ns: "r = Some (ns, m)" "j < length ns" "ns ! j = Some x" using slot_in_row_Some [OF r(2)] .
  then have "j < 16" using shape_row [OF assms(1) i(1)] i(2) by simp
  then obtain d where "hi d = i" "lo d = j" using hi_lo_ex i by blast
  then have "child n d = Some x" using i ns by (simp add: child_def)
  moreover from this have "d = c" using c by blast
  ultimately have "x = ch" using ch by simp
  then have "radix_tree_only_child n = Some ch" using r by (simp add: radix_tree_only_child_def)
  moreover have "child n = [c \<mapsto> ch]" using c ch by (auto simp: fun_eq_iff)
  ultimately show thesis by (rule that)
qed


section \<open>The invariant and the mapping a tree stands for\<close>

definition keyof :: "'v rnode \<Rightarrow> u8 list" where
  "keyof n = (case rkey n of None \<Rightarrow> [] | Some k \<Rightarrow> k)"

definition keyok :: "'v rnode \<Rightarrow> u8 \<Rightarrow> bool" where
  "keyok n c \<longleftrightarrow> (\<exists>ks. rkey n = Some (c # ks))"

inductive rwf :: "'v rnode \<Rightarrow> bool" where
  rwfI: "shape n \<Longrightarrow> (\<And>c ch. child n c = Some ch \<Longrightarrow> keyok ch c \<and> rwf ch) \<Longrightarrow> rwf n"

inductive_cases rwfE: "rwf n"

lemma rwf_shape: "rwf n \<Longrightarrow> shape n" and rwf_child: "rwf n \<Longrightarrow> child n c = Some ch \<Longrightarrow> keyok ch c \<and> rwf ch"
  by (auto elim: rwfE)

lemma rwf_cong: "rwf n \<Longrightarrow> child n' = child n \<Longrightarrow> shape n' \<Longrightarrow> rwf n'"
  by (rule rwfI) (auto dest: rwf_child)

text \<open>The value under a key in the subtrees of a node, and in the tree of a node with its own key.\<close>

function sub :: "'v rnode \<Rightarrow> u8 list \<Rightarrow> 'v option" where
  "sub n [] = rvalue n"
| "sub n (c # cs) = (case child n c of None \<Rightarrow> None
     | Some ch \<Rightarrow> if prefix (tl (keyof ch)) cs then sub ch (drop (length (tl (keyof ch))) cs) else None)"
  by pat_completeness auto
termination by (relation "measure (\<lambda>(n, key). length key)") auto

definition look :: "'v rnode \<Rightarrow> u8 list \<Rightarrow> 'v option" where
  "look n key = (if prefix (keyof n) key then sub n (drop (length (keyof n)) key) else None)"

lemma keyof_ok: "keyok n c \<Longrightarrow> \<exists>ks. keyof n = c # ks \<and> rkey n = Some (c # ks)" and node_key0_ok: "keyok n c \<Longrightarrow> node_key0 n = c"
  by (auto simp: keyok_def keyof_def node_key0_def key0_def)

lemma look_first: "keyok n c \<Longrightarrow> d \<noteq> c \<Longrightarrow> look n (d # ds) = None" "keyok n c \<Longrightarrow> look n [] = None"
  by (auto simp: look_def dest!: keyof_ok split: if_splits)

lemma sub_Cons:
  assumes "rwf n"
  shows "sub n (c # cs) = (case child n c of None \<Rightarrow> None | Some ch \<Rightarrow> look ch (c # cs))"
  using rwf_child [OF assms, of c] by (auto simp: look_def dest!: keyof_ok split: option.splits)

lemma look_append: "look n (keyof n @ cs) = sub n cs"
  by (simp add: look_def)

lemma look_eqI:
  assumes "keyof n' = keyof n" "\<And>cs. sub n' cs = (if keyof n @ cs \<in> K then v else sub n cs)" "\<And>k. k \<in> K \<Longrightarrow> prefix (keyof n) k"
  shows "look n' key = (if key \<in> K then v else look n key)"
proof (cases "prefix (keyof n) key")
  case True
  then obtain cs where "key = keyof n @ cs" by (auto elim: prefixE)
  then show ?thesis using assms(1,2) by (simp add: look_def)
next
  case False
  then show ?thesis using assms(1,3) by (auto simp: look_def)
qed

section \<open>Positions in the tree\<close>

text \<open>A node with its ancestors: the key of the path above it, and a slot for it in its parent.\<close>

inductive zipper :: "'v rpath \<Rightarrow> 'v rnode \<Rightarrow> u8 list \<Rightarrow> bool" where
  root: "rwf n \<Longrightarrow> rkey n = None \<Longrightarrow> zipper [] n []"
| step: "zipper ps p \<pi> \<Longrightarrow> rwf n \<Longrightarrow> keyok n c \<Longrightarrow> child p c \<noteq> None \<Longrightarrow> zipper (p # ps) n (\<pi> @ keyof p)"

inductive_cases zipper_ConsE: "zipper (p # ps) n \<pi>"
inductive_cases zipper_NilE: "zipper [] n \<pi>"

lemma zipper_rwf: "zipper ps n \<pi> \<Longrightarrow> rwf n"
  by (auto elim: zipper.cases)

lemma set_child_ok:
  assumes "rwf p" "rwf n" "keyok n c" "child p c \<noteq> None"
  shows "rwf (set_child p n)" "child (set_child p n) = (child p)(c \<mapsto> n)" "rkey (set_child p n) = rkey p"
    "rvalue (set_child p n) = rvalue p" "keyof (set_child p n) = keyof p"
proof -
  have eq: "set_child p n = radix_tree_node_add_child p n"
    using set_child_eq assms(4) node_key0_ok [OF assms(3)] by metis
  note ok = add_child_ok [OF rwf_shape [OF assms(1)], of n, folded eq, unfolded node_key0_ok [OF assms(3)]]
  show ch: "child (set_child p n) = (child p)(c \<mapsto> n)" "rkey (set_child p n) = rkey p"
    "rvalue (set_child p n) = rvalue p" using ok by simp_all
  then show "keyof (set_child p n) = keyof p" by (simp add: keyof_def)
  show "rwf (set_child p n)" using ok(1) assms(2,3) rwf_child [OF assms(1)]
    by (intro rwfI) (auto simp: ch(1) split: if_splits)
qed

text \<open>Changing a node in place: same position, another node.\<close>

lemma zipper_same:
  assumes "zipper ps n \<pi>" "rwf n'" "rkey n' = rkey n"
  shows "zipper ps n' \<pi>"
  using assms(1)
proof (cases rule: zipper.cases)
  case (step ps p \<pi> c)
  then show ?thesis using assms zipper.step [of ps p \<pi> n' c] by (simp add: keyok_def)
qed (use assms zipper.root in auto)

lemma zipper_up:
  assumes "zipper (p # ps) n \<pi>"
  obtains \<pi>' c where "\<pi> = \<pi>' @ keyof p" "zipper ps (set_child p n) \<pi>'" "zipper ps p \<pi>'" "keyok n c" "child p c \<noteq> None" "rwf n" "rwf p"
proof -
  obtain \<pi>' c where h: "\<pi> = \<pi>' @ keyof p" "zipper ps p \<pi>'" "rwf n" "keyok n c" "child p c \<noteq> None"
    using zipper_ConsE [OF assms] by blast
  have p: "rwf p" using zipper_rwf [OF h(2)] .
  have "zipper ps (set_child p n) \<pi>'"
    using zipper_same [OF h(2)] set_child_ok [OF p h(3,4,5)] by simp
  with h p show thesis using that by blast
qed

lemma set_child_look:
  assumes "rwf p" "rwf n" "keyok n c" "child p c \<noteq> None" "rwf n'" "keyok n' c"
    and "\<And>key. look n' key = (if key \<in> K then v else look n key)" "\<And>k. k \<in> K \<Longrightarrow> \<exists>cs. k = c # cs"
  shows "look (set_child p n') key = (if key \<in> (@) (keyof p) ` K then v else look (set_child p n) key)"
proof (rule look_eqI)
  note ok = set_child_ok [OF assms(1,2,3,4)] and ok' = set_child_ok [OF assms(1,5,6,4)]
  show "keyof (set_child p n') = keyof (set_child p n)" using ok ok' by simp
  show "prefix (keyof (set_child p n)) k" if "k \<in> (@) (keyof p) ` K" for k using that ok by auto
  fix cs
  have eq: "(keyof p @ cs \<in> (@) (keyof p) ` K) = (cs \<in> K)" by auto
  show "sub (set_child p n') cs = (if keyof (set_child p n) @ cs \<in> (@) (keyof p) ` K then v else sub (set_child p n) cs)"
    unfolding ok(5) eq
  proof (cases cs)
    case Nil
    then show "sub (set_child p n') cs = (if cs \<in> K then v else sub (set_child p n) cs)"
      using ok ok' assms(8) by auto
  next
    case (Cons d ds)
    then show "sub (set_child p n') cs = (if cs \<in> K then v else sub (set_child p n) cs)"
      using assms(7) assms(8) [of cs] by (auto simp del: sub.simps simp: sub_Cons [OF ok(1)] sub_Cons [OF ok'(1)] ok(2) ok'(2))
  qed
qed

lemma zipper_Cons_keyok:
  assumes "zipper ps n \<pi>" "ps \<noteq> []"
  obtains c where "keyok n c"
  using assms by (auto elim: zipper.cases)

lemma plug_rwf:
  "zipper ps n \<pi> \<Longrightarrow> rwf (plug n ps) \<and> rkey (plug n ps) = None"
  by (induction ps arbitrary: n \<pi>) (auto elim: zipper_NilE zipper_up)

lemma plug_look:
  assumes "zipper ps n \<pi>" "zipper ps n' \<pi>" "node_key0 n' = node_key0 n"
    and "\<And>key. look n' key = (if key \<in> K then v else look n key)" "\<And>k. ps \<noteq> [] \<Longrightarrow> k \<in> K \<Longrightarrow> \<exists>cs. k = node_key0 n # cs"
  shows "look (plug n' ps) key = (if key \<in> (@) \<pi> ` K then v else look (plug n ps) key)"
  using assms
proof (induction ps arbitrary: n n' \<pi> K)
  case Nil
  then show ?case by (auto elim: zipper_NilE)
next
  case (Cons p ps)
  obtain \<pi>' c where z: "\<pi> = \<pi>' @ keyof p" "zipper ps (set_child p n) \<pi>'" "keyok n c" "child p c \<noteq> None" "rwf n" "rwf p"
    using Cons.prems(1) by (rule zipper_up)
  obtain \<pi>'' c' where z': "\<pi> = \<pi>'' @ keyof p" "zipper ps (set_child p n') \<pi>''" "keyok n' c'" "rwf n'"
    using Cons.prems(2) by (rule zipper_up)
  have c': "c' = c" "\<pi>'' = \<pi>'"
    using Cons.prems(3) z(1) z'(1) node_key0_ok [OF z(3)] node_key0_ok [OF z'(3)] by simp_all
  note keep = set_child_ok [OF z(6,5,3,4)] set_child_ok [OF z(6) z'(4) z'(3)[unfolded c'] z(4)]
  have "look (plug (set_child p n') ps) key = (if key \<in> (@) \<pi>' ` (@) (keyof p) ` K then v else look (plug (set_child p n) ps) key)"
  proof (rule Cons.IH)
    show "node_key0 (set_child p n') = node_key0 (set_child p n)" using keep by (simp add: node_key0_def)
    show "look (set_child p n') key = (if key \<in> (@) (keyof p) ` K then v else look (set_child p n) key)" for key
      using Cons.prems(4,5) node_key0_ok [OF z(3)] by (intro set_child_look [OF z(6,5,3,4) z'(4) z'(3) [unfolded c']]) auto
    show "\<exists>cs. k = node_key0 (set_child p n) # cs" if ne: "ps \<noteq> []" and k: "k \<in> (@) (keyof p) ` K" for k
    proof -
      obtain d where "keyok (set_child p n) d" using z(2) ne by (rule zipper_Cons_keyok)
      from keyof_ok [OF this] node_key0_ok [OF this] show ?thesis using k keep(5) by auto
    qed
  qed (use z z' c' in auto)
  moreover have "(@) \<pi> = (@) \<pi>' \<circ> (@) (keyof p)" by (simp add: z fun_eq_iff)
  ultimately show ?case by (simp add: image_comp)
qed


section \<open>What each change of a node does to the mapping\<close>

lemma match_rest:
  "match_rest ns ks = (if ns = ks then 2 else if prefix ns ks then 3 else 1)"
  by (induction ns ks rule: match_rest.induct) auto

lemma node_match:
  "keyok n c \<Longrightarrow> radix_tree_node_match n (c # cs) =
     (if keyof n = c # cs then 2 else if prefix (keyof n) (c # cs) then 3 else 1)"
  by (auto simp: radix_tree_node_match_def key0_def match_rest dest!: keyof_ok)

lemma node_match_root: "rkey n = None \<Longrightarrow> radix_tree_node_match n key = 3"
  by (simp add: radix_tree_node_match_def)

lemma skip_key: "skip_key n key = drop (length (keyof n)) key"
  by (simp add: skip_key_def keyof_def split: option.splits)

lemma keyof_fields [simp]: "keyof (set_value v n) = keyof n" "keyof (set_key k n) = k" "keyof (RNode (Some k) v m t) = k"
  by (simp_all add: keyof_def)

lemma rwf_fields: "rwf n \<Longrightarrow> rwf (set_value v n)" "rwf n \<Longrightarrow> rwf (set_key k n)"
  by (rule rwf_cong [of n]; simp add: rwf_shape)+

lemma sub_fields: "sub (set_key k n) key = sub n key" "sub (set_value v n) key = (if key = [] then v else sub n key)"
  by (cases key; simp)+

lemma rwf_leaf: "rwf (RNode k v 0 (replicate 16 None))"
  by (rule rwfI) auto

lemma look_set_value: "look (set_value v n) key = (if key \<in> {keyof n} then v else look n key)"
  by (rule look_eqI) (auto simp: sub_fields)

lemma look_leaf: "look (RNode (Some k) v 0 (replicate 16 None)) key = (if key = k then v else None)"
proof (cases "prefix k key")
  case True
  then obtain cs where "key = k @ cs" by (auto elim: prefixE)
  then show ?thesis by (cases cs) (auto simp: look_def)
qed (auto simp: look_def)

lemma add_child_look:
  assumes "rwf p" "rwf ch" "keyok ch c"
  shows "rwf (radix_tree_node_add_child p ch)"
    "sub (radix_tree_node_add_child p ch) (d # ds) = (if d = c then look ch (d # ds) else sub p (d # ds))"
proof -
  note ok = add_child_ok [OF rwf_shape [OF assms(1)], of ch, unfolded node_key0_ok [OF assms(3)]]
  show r: "rwf (radix_tree_node_add_child p ch)" using ok(1) assms(2,3) rwf_child [OF assms(1)]
    by (intro rwfI) (auto simp: ok(2) split: if_splits)
  show "sub (radix_tree_node_add_child p ch) (d # ds) = (if d = c then look ch (d # ds) else sub p (d # ds))"
    by (simp del: sub.simps add: sub_Cons [OF r] sub_Cons [OF assms(1)] ok(2))
qed

lemma alloc_look:
  fixes n :: "'v rnode" and cs and v
  assumes "rwf n" "child n c = None"
  defines "n' \<equiv> snd (radix_tree_node_alloc n (c # cs) v)"
  shows "rwf n'" "rkey n' = rkey n" "look n' key = (if key \<in> {keyof n @ c # cs} then v else look n key)"
proof -
  let ?l = "RNode (Some (c # cs)) v 0 (replicate 16 None) :: 'v rnode"
  have n': "n' = radix_tree_node_add_child n ?l" by (simp add: n'_def radix_tree_node_alloc_def Let_def)
  have ok: "keyok ?l c" by (simp add: keyok_def)
  note add = add_child_look [OF assms(1) rwf_leaf ok] add_child_ok [OF rwf_shape [OF assms(1)], of ?l]
  show "rwf n'" "rkey n' = rkey n" using add(1,5) by (simp_all add: n')
  show "look n' key = (if key \<in> {keyof n @ c # cs} then v else look n key)"
  proof (rule look_eqI)
    show "keyof n' = keyof n" using add by (simp add: n' keyof_def)
    fix ds
    show "sub n' ds = (if keyof n @ ds \<in> {keyof n @ c # cs} then v else sub n ds)"
    proof (cases ds)
      case Nil
      then show ?thesis using add(6) by (simp add: n')
    next
      case (Cons e es)
      then show ?thesis using add(2) [of e es] assms(2) by (auto simp: n' look_leaf)
    qed
  qed auto
qed

lemma look_path:
  assumes "rwf p" "rvalue p = None" "child p = [c \<mapsto> m]"
  shows "look (set_key (keyof p @ keyof m) m) key = look p key"
proof (cases "prefix (keyof p) key")
  case True
  then obtain ds where ds: "key = keyof p @ ds" by (auto elim: prefixE)
  have m: "keyok m c" using rwf_child [OF assms(1), of c m] assms(3) by simp
  have "look (set_key (keyof p @ keyof m) m) key = look m ds" by (simp add: look_def ds sub_fields)
  moreover have "look p key = sub p ds" by (simp add: look_def ds)
  moreover have "sub p ds = look m ds"
  proof (cases ds)
    case Nil
    then show ?thesis using look_first(2) [OF m] assms(2) by simp
  next
    case (Cons d es)
    then show ?thesis using look_first(1) [OF m, of d es] by (auto simp del: sub.simps simp: sub_Cons [OF assms(1)] assms(3))
  qed
  ultimately show ?thesis by simp
next
  case False
  then have "\<not> prefix (keyof p @ keyof m) key" by (auto simp: prefix_def)
  with False show ?thesis by (simp add: look_def)
qed

lemma look_empty:
  assumes "rwf n" "rvalue n = None" "rcount n = 0"
  shows "look n key = None"
proof -
  have "finite {c. child n c \<noteq> None}" by (rule finite_subset [OF subset_UNIV]) simp
  then have "child n c = None" for c using rwf_shape [OF assms(1)] assms(3) by (auto simp: shape_def)
  then have "sub n cs = None" for cs using assms(2) by (cases cs) simp_all
  then show ?thesis by (simp add: look_def)
qed

lemma remove_child_look:
  assumes "rwf p" "rwf n" "keyok n c" "child p c \<noteq> None" "\<And>key. look n key = None"
  obtains q where "radix_tree_node_remove_child p n = Some q" "rwf q" "rkey q = rkey p" "look q = look (set_child p n)"
proof -
  note key = node_key0_ok [OF assms(3)] and sc = set_child_ok [OF assms(1-4)]
  have "child p (node_key0 n) \<noteq> None" using assms(4) key by simp
  from remove_child_ok [OF rwf_shape [OF assms(1)] this] obtain q
    where q: "radix_tree_node_remove_child p n = Some q" "shape q" "child q = (child p)(c := None)" "rkey q = rkey p" "rvalue q = rvalue p"
    unfolding key by blast
  have r: "rwf q" using q rwf_child [OF assms(1)] by (intro rwfI) (auto split: if_splits)
  have "sub q cs = sub (set_child p n) cs" for cs
    using q sc assms(5) by (cases cs) (simp_all del: sub.simps(2) add: sub_Cons [OF r] sub_Cons [OF sc(1)])
  moreover have "keyof q = keyof (set_child p n)" using q sc by (simp add: keyof_def)
  ultimately have "look q = look (set_child p n)" by (simp add: look_def fun_eq_iff)
  with q r show thesis by (intro that)
qed


lemma key_common:
  assumes "\<not> prefix nk str"
  defines "common \<equiv> radix_tree_key_common str nk"
  obtains e r s where "nk = common @ e # r" "str = common @ s" "s = [] \<or> hd s \<noteq> e"
proof -
  have "\<exists>e r s. nk = radix_tree_key_common str nk @ e # r \<and> str = radix_tree_key_common str nk @ s \<and> (s = [] \<or> hd s \<noteq> e)"
    using assms(1)
    by (induction str nk rule: radix_tree_key_common.induct) (auto simp: neq_Nil_conv)
  with that show thesis unfolding common_def by blast
qed

lemma split_look:
  fixes n :: "'v rnode" and v
  assumes "rwf n" "keyok n c" "\<not> prefix (keyof n) (c # cs)"
  defines "s \<equiv> radix_tree_split n (c # cs) v"
  shows "rwf s" "keyok s c" "look s key = (if key \<in> {c # cs} then v else look n key)"
proof -
  obtain e r t where k: "keyof n = radix_tree_key_common (c # cs) (keyof n) @ e # r"
      "c # cs = radix_tree_key_common (c # cs) (keyof n) @ t" "t = [] \<or> hd t \<noteq> e"
    using assms(3) by (rule key_common)
  define common where "common = radix_tree_key_common (c # cs) (keyof n)"
  define m where "m = set_key (e # r) n"
  define inter where "inter = radix_tree_node_add_child (RNode (Some common) None 0 (replicate 16 None)) m"
  note k = k [folded common_def]
  have nk: "rkey n = Some (common @ e # r)" using k(1) keyof_ok [OF assms(2)] by auto
  have comm: "radix_tree_key_common (c # cs) (common @ e # r) = common" using common_def k(1) by simp
  have drops: "drop (length common) (c # cs) = t" "drop (length common) (common @ e # r) = e # r"
    unfolding k(2) by simp_all
  have s: "s = (if t \<noteq> [] then snd (radix_tree_node_alloc inter t v) else set_value v inter)"
    unfolding s_def radix_tree_split_def nk Let_def option.sel comm drops by (simp add: inter_def m_def)
  have m: "rwf m" "keyok m e" by (simp_all add: m_def rwf_fields assms(1)) (simp add: keyok_def)
  note ok = add_child_ok [OF shape_init, of "Some common" None m, folded inter_def, unfolded node_key0_ok [OF m(2)]]
  have inter: "rwf inter" "keyof inter = common" "rvalue inter = None" "child inter = [e \<mapsto> m]"
    using add_child_look(1) [OF rwf_leaf m, of "Some common" None] ok
    by (simp_all add: inter_def keyof_def fun_eq_iff)
  have "set_key (keyof inter @ keyof m) m = n" using nk by (cases n) (simp add: inter m_def set_key_def)
  then have same: "look inter key = look n key" for key using look_path [OF inter(1,3,4)] by metis
  have c: "\<exists>ks. common = c # ks" if "keyof n = c # x" for x
    using that by (simp add: common_def)
  then have first: "\<exists>ks. common = c # ks" using keyof_ok [OF assms(2)] by blast
  show "rwf s" "keyok s c" "look s key = (if key \<in> {c # cs} then v else look n key)"
  proof (atomize (full), cases t)
    case Nil
    then have "s = set_value v inter" "common = c # cs" using k(2) by (simp_all add: s)
    then show "rwf s \<and> keyok s c \<and> look s key = (if key \<in> {c # cs} then v else look n key)"
      using inter ok(3) by (simp add: rwf_fields look_set_value same keyok_def)
  next
    case (Cons d ds)
    then have "child inter d = None" "common @ d # ds = c # cs" using k(2,3) inter(4) by auto
    moreover have "s = snd (radix_tree_node_alloc inter (d # ds) v)" using Cons by (simp add: s)
    ultimately show "rwf s \<and> keyok s c \<and> look s key = (if key \<in> {c # cs} then v else look n key)"
      using alloc_look [OF inter(1), of d ds v] ok(3) first by (simp add: keyok_def inter(2) same)
  qed
qed


section \<open>Insertion\<close>

definition radix_ok :: "'v rnode \<Rightarrow> bool" where
  "radix_ok t \<longleftrightarrow> rwf t \<and> rkey t = None"

lemma plug_replace:
  assumes "zipper ps n \<pi>" "rwf n'" "rkey n' = rkey n \<or> ps \<noteq> [] \<and> keyok n c \<and> keyok n' c"
    and "\<And>key. look n' key = (if key \<in> K then v else look n key)" "\<And>k. ps \<noteq> [] \<Longrightarrow> k \<in> K \<Longrightarrow> \<exists>cs. k = node_key0 n # cs"
  shows "radix_ok (plug n' ps)" "look (plug n' ps) key = (if key \<in> (@) \<pi> ` K then v else look (plug n ps) key)"
proof -
  have k0: "node_key0 n' = node_key0 n" using assms(3) by (auto simp: node_key0_ok) (simp add: node_key0_def)
  have z: "zipper ps n' \<pi>"
  proof (cases "rkey n' = rkey n")
    case True
    then show ?thesis using zipper_same [OF assms(1,2)] by simp
  next
    case False
    then have k: "keyok n c" "keyok n' c" and ne: "ps \<noteq> []" using assms(3) by auto
    obtain p qs where ps: "ps = p # qs" using ne by (cases ps) auto
    obtain \<pi>' d where "\<pi> = \<pi>' @ keyof p" "zipper qs p \<pi>'" "keyok n d" "child p d \<noteq> None"
      using assms(1) unfolding ps by (rule zipper_up)
    moreover from this have "d = c" using k node_key0_ok by blast
    ultimately show ?thesis using zipper.step [of qs p \<pi>' n' c] k assms(2) ps by simp
  qed
  show "radix_ok (plug n' ps)" using plug_rwf [OF z] by (simp add: radix_ok_def)
  show "look (plug n' ps) key = (if key \<in> (@) \<pi> ` K then v else look (plug n ps) key)"
    using assms(1) z k0 assms(4,5) by (rule plug_look)
qed

lemma zipper_down:
  assumes "zipper ps n \<pi>" "child n c = Some ch"
  shows "zipper (n # ps) ch (\<pi> @ keyof n)" "keyok ch c" "rwf ch" "plug ch (n # ps) = plug n ps" "node_key0 ch = c"
proof -
  have ch: "keyok ch c" "rwf ch" using rwf_child [OF zipper_rwf [OF assms(1)] assms(2)] by simp_all
  then show "keyok ch c" "rwf ch" "node_key0 ch = c" by (simp_all add: node_key0_ok)
  show "zipper (n # ps) ch (\<pi> @ keyof n)" using zipper.step [OF assms(1) ch(2,1)] assms(2) by simp
  show "plug ch (n # ps) = plug n ps"
    using set_child_same [OF rwf_shape [OF zipper_rwf [OF assms(1)]], of ch] assms(2) node_key0_ok [OF ch(1)] by simp
qed

definition updated :: "'v rnode \<Rightarrow> u8 list \<Rightarrow> 'v option \<Rightarrow> 'v rnode \<Rightarrow> bool" where
  "updated t0 k v t \<longleftrightarrow> radix_ok t \<and> (\<forall>key. look t key = (if key = k then v else look t0 key))"

lemma insert_step:
  assumes "zipper path n \<pi>"
  shows "\<exists>t. (case child n c of
        Some ch \<Rightarrow> radix_tree_insert_loop (n # path) ch (c # cs) val
      | None \<Rightarrow> Some (plug (snd (radix_tree_node_alloc n (c # cs) val)) path)) = Some t
    \<and> updated (plug n path) (\<pi> @ keyof n @ c # cs) val t"
  using assms
proof (induction "length cs" arbitrary: path n \<pi> c cs rule: less_induct)
  case less
  note r = zipper_rwf [OF less.prems]
  show ?case
  proof (cases "child n c")
    case None
    have first: "\<exists>ds. keyof n @ c # cs = node_key0 n # ds" if "path \<noteq> []"
      using zipper_Cons_keyok [OF less.prems that] by (metis keyof_ok node_key0_ok append_Cons)
    from plug_replace [OF less.prems alloc_look(1) [OF r None], where K = "{keyof n @ c # cs}" and v = val, OF _ alloc_look(3) [OF r None]]
    show ?thesis using None alloc_look(2) [OF r None] first by (simp add: updated_def)
  next
    case (Some ch)
    note z = zipper_down [OF less.prems Some]
    have rep: "updated (plug n path) (\<pi> @ keyof n @ c # cs) val (plug m (n # path))"
      if "rwf m" "keyok m c" "\<And>key. look m key = (if key \<in> {c # cs} then val else look ch key)" for m
      using plug_replace [OF z(1) that(1), where K = "{c # cs}" and c = c, OF _ that(3)] that(2) z(2,5)
      unfolding z(4) updated_def by simp
    note unfold = radix_tree_insert_loop.simps [of "n # path"] Let_def node_match [OF z(2)] find_child skip_key
    consider (same) "keyof ch = c # cs" | (longer) d ds where "c # cs = keyof ch @ d # ds" | (part) "\<not> prefix (keyof ch) (c # cs)"
      by (metis append.right_neutral list.exhaust prefix_def)
    then have "\<exists>t. radix_tree_insert_loop (n # path) ch (c # cs) val = Some t \<and> updated (plug n path) (\<pi> @ keyof n @ c # cs) val t"
    proof cases
      case same
      then show ?thesis unfolding unfold using rep [of "set_value val ch"] z(2,3) by (simp add: rwf_fields look_set_value keyok_def)
    next
      case longer
      have "length ds < length cs" using longer keyof_ok [OF z(2)] by auto
      note IH = less.hyps [OF this z(1), of d, unfolded z(4)]
      show ?thesis unfolding unfold unfolding longer using IH by (simp cong: option.case_cong add: key0_def)
    next
      case part
      note sp = split_look [OF z(3,2) part, of val]
      have "radix_tree_node_add_child n (radix_tree_split ch (c # cs) val) = set_child n (radix_tree_split ch (c # cs) val)"
        using set_child_eq [of n] Some by (simp add: node_key0_ok [OF sp(2)])
      then show ?thesis unfolding unfold using part rep [OF sp] by auto
    qed
    with Some show ?thesis by simp
  qed
qed

lemma insert_ok:
  assumes "radix_ok tree" "key \<noteq> []"
  shows "\<exists>tree'. radix_tree_insert tree key val = Some tree' \<and> updated tree key val tree'"
proof -
  obtain c cs where key: "key = c # cs" using assms(2) by (cases key) auto
  have z: "zipper [] tree []" and root: "rkey tree = None" using assms(1) by (auto simp: radix_ok_def intro: zipper.root)
  from insert_step [OF z, of c cs val] root show ?thesis
    by (simp add: radix_tree_insert_def key radix_tree_insert_loop.simps [of "[]"] node_match_root find_child skip_key
      keyof_def key0_def cong: option.case_cong)
qed

section \<open>Lookup and removal\<close>

definition found :: "'v rnode \<Rightarrow> u8 list \<Rightarrow> ('v rpath \<times> 'v rnode) option \<Rightarrow> bool" where
  "found t key r \<longleftrightarrow> (case r of None \<Rightarrow> look t key = None
     | Some (ps, m) \<Rightarrow> \<exists>\<pi>. zipper ps m \<pi> \<and> key = \<pi> @ keyof m \<and> plug m ps = t \<and> look t key = rvalue m)"

lemma plug_sub: "zipper path n \<pi> \<Longrightarrow> look (plug n path) (\<pi> @ keyof n @ cs) = sub n cs"
proof (induction path arbitrary: n \<pi> cs)
  case Nil
  then show ?case by (auto elim!: zipper_NilE simp: look_append)
next
  case (Cons p ps)
  obtain \<pi>' c where z: "\<pi> = \<pi>' @ keyof p" "zipper ps (set_child p n) \<pi>'" "keyok n c" "child p c \<noteq> None" "rwf n" "rwf p"
    using Cons.prems(1) by (rule zipper_up)
  note ok = set_child_ok [OF z(6,5,3,4)]
  obtain ks where ks: "keyof n = c # ks" using keyof_ok [OF z(3)] by blast
  have "look (plug (set_child p n) ps) (\<pi>' @ keyof (set_child p n) @ keyof n @ cs) = sub (set_child p n) (keyof n @ cs)"
    using Cons.IH [OF z(2)] .
  also have "\<dots> = sub n cs"
    using sub_Cons [OF ok(1), of c "ks @ cs"] look_append [of n cs] by (simp add: ks ok(2))
  finally show ?case using z(1) ok(5) by simp
qed

lemma lookup_step:
  assumes "zipper path n \<pi>"
  shows "\<exists>r. (case child n c of Some ch \<Rightarrow> node_lookup_loop (n # path) ch (c # cs) | None \<Rightarrow> Some None) = Some r
    \<and> found (plug n path) (\<pi> @ keyof n @ c # cs) r"
  using assms
proof (induction "length cs" arbitrary: path n \<pi> c cs rule: less_induct)
  case less
  note r = zipper_rwf [OF less.prems]
  show ?case
  proof (cases "child n c")
    case None
    then show ?thesis by (simp add: found_def plug_sub [OF less.prems])
  next
    case (Some ch)
    note z = zipper_down [OF less.prems Some]
    note unfold = node_lookup_loop.simps [of "n # path"] Let_def node_match [OF z(2)] find_child skip_key
    consider (same) "keyof ch = c # cs" | (longer) d ds where "c # cs = keyof ch @ d # ds" | (part) "\<not> prefix (keyof ch) (c # cs)"
      by (metis append.right_neutral list.exhaust prefix_def)
    then have "\<exists>r. node_lookup_loop (n # path) ch (c # cs) = Some r \<and> found (plug n path) (\<pi> @ keyof n @ c # cs) r"
    proof cases
      case same
      then show ?thesis unfolding unfold using z(1,4) plug_sub [OF z(1), of "[]"]
        by (auto simp: found_def)
    next
      case longer
      have "length ds < length cs" using longer keyof_ok [OF z(2)] by auto
      note IH = less.hyps [OF this z(1), of d, unfolded z(4)]
      show ?thesis unfolding unfold unfolding longer using IH by (simp cong: option.case_cong add: key0_def)
    next
      case part
      then have "look ch (c # cs) = None" by (simp add: look_def)
      then have "look (plug n path) (\<pi> @ keyof n @ c # cs) = None"
        unfolding plug_sub [OF less.prems] sub_Cons [OF r] Some by simp
      then show ?thesis unfolding unfold using part by (auto simp: found_def)
    qed
    with Some show ?thesis by simp
  qed
qed

lemma node_lookup_ok:
  assumes "radix_ok tree" "key \<noteq> []"
  shows "\<exists>r. radix_tree_node_lookup tree key = Some r \<and> found tree key r"
proof -
  obtain c cs where key: "key = c # cs" using assms(2) by (cases key) auto
  have z: "zipper [] tree []" and root: "rkey tree = None" using assms(1) by (auto simp: radix_ok_def intro: zipper.root)
  from lookup_step [OF z, of c cs] root show ?thesis
    by (simp add: radix_tree_node_lookup_def key node_lookup_loop.simps [of "[]"] node_match_root find_child skip_key
      keyof_def key0_def cong: option.case_cong)
qed

lemma lookup_ok:
  assumes "radix_ok tree" "key \<noteq> []"
  shows "radix_tree_lookup tree key = Some (look tree key)"
proof -
  obtain r where "radix_tree_node_lookup tree key = Some r" "found tree key r" using node_lookup_ok [OF assms] by blast
  then show ?thesis by (cases r) (auto simp: radix_tree_lookup_def found_def)
qed

lemma optimize_ok:
  assumes "zipper path n \<pi>"
  shows "\<exists>t. radix_tree_optimize n path = Some t \<and> radix_ok t \<and> (\<forall>key. look t key = look (plug n path) key)"
  using assms
proof (induction path arbitrary: n \<pi>)
  case Nil
  then show ?case by (auto simp: radix_ok_def elim: zipper_NilE)
next
  case (Cons p ps)
  obtain \<pi>' c where z: "\<pi> = \<pi>' @ keyof p" "zipper ps (set_child p n) \<pi>'" "zipper ps p \<pi>'" "keyok n c" "child p c \<noteq> None" "rwf n" "rwf p"
    using Cons.prems(1) by (rule zipper_up)
  have keep: ?case if "radix_tree_optimize n (p # ps) = Some (plug n (p # ps))"
    using plug_rwf [OF Cons.prems] that by (simp add: radix_ok_def)
  consider "rvalue n \<noteq> None" | "rvalue n = None" "rcount n \<noteq> 1" "rcount n \<noteq> 0" | (merge) "rvalue n = None" "rcount n = 1" | (drop) "rvalue n = None" "rcount n = 0"
    by blast
  then show ?case
  proof cases
    case merge
    obtain d m where m: "radix_tree_only_child n = Some m" "child n = [d \<mapsto> m]"
      using only_child_ok [OF rwf_shape [OF z(6)] merge(2)] .
    let ?m = "set_key (the (rkey n) @ the (rkey m)) m"
    have d: "keyok m d" "rwf m" "node_key0 m = d" using rwf_child [OF z(6), of d m] m(2) by (simp_all add: node_key0_ok)
    have key: "the (rkey n) = keyof n" "the (rkey m) = keyof m" using keyof_ok [OF z(4)] keyof_ok [OF d(1)] by auto
    obtain q where q: "radix_tree_node_remove_child n m = Some q"
      using remove_child_ok [OF rwf_shape [OF z(6)], of m] m(2) d(3) by auto
    have m_ok: "keyok ?m c" using keyof_ok [OF z(4)] by (auto simp: keyok_def key)
    have "radix_tree_node_add_child p ?m = set_child p ?m" using set_child_eq [of p ?m] z(5) node_key0_ok [OF m_ok] by simp
    then have "radix_tree_optimize n (p # ps) = Some (plug ?m (p # ps))"
      using merge m(1) q by simp
    moreover have "radix_ok (plug ?m (p # ps))" "look (plug ?m (p # ps)) k = look (plug n (p # ps)) k" for k
      using plug_replace [OF Cons.prems rwf_fields(2) [OF d(2)], where K = "{}" and c = c]
        look_path [OF z(6) merge(1) m(2)] m_ok z(4) by (simp_all add: key)
    ultimately show ?thesis by blast
  next
    case drop
    obtain q where q: "radix_tree_node_remove_child p n = Some q" "rwf q" "rkey q = rkey p" "look q = look (set_child p n)"
      using remove_child_look [OF z(7,6,4,5) look_empty [OF z(6) drop]] .
    have zq: "zipper ps q \<pi>'" using zipper_same [OF z(3) q(2,3)] .
    have "rkey q = rkey (set_child p n)" using q set_child_ok(3) [OF z(7,6,4,5)] by simp
    then have "look (plug q ps) k = look (plug (set_child p n) ps) k" for k
      using plug_replace(2) [OF z(2) q(2), where K = "{}"] q(4) by simp
    with Cons.IH [OF zq] show ?thesis using drop q(1) by simp
  qed (use keep in \<open>simp_all\<close>)
qed

lemma remove_ok:
  assumes "radix_ok tree" "key \<noteq> []"
  shows "\<exists>tree'. radix_tree_remove tree key = Some (look tree key, tree') \<and> updated tree key None tree'"
proof -
  obtain r where r: "radix_tree_node_lookup tree key = Some r" "found tree key r" using node_lookup_ok [OF assms] by blast
  show ?thesis
  proof (cases r)
    case None
    then show ?thesis using r assms(1) by (simp add: radix_tree_remove_def found_def updated_def)
  next
    case (Some p)
    then obtain ps m \<pi> where p: "r = Some (ps, m)" "zipper ps m \<pi>" "key = \<pi> @ keyof m" "plug m ps = tree" "look tree key = rvalue m"
      using r(2) by (cases p) (auto simp: found_def)
    have first: "\<exists>ds. keyof m = node_key0 m # ds" if "ps \<noteq> []"
      using zipper_Cons_keyok [OF p(2) that] by (metis keyof_ok node_key0_ok)
    let ?m = "set_value None m"
    have m: "rwf ?m" "rkey ?m = rkey m" by (simp_all add: rwf_fields zipper_rwf [OF p(2)])
    have "look (plug ?m ps) k = (if k = key then None else look tree k)" for k
      using plug_replace(2) [OF p(2) m(1), where K = "{keyof m}" and v = None, OF _ look_set_value] m(2) first p(3,4) by auto
    then show ?thesis
      using optimize_ok [OF zipper_same [OF p(2) m]] r(1) p(1,5) by (auto simp: radix_tree_remove_def updated_def)
  qed
qed


section \<open>Clearing\<close>

definition vals :: "'v rnode \<Rightarrow> 'v set" where
  "vals n = {v. \<exists>c cs. sub n (c # cs) = Some v}"

definition cleared :: "'v rnode \<Rightarrow> ('v list \<times> 'v rnode) option \<Rightarrow> bool" where
  "cleared n r \<longleftrightarrow> (\<exists>vs n'. r = Some (vs, n') \<and> set vs = vals n \<and> shape n' \<and> child n' = Map.empty
     \<and> rkey n' = rkey n \<and> rvalue n' = rvalue n)"

lemma vals_no_child: "child n = Map.empty \<Longrightarrow> vals n = {}"
  by (simp add: vals_def)

lemma vals_remove:
  assumes "rwf n" "rwf q" "child n c = Some ch" "child q = (child n)(c := None)"
  shows "vals n = vals ch \<union> set_option (rvalue ch) \<union> vals q"
proof -
  have ch: "keyok ch c" using rwf_child [OF assms(1,3)] by simp
  obtain ks where ks: "keyof ch = c # ks" using keyof_ok [OF ch] by blast
  have sc: "sub n (c # cs) = look ch (c # cs)" for cs by (simp del: sub.simps add: sub_Cons [OF assms(1)] assms(3))
  have "vals n = {v. \<exists>cs. look ch (c # cs) = Some v} \<union> {v. \<exists>d cs. d \<noteq> c \<and> sub n (d # cs) = Some v}"
    unfolding vals_def sc [symmetric] by (auto simp del: sub.simps)
  also have "{v. \<exists>d cs. d \<noteq> c \<and> sub n (d # cs) = Some v} = vals q"
    by (auto simp: vals_def sub_Cons [OF assms(1)] sub_Cons [OF assms(2)] assms(4) simp del: sub.simps split: if_splits)
  also have "{v. \<exists>cs. look ch (c # cs) = Some v} = {v. \<exists>cs. sub ch cs = Some v}"
  proof (intro set_eqI iffI; clarify)
    show "\<exists>cs. sub ch cs = Some v" if "look ch (c # cs) = Some v" for v cs
      using that unfolding look_def by (meson option.distinct(1))
    show "\<exists>cs. look ch (c # cs) = Some v" if "sub ch cs = Some v" for v cs
      using that look_append [of ch cs] ks by (intro exI [of _ "ks @ cs"]) simp
  qed
  also have "{v. \<exists>cs. sub ch cs = Some v} = vals ch \<union> set_option (rvalue ch)"
    unfolding vals_def by (auto simp del: sub.simps(2)) (metis neq_Nil_conv sub.simps(1))+
  finally show ?thesis by simp
qed

lemma clear_loop_ok:
  assumes "rwf m" "\<And>c ch. child m c = Some ch \<Longrightarrow> cleared ch (radix_tree_node_clear ch 0 0)"
    and "\<And>c. unat c < 16 * i + j \<Longrightarrow> child m c = None" "i \<le> 16" "j \<le> 16"
  shows "cleared m (radix_tree_node_clear m i j)"
  using assms
proof (induction "17 * 16 - (17 * i + j)" arbitrary: m i j rule: less_induct)
  case less
  note unf = radix_tree_node_clear.simps [of m i j]
  have idx: "unat c = 16 * hi c + lo c" for c by (simp add: hi_lo)
  have next_row: "cleared m (radix_tree_node_clear m (i + 1) 0)" if "i < 16" and row: "\<And>c. hi c = i \<Longrightarrow> child m c = None"
  proof (rule less.hyps)
    show "17 * 16 - (17 * (i + 1) + 0) < 17 * 16 - (17 * i + j)" using that(1) less.prems(5) by simp
    show "child m c = None" if c: "unat c < 16 * (i + 1) + 0" for c
    proof (cases "hi c = i")
      case False
      then have "hi c < i" using c unfolding idx by arith
      then have "unat c < 16 * i + j" using lo_less [of c] unfolding idx by linarith
      then show ?thesis by (rule less.prems(3))
    qed (rule row)
  qed (use that less.prems in auto)
  have row_empty: "child m c = None" if "j \<ge> 16" "hi c = i" for c
    using that(1) idx [of c, unfolded that(2)] lo_less [of c] by (intro less.prems(3)) linarith
  show ?case
  proof (cases "i = 16")
    case True
    have "child m c = None" for c
      using less.prems(3) [of c] True hi_less [of c] lo_less [of c] idx [of c] by simp
    then have "child m = Map.empty" by (simp add: fun_eq_iff)
    then show ?thesis unfolding unf using True rwf_shape [OF less.prems(1)] by (simp add: cleared_def vals_no_child)
  next
    case False
    then have i: "i < 16" using less.prems(4) by simp
    consider (none) "rtable m ! i = None" | (end_of_row) nodes count where "rtable m ! i = Some (nodes, count)" "j \<ge> 16"
      | (free) nodes count where "rtable m ! i = Some (nodes, count)" "j < 16" "nodes ! j = None"
      | (used) nodes count ch where "rtable m ! i = Some (nodes, count)" "j < 16" "nodes ! j = Some ch"
      by (cases "rtable m ! i"; cases "j < 16") (auto, metis not_None_eq)
    then show ?thesis
    proof cases
      case none
      then have "child m c = None" if "hi c = i" for c using that by (simp add: child_def)
      then show ?thesis unfolding unf using next_row [OF i] none i by simp
    next
      case end_of_row
      then show ?thesis unfolding unf using next_row [OF i row_empty] i by simp
    next
      case free
      have "cleared m (radix_tree_node_clear m i (j + 1))"
      proof (rule less.hyps)
        show "child m c = None" if c: "unat c < 16 * i + (j + 1)" for c
        proof (cases "unat c = 16 * i + j")
          case True
          then have "hi c = i \<and> lo c = j" using free(2) by (simp add: hi_lo)
          then show ?thesis using free by (simp add: child_def)
        qed (use c less.prems(3) in simp)
      qed (use less.prems free i in auto)
      then show ?thesis unfolding unf using free i by simp
    next
      case used
      obtain c where c: "hi c = i" "lo c = j" using hi_lo_ex [OF i used(2)] by blast
      then have ch: "child m c = Some ch" using used by (simp add: child_def)
      obtain vs ch' where vs: "radix_tree_node_clear ch 0 0 = Some (vs, ch')" "set vs = vals ch" "rkey ch' = rkey ch" "rvalue ch' = rvalue ch"
        using less.prems(2) [OF ch] by (auto simp: cleared_def)
      have "keyok ch' c" using rwf_child [OF less.prems(1) ch] vs(3) by (simp add: keyok_def)
      note key = node_key0_ok [OF this]
      obtain q where q: "radix_tree_node_remove_child m ch' = Some q" "shape q" "child q = (child m)(c := None)" "rkey q = rkey m" "rvalue q = rvalue m"
        using remove_child_ok [OF rwf_shape [OF less.prems(1)], of ch'] ch unfolding key by auto
      have r: "rwf q" using q rwf_child [OF less.prems(1)] by (intro rwfI) (auto split: if_splits)
      have "cleared q (radix_tree_node_clear q i (j + 1))"
      proof (rule less.hyps)
        show "child q d = None" if d: "unat d < 16 * i + (j + 1)" for d
        proof (cases "d = c")
          case False
          then have "unat d \<noteq> unat c" using unsigned_word_eqI by blast
          then have "unat d < 16 * i + j" using d idx [of c, unfolded c] by linarith
          then show ?thesis using False less.prems(3) by (simp add: q(3))
        qed (simp add: q(3))
        show "cleared x (radix_tree_node_clear x 0 0)" if "child q d = Some x" for d x
          using less.prems(2) [of d x] that by (auto simp: q(3) split: if_splits)
      qed (use less.prems used i r in auto)
      then obtain ws n' where "radix_tree_node_clear q i (j + 1) = Some (ws, n')" "set ws = vals q" "shape n'" "child n' = Map.empty"
        "rkey n' = rkey m" "rvalue n' = rvalue m" using q by (auto simp: cleared_def)
      then show ?thesis unfolding unf cleared_def
        using used i vs q(1) vals_remove [OF less.prems(1) r ch q(3)] by (auto split: option.splits)
    qed
  qed
qed


lemma node_clear_ok: "rwf n \<Longrightarrow> cleared n (radix_tree_node_clear n 0 0)"
proof (induction rule: rwf.induct)
  case (rwfI n)
  have "rwf n" by (rule rwf.rwfI) (use rwfI in auto)
  then show ?case by (rule clear_loop_ok) (use rwfI.IH in auto)
qed


section \<open>The interface\<close>

text \<open>
  What the device tree, the mount table and the directories of the RAM file system rely on: a table from
  names to values, with operations that always return. Empty names are never in it.
\<close>

datatype 'v table_op = Insert "u8 list" "'v option" | Remove "u8 list"

fun run_ops :: "('t \<Rightarrow> u8 list \<Rightarrow> 'v option \<Rightarrow> 't option) \<Rightarrow> ('t \<Rightarrow> u8 list \<Rightarrow> ('v option \<times> 't) option)
    \<Rightarrow> 't \<Rightarrow> 'v table_op list \<Rightarrow> ('v option list \<times> 't) option" where
  "run_ops ins rem t [] = Some ([], t)"
| "run_ops ins rem t (Insert k v # ops) = do {t \<leftarrow> ins t k v; run_ops ins rem t ops}"
| "run_ops ins rem t (Remove k # ops) = do {
     (v, t) \<leftarrow> rem t k; (vs, t) \<leftarrow> run_ops ins rem t ops; Some (v # vs, t)}"

text \<open>The same operations on a map, with the values that the removals hand to their helper.\<close>

definition put :: "u8 list \<Rightarrow> 'v option \<Rightarrow> (u8 list \<rightharpoonup> 'v) \<Rightarrow> (u8 list \<rightharpoonup> 'v)" where
  "put k v m = (if k = [] then m else m(k := v))"

fun map_ops :: "(u8 list \<rightharpoonup> 'v) \<Rightarrow> 'v table_op list \<Rightarrow> 'v option list \<times> (u8 list \<rightharpoonup> 'v)" where
  "map_ops m [] = ([], m)"
| "map_ops m (Insert k v # ops) = map_ops (put k v m) ops"
| "map_ops m (Remove k # ops) = (let (vs, m') = map_ops (put k None m) ops in (m k # vs, m'))"

locale name_table =
  fixes invar :: "'t \<Rightarrow> bool"
    and abs :: "'t \<Rightarrow> (u8 list \<rightharpoonup> 'v)"
    and empty :: 't
    and lookup :: "'t \<Rightarrow> u8 list \<Rightarrow> 'v option option"
    and ins :: "'t \<Rightarrow> u8 list \<Rightarrow> 'v option \<Rightarrow> 't option"
    and rem :: "'t \<Rightarrow> u8 list \<Rightarrow> ('v option \<times> 't) option"
  assumes empty: "invar empty" "abs empty = Map.empty"
    and lookup: "invar t \<Longrightarrow> lookup t k = Some (abs t k)"
    and ins: "invar t \<Longrightarrow> \<exists>t'. ins t k v = Some t' \<and> invar t' \<and> abs t' = put k v (abs t)"
    and rem: "invar t \<Longrightarrow> \<exists>t'. rem t k = Some (abs t k, t') \<and> invar t' \<and> abs t' = put k None (abs t)"
begin

lemma run_ops_map:
  assumes "invar t"
  shows "\<exists>t'. run_ops ins rem t ops = Some (fst (map_ops (abs t) ops), t') \<and> invar t' \<and> abs t' = snd (map_ops (abs t) ops)"
  using assms
proof (induction ops arbitrary: t)
  case (Cons x ops)
  show ?case
  proof (cases x)
    case (Insert k v)
    then obtain t1 where "ins t k v = Some t1" "invar t1" "abs t1 = put k v (abs t)" using ins Cons.prems by blast
    with Cons.IH [of t1] Insert show ?thesis by simp
  next
    case (Remove k)
    then obtain t1 where "rem t k = Some (abs t k, t1)" "invar t1" "abs t1 = put k None (abs t)" using rem Cons.prems by blast
    with Cons.IH [of t1] Remove show ?thesis by (auto simp: Let_def split: prod.splits)
  qed
qed simp

lemma history:
  "\<exists>t. run_ops ins rem empty ops = Some (fst (map_ops Map.empty ops), t)
     \<and> (\<forall>k. lookup t k = Some (snd (map_ops Map.empty ops) k))"
  using run_ops_map [OF empty(1), of ops] unfolding empty(2) using lookup by metis

end

definition tree_map :: "'v rnode \<Rightarrow> (u8 list \<rightharpoonup> 'v)" where
  "tree_map t key = (if key = [] then None else look t key)"

lemma updated_map: "updated t k v t' \<Longrightarrow> k \<noteq> [] \<Longrightarrow> tree_map t' = put k v (tree_map t)"
  by (auto simp: updated_def put_def tree_map_def fun_eq_iff)

lemma no_children_map:
  assumes "rkey t = None" "child t = Map.empty"
  shows "tree_map t = Map.empty"
proof
  fix key show "tree_map t key = None" using assms by (cases key) (simp_all add: tree_map_def look_def keyof_def)
qed

lemma radix_ok_init: "radix_ok radix_tree_init" "tree_map radix_tree_init = Map.empty"
  by (simp_all add: radix_ok_def radix_tree_init_def rwf_leaf no_children_map fun_eq_iff)

interpretation radix: name_table radix_ok tree_map radix_tree_init radix_tree_lookup radix_tree_insert radix_tree_remove
proof unfold_locales
  show "radix_ok radix_tree_init" "tree_map radix_tree_init = Map.empty" by (rule radix_ok_init)+
  fix t :: "'v rnode" and k v assume t: "radix_ok t"
  show "radix_tree_lookup t k = Some (tree_map t k)"
    using lookup_ok [OF t] by (auto simp: tree_map_def radix_tree_lookup_def radix_tree_node_lookup_def)
  show "\<exists>t'. radix_tree_insert t k v = Some t' \<and> radix_ok t' \<and> tree_map t' = put k v (tree_map t)"
    using insert_ok [OF t, of k v] updated_map [of t k v] t
    by (cases "k = []") (auto simp: updated_def radix_tree_insert_def put_def)
  show "\<exists>t'. radix_tree_remove t k = Some (tree_map t k, t') \<and> radix_ok t' \<and> tree_map t' = put k None (tree_map t)"
    using remove_ok [OF t, of k] updated_map [of t k None] t
    by (cases "k = []") (auto simp: updated_def radix_tree_remove_def radix_tree_node_lookup_def put_def tree_map_def)
qed

section \<open>Properties\<close>

text \<open>
  Property C7. From an initialised radix tree, any sequence of insertions and removals returns (no assertion
  fails, no \<open>fatal\<close> is reached, every loop ends), each removal hands its helper the value the name had, and
  afterwards a lookup of any name gives what the same sequence gives on a map.
\<close>

theorem radix_tree_refines_map:
  "\<exists>t. run_ops radix_tree_insert radix_tree_remove radix_tree_init ops = Some (fst (map_ops Map.empty ops), t)
     \<and> (\<forall>key. radix_tree_lookup t key = Some (snd (map_ops Map.empty ops) key))"
  by (rule radix.history)

text \<open>
  Further property. Clearing a well-formed tree returns, calls the helper on exactly the values that are in the
  tree below the root, and leaves an empty well-formed tree.
\<close>

theorem radix_tree_clear_correct:
  assumes "radix_ok tree"
  shows "\<exists>vs tree'. radix_tree_clear tree = Some (vs, tree') \<and> set vs = ran (tree_map tree)
    \<and> radix_ok tree' \<and> radix_tree_empty tree' \<and> (\<forall>key. radix_tree_lookup tree' key = Some None)"
proof -
  obtain vs t where t: "radix_tree_clear tree = Some (vs, t)" "set vs = vals tree" "shape t" "child t = Map.empty" "rkey t = None"
    using node_clear_ok [of tree] assms by (auto simp: cleared_def radix_tree_clear_def radix_ok_def)
  have "rwf t" by (rule rwfI) (use t in auto)
  then have ok: "radix_ok t" using t(5) by (simp add: radix_ok_def)
  have "vals tree = ran (tree_map tree)"
    using assms by (auto simp: vals_def ran_def tree_map_def look_def radix_ok_def keyof_def neq_Nil_conv simp del: sub.simps)
  moreover have "radix_tree_empty t" using t(3,4) by (simp add: radix_tree_empty_def shape_def)
  moreover have "radix_tree_lookup t key = Some None" for key
    using radix.lookup [OF ok] no_children_map [OF t(5,4)] by simp
  ultimately show ?thesis using t(1,2) ok by simp
qed

definition radix_example :: "nat rnode" where
  "radix_example = RNode None None 1 ((replicate 16 None)[6 := Some ((replicate 16 None)[1 :=
     Some (RNode (Some [0x61]) (Some 5) 0 (replicate 16 None))], 1)])"

lemma radix_example_eq: "radix_tree_insert radix_tree_init [0x61] (Some 5) = Some radix_example"
  by code_simp

theorem radix_tree_clear_correct_witness:
  "\<exists>vs tree'. radix_tree_clear radix_example = Some (vs, tree') \<and> set vs = ran (tree_map radix_example)
    \<and> radix_ok tree' \<and> radix_tree_empty tree' \<and> (\<forall>key. radix_tree_lookup tree' key = Some None)"
proof -
  have "radix_ok radix_example" using radix.ins [OF radix_ok_init(1), of "[0x61]" "Some (5::nat)"] radix_example_eq by simp
  then show ?thesis by (rule radix_tree_clear_correct)
qed

end
