(* ===== verification/Range_Alloc.thy ===== *)
theory Range_Alloc
  imports Kernel_Prelude
begin

text \<open>
  What the kernel's range allocators (\<open>lib/fixed_heap.c\<close>, \<open>mm/kmem.c\<close>) promise, independently of how they
  store it. An arena is cut into consecutive segments, each free or allocated; the allocated ones are the
  blocks. The facts on cutting and joining segments are shared by both allocators, and the locale
  \<open>range_allocator\<close> is the interface their clients rely on.
\<close>

type_synonym segs = "(nat \<times> bool) list"

definition span :: "segs \<Rightarrow> nat" where
  "span ss = sum_list (map fst ss)"

fun blocks :: "nat \<Rightarrow> segs \<Rightarrow> (nat \<times> nat) set" where
  "blocks a [] = {}"
| "blocks a ((n, f) # ss) = (if f then {(a, n)} else {}) \<union> blocks (a + n) ss"

text \<open>No two free segments are neighbours.\<close>

fun coalesced :: "segs \<Rightarrow> bool" where
  "coalesced ((_, f) # (n, g) # ss) \<longleftrightarrow> (f \<or> g) \<and> coalesced ((n, g) # ss)"
| "coalesced _ \<longleftrightarrow> True"

lemma span_simps [simp]: "span [] = 0" "span (s # ss) = fst s + span ss" "span (xs @ ys) = span xs + span ys"
  by (simp_all add: span_def)

lemma length_span: "\<forall>s \<in> set ss. 0 < fst s \<Longrightarrow> length ss \<le> span ss"
  by (induction ss) (auto simp: Suc_le_eq)

lemma blocks_append: "blocks a (xs @ ys) = blocks a xs \<union> blocks (a + span xs) ys"
  by (induction xs arbitrary: a) (auto simp: add.assoc)

lemma blocks_inside: "(p, m) \<in> blocks a ss \<Longrightarrow> a \<le> p \<and> p + m \<le> a + span ss \<and> (m, True) \<in> set ss"
  by (induction a ss rule: blocks.induct) (auto split: if_splits)

lemma blocks_disjoint:
  "(p, m) \<in> blocks a ss \<Longrightarrow> (q, k) \<in> blocks a ss \<Longrightarrow> (p, m) = (q, k) \<or> p + m \<le> q \<or> q + k \<le> p"
proof (induction a ss rule: blocks.induct)
  case (2 a n f ss)
  then show ?case
    using blocks_inside [of p m "a + n" ss] blocks_inside [of q k "a + n" ss] by (cases f) auto
qed simp

lemma blocks_split:
  assumes "(p, m) \<in> blocks a ss"
  obtains xs ys where "ss = xs @ (m, True) # ys" "p = a + span xs"
proof -
  have "\<exists>xs ys. ss = xs @ (m, True) # ys \<and> p = a + span xs"
    using assms
  proof (induction a ss rule: blocks.induct)
    case (2 a n f ss)
    show ?case
    proof (cases "f \<and> (p, m) = (a, n)")
      case True
      then show ?thesis by (intro exI [of _ "[]"] exI [of _ ss]) simp
    next
      case False
      then obtain xs ys where "ss = xs @ (m, True) # ys" "p = a + n + span xs"
        using 2 by (auto split: if_splits)
      then show ?thesis by (intro exI [of _ "(n, f) # xs"] exI [of _ ys]) simp
    qed
  qed simp
  with that show thesis by blast
qed

lemma blocks_pos: "\<forall>(n, f) \<in> set ss. 0 < n \<Longrightarrow> (p, m) \<in> blocks a ss \<Longrightarrow> 0 < m"
  using blocks_inside by fastforce

lemma no_block_in_free:
  assumes "\<forall>(n, f) \<in> set (xs @ (n, False) # ys). 0 < n"
  shows "(a + span xs, m) \<notin> blocks a (xs @ (n, False) # ys)"
  using assms by (fastforce simp: blocks_append dest: blocks_inside)

text \<open>Allocating and freeing a segment, and cutting or joining free ones.\<close>

lemma blocks_alloc:
  "blocks a (xs @ (n, True) # ys) = insert (a + span xs, n) (blocks a (xs @ (n, False) # ys))"
  by (auto simp: blocks_append)

lemma blocks_cut:
  "blocks a (xs @ (n, True) # (m, False) # ys) = insert (a + span xs, n) (blocks a (xs @ (n + m, False) # ys))"
  by (auto simp: blocks_append add.assoc)

lemma blocks_free:
  assumes "\<forall>(n, f) \<in> set (xs @ (n, True) # ys). 0 < n"
  shows "blocks a (xs @ (n, False) # ys) = blocks a (xs @ (n, True) # ys) - {(a + span xs, n)}"
proof -
  have "(a + span xs, n) \<notin> blocks a (xs @ (n, False) # ys)"
    using assms by (auto simp: blocks_append dest!: blocks_inside)
  then show ?thesis by (simp add: blocks_alloc)
qed

lemma blocks_join:
  "blocks a (xs @ (n, False) # (m, False) # ys) = blocks a (xs @ (n + m, False) # ys)"
  by (simp add: blocks_append add.assoc)

lemma coalesced_append:
  "coalesced (xs @ (n, f) # ys) \<longleftrightarrow> coalesced (xs @ [(n, f)]) \<and> coalesced ((n, f) # ys)"
  by (induction xs rule: coalesced.induct) (auto simp: neq_Nil_conv split: list.splits)

lemma coalesced_alloc: "coalesced (xs @ (n, False) # ys) \<Longrightarrow> coalesced (xs @ (m, True) # ys)"
  by (induction xs rule: coalesced.induct) (auto simp: coalesced_append, (cases ys; auto)+)


lemma coalesced_appendD: "coalesced (xs @ ys) \<Longrightarrow> coalesced xs \<and> coalesced ys"
  by (induction xs rule: coalesced.induct) (auto, (cases ys; auto)+)

text \<open>A freed segment joined with a free neighbour behind it.\<close>

fun join_next :: "nat \<Rightarrow> segs \<Rightarrow> segs" where
  "join_next n ((m, False) # ss) = (n + m, False) # ss"
| "join_next n ss = (n, False) # ss"

lemma join_next_ok:
  "blocks a (xs @ join_next n ss) = blocks a (xs @ (n, False) # ss)"
  "coalesced ((n, True) # ss) \<Longrightarrow> coalesced (join_next n ss)"
  using blocks_join [of a xs n] by (cases "(n, ss)" rule: join_next.cases; auto; cases "tl ss"; auto)+

lemma coalesced_size: "coalesced ((n, f) # ys) = coalesced ((m, f) # ys)"
  by (cases ys) auto

lemma coalesced_resize: "coalesced (xs @ [(n, f)]) = coalesced (xs @ [(m, f)])"
  by (induction xs rule: coalesced.induct) auto

lemma coalesced_cut:
  assumes "coalesced (xs @ (n, False) # ys)"
  shows "coalesced (xs @ (m, True) # (k, False) # ys)"
proof -
  have "coalesced (xs @ [(n, False)])" "coalesced ((n, False) # ys)" using assms coalesced_append by blast+
  then have "coalesced (xs @ [(m, True)])" "coalesced ((m, True) # (k, False) # ys)"
    using coalesced_alloc [of xs n "[]"] coalesced_size [of n False ys k] by simp_all
  then show ?thesis using coalesced_append by blast
qed

section \<open>The interface\<close>

text \<open>
  \<open>live st\<close> are the blocks of a state, as pairs of first address and length; \<open>free\<close> is called with the address
  (and length) of one of them.
\<close>

locale range_allocator =
  fixes invar :: "'s \<Rightarrow> bool"
    and arena :: "nat set"
    and live :: "'s \<Rightarrow> (nat \<times> nat) set"
    and alloc :: "'s \<Rightarrow> nat \<Rightarrow> (nat option \<times> 's) option"
    and free :: "'s \<Rightarrow> nat \<Rightarrow> nat \<Rightarrow> 's option"
    and ok_size :: "nat \<Rightarrow> bool"
  assumes inside: "invar st \<Longrightarrow> (p, m) \<in> live st \<Longrightarrow> {p..<p + m} \<subseteq> arena"
    and disjoint: "invar st \<Longrightarrow> (p, m) \<in> live st \<Longrightarrow> (q, k) \<in> live st \<Longrightarrow> (p, m) = (q, k) \<or> p + m \<le> q \<or> q + k \<le> p"
    and alloc: "invar st \<Longrightarrow> ok_size n \<Longrightarrow> \<exists>r st'. alloc st n = Some (r, st') \<and> invar st' \<and>
      (case r of None \<Rightarrow> live st' = live st
       | Some p \<Rightarrow> \<exists>m. n \<le> m \<and> (p, m) \<notin> live st \<and> live st' = insert (p, m) (live st))"
    and free: "invar st \<Longrightarrow> (p, m) \<in> live st \<Longrightarrow> \<exists>st'. free st p m = Some st' \<and> invar st' \<and> live st' = live st - {(p, m)}"
begin

text \<open>Freeing what was just allocated gives the blocks back; the block was disjoint from all others.\<close>

lemma alloc_free:
  assumes "invar st" "ok_size n" "alloc st n = Some (Some p, st1)"
  shows "\<exists>m st2. n \<le> m \<and> free st1 p m = Some st2 \<and> invar st2 \<and> live st2 = live st"
proof -
  obtain m where m: "n \<le> m" "(p, m) \<notin> live st" "live st1 = insert (p, m) (live st)" "invar st1"
    using alloc [OF assms(1,2)] assms(3) by auto
  then show ?thesis using free [OF m(4), of p m] by auto
qed

lemma alloc_fresh:
  assumes "invar st" "ok_size n" "alloc st n = Some (Some p, st1)"
  shows "\<exists>m. n \<le> m \<and> live st1 = insert (p, m) (live st) \<and> {p..<p + m} \<subseteq> arena \<and> (\<forall>(q, k) \<in> live st. {p..<p + m} \<inter> {q..<q + k} = {})"
proof -
  obtain m where m: "n \<le> m" "(p, m) \<notin> live st" "live st1 = insert (p, m) (live st)" "invar st1"
    using alloc [OF assms(1,2)] assms(3) by auto
  have "{p..<p + m} \<inter> {q..<q + k} = {}" if "(q, k) \<in> live st" for q k
    using disjoint [OF m(4), of p m q k] m(2,3) that by auto
  then show ?thesis using m inside [OF m(4)] by blast
qed

end

end
