(* ===== verification/Fixed_Heap.thy ===== *)
theory Fixed_Heap
  imports Range_Alloc
begin

text \<open>
  \<open>lib/fixed_heap.c\<close>: the debugger's heap in a fixed memory area. Every segment of the area starts with a
  16-byte tag: the address of the next tag, and the size of the segment with the allocated flag in bit 0.
  The memory is a store of tags by address; the loops follow the \<open>next\<close> pointers. \<open>chain\<close> relates the tags
  to a list of segments.
\<close>

section \<open>The code\<close>

record fixed_heap_tag =
  tag_next :: u64
  tag_data :: u64

type_synonym tag_mem = "u64 \<Rightarrow> fixed_heap_tag"

definition tag_allocated :: "fixed_heap_tag \<Rightarrow> bool" where
  "tag_allocated tag \<longleftrightarrow> tag_data tag AND 1 \<noteq> 0"

definition tag_size :: "fixed_heap_tag \<Rightarrow> u64" where
  "tag_size tag = tag_data tag AND NOT 1"

text \<open>A suitable segment is cut if the rest has room for a tag and more than 8 bytes.\<close>

definition fixed_heap_take :: "u64 \<Rightarrow> u64 \<Rightarrow> tag_mem \<Rightarrow> u64 \<times> tag_mem" where
  "fixed_heap_take tag tot m = (
     let m = (if tag_size (m tag) > tot \<and> tag_size (m tag) - tot > 16 + 8
              then let other = tag + tot;
                       m = m(other := \<lparr>tag_next = tag_next (m tag), tag_data = tag_size (m tag) - tot\<rparr>)
                   in m(tag := \<lparr>tag_next = other, tag_data = tot\<rparr>)
              else m);
         m = m(tag := (m tag)\<lparr>tag_data := tag_data (m tag) OR 1\<rparr>)
     in (tag + 16, m))"

partial_function (option) fixed_heap_search :: "u64 \<Rightarrow> u64 \<Rightarrow> tag_mem \<Rightarrow> (u64 \<times> tag_mem) option" where
  "fixed_heap_search tag tot m =
     (if tag = 0 then Some (0, m)
      else if tag_allocated (m tag) \<or> tag_size (m tag) < tot then fixed_heap_search (tag_next (m tag)) tot m
      else Some (fixed_heap_take tag tot m))"

definition fixed_heap_alloc :: "u64 \<Rightarrow> u64 \<Rightarrow> tag_mem \<Rightarrow> (u64 \<times> tag_mem) option" where
  "fixed_heap_alloc heap sz m =
     (if sz = 0 then Some (0, m) else fixed_heap_search heap (round_up sz 8 + 16) m)"

text \<open>The search for the tag before the one being freed, and the merge with it; \<open>fatal\<close> if there is none.\<close>

partial_function (option) fixed_heap_merge_prev :: "u64 \<Rightarrow> u64 \<Rightarrow> tag_mem \<Rightarrow> tag_mem option" where
  "fixed_heap_merge_prev prev tag m =
     (if prev = 0 then None
      else if tag_next (m prev) \<noteq> tag then fixed_heap_merge_prev (tag_next (m prev)) tag m
      else if \<not> tag_allocated (m prev)
      then Some (m(prev := \<lparr>tag_next = tag_next (m tag), tag_data = tag_data (m prev) + tag_data (m tag)\<rparr>))
      else Some m)"

definition fixed_heap_free :: "u64 \<Rightarrow> u64 \<Rightarrow> tag_mem \<Rightarrow> tag_mem option" where
  "fixed_heap_free heap ptr m =
     (if ptr = 0 then Some m
      else let tag = ptr - 16
      in if \<not> tag_allocated (m tag) then None
      else let m = m(tag := (m tag)\<lparr>tag_data := tag_data (m tag) AND NOT 1\<rparr>);
               nxt = tag_next (m tag);
               m = (if nxt \<noteq> 0 \<and> \<not> tag_allocated (m nxt)
                    then m(tag := \<lparr>tag_next = tag_next (m nxt), tag_data = tag_data (m tag) + tag_data (m nxt)\<rparr>)
                    else m)
      in if tag \<noteq> heap then fixed_heap_merge_prev heap tag m else Some m)"

definition fixed_heap_init :: "u64 \<Rightarrow> u64 \<Rightarrow> tag_mem \<Rightarrow> (u64 \<times> tag_mem) option" where
  "fixed_heap_init mem sz m =
     (if sz \<ge> 16 + 8 \<and> is_pow2 sz then Some (mem, m(mem := \<lparr>tag_next = 0, tag_data = sz\<rparr>)) else None)"

declare fixed_heap_search.simps [code] fixed_heap_merge_prev.simps [code]

section \<open>Tags and segments\<close>

text \<open>Addresses and sizes as words.\<close>

definition W :: "nat \<Rightarrow> u64" where "W n = word_of_nat n"

lemma unat_W: "n < 2 ^ 64 \<Longrightarrow> unat (W n) = n"
  by (simp add: W_def unat_of_nat take_bit_eq_mod)

lemma W_unat: "W (unat w) = w"
  by (simp add: W_def)

lemma W_eq: "a < 2 ^ 64 \<Longrightarrow> b < 2 ^ 64 \<Longrightarrow> W a = W b \<longleftrightarrow> a = b"
  by (metis unat_W)

lemma W_less: "a < 2 ^ 64 \<Longrightarrow> b < 2 ^ 64 \<Longrightarrow> W a < W b \<longleftrightarrow> a < b"
  by (simp add: word_less_nat_alt unat_W)

lemma W_add: "W (a + b) = W a + W b" and W_sub: "b \<le> a \<Longrightarrow> W (a - b) = W a - W b" and W_0 [simp]: "W 0 = 0"
  and W_num: "W (numeral k) = numeral k" and W_even: "even n \<Longrightarrow> even (W n)"
  by (simp_all add: W_def)

definition seg_ok :: "nat \<times> bool \<Rightarrow> bool" where
  "seg_ok s \<longleftrightarrow> 8 dvd fst s \<and> 24 \<le> fst s"

definition tag_of :: "nat \<times> bool \<Rightarrow> u64 \<Rightarrow> fixed_heap_tag" where
  "tag_of s nxt = \<lparr>tag_next = nxt, tag_data = W (fst s) OR (if snd s then 1 else 0)\<rparr>"

fun chain :: "tag_mem \<Rightarrow> nat \<Rightarrow> segs \<Rightarrow> u64 \<Rightarrow> bool" where
  "chain m a [] e \<longleftrightarrow> True"
| "chain m a (s # ss) e \<longleftrightarrow> m (W a) = tag_of s (if ss = [] then e else W (a + fst s))
     \<and> chain m (a + fst s) ss e"

lemma chain_append:
  "ys \<noteq> [] \<Longrightarrow> chain m a (xs @ ys) e \<longleftrightarrow> chain m a xs (W (a + span xs)) \<and> chain m (a + span xs) ys e"
  by (induction xs arbitrary: a) (auto simp: add.assoc)

lemma chain_cong:
  "(\<And>b. a \<le> b \<Longrightarrow> b < a + span ss \<Longrightarrow> m' (W b) = m (W b)) \<Longrightarrow> \<forall>s \<in> set ss. 0 < fst s
    \<Longrightarrow> chain m' a ss e = chain m a ss e"
  by (induction ss arbitrary: a) auto

text \<open>Replacing some consecutive segments by others that cover the same addresses.\<close>

lemma chain_replace:
  assumes "chain m a (xs @ us @ ys) e" "us \<noteq> []" "zs \<noteq> []" "span zs = span us" "\<forall>s \<in> set (xs @ ys). 0 < fst s"
    and same: "\<And>b. b < a + span xs \<or> a + span xs + span us \<le> b \<Longrightarrow> b < a + span (xs @ us @ ys) \<Longrightarrow> m' (W b) = m (W b)"
    and zs: "chain m' (a + span xs) zs (if ys = [] then e else W (a + span xs + span us))"
  shows "chain m' a (xs @ zs @ ys) e"
proof -
  have xs: "chain m' a xs x = chain m a xs x" for x using assms(5) by (intro chain_cong same) auto
  have ys: "chain m' (a + span xs + span us) ys e = chain m (a + span xs + span us) ys e" using assms(5) by (intro chain_cong same) auto
  show ?thesis
  proof (cases "ys = []")
    case True
    then show ?thesis using assms(1-4) zs xs by (simp add: chain_append)
  next
    case False
    then show ?thesis using assms(1-4) zs xs ys by (simp add: chain_append)
  qed
qed

lemma tag_of_data:
  assumes "seg_ok s"
  shows "tag_allocated (tag_of s x) = snd s" "tag_size (tag_of s x) = W (fst s)" "tag_next (tag_of s x) = x"
    "\<not> snd s \<Longrightarrow> tag_data (tag_of s x) = W (fst s)"
proof -
  have e: "even (W (fst s))" using assms(1) by (intro W_even) (auto simp: seg_ok_def)
  have "W (fst s) AND NOT 1 = W (fst s)"
    using e by (intro bit_eqI) (auto simp: bit_simps bit_0 )
  then show "tag_size (tag_of s x) = W (fst s)"
    by (simp add: tag_size_def tag_of_def bit.conj_disj_distrib2)
  show "tag_allocated (tag_of s x) = snd s" "tag_next (tag_of s x) = x" "\<not> snd s \<Longrightarrow> tag_data (tag_of s x) = W (fst s)"
    using e by (auto simp: tag_allocated_def tag_of_def and_one_eq even_or_iff even_iff_mod_2_eq_zero [symmetric] odd_iff_mod_2_eq_one [symmetric])
qed


definition heap_ok :: "nat \<Rightarrow> nat \<Rightarrow> tag_mem \<Rightarrow> segs \<Rightarrow> bool" where
  "heap_ok a n m ss \<longleftrightarrow> chain m a ss 0 \<and> ss \<noteq> [] \<and> 0 < a \<and> span ss = n \<and> a + n \<le> 2 ^ 64 \<and> (\<forall>s \<in> set ss. seg_ok s)"

definition fits :: "nat \<Rightarrow> nat \<times> bool \<Rightarrow> bool" where
  "fits t s \<longleftrightarrow> \<not> snd s \<and> t \<le> fst s"

lemma seg_pos: "seg_ok s \<Longrightarrow> 0 < fst s" by (simp add: seg_ok_def)

lemma fits_tag:
  assumes "seg_ok s" "fst s < 2 ^ 64" "t < 2 ^ 64"
  shows "(tag_allocated (tag_of s x) \<or> tag_size (tag_of s x) < W t) = (\<not> fits t s)"
proof -
  have "(W (fst s) < W t) = (fst s < t)" using assms(2,3) by (rule W_less)
  then show ?thesis using tag_of_data [OF assms(1)] by (auto simp: fits_def)
qed

lemma search_skip:
  assumes "chain m a (xs @ ys) 0" "ys \<noteq> []" "0 < a" "a + span (xs @ ys) \<le> 2 ^ 64" "\<forall>s \<in> set (xs @ ys). seg_ok s" "\<forall>s \<in> set xs. \<not> fits t s" "t < 2 ^ 64"
  shows "fixed_heap_search (W a) (W t) m = fixed_heap_search (W (a + span xs)) (W t) m"
  using assms
proof (induction xs arbitrary: a)
  case (Cons s xs)
  have s: "seg_ok s" "fst s < 2 ^ 64" "\<not> fits t s" "0 < fst s" using Cons.prems seg_pos [of s] by auto
  have nz: "W a \<noteq> 0" using W_eq [of a 0] Cons.prems s(4) by simp
  have tag: "m (W a) = tag_of s (W (a + fst s))" using Cons.prems(1,2) by simp
  have "fixed_heap_search (W a) (W t) m = fixed_heap_search (W (a + fst s)) (W t) m"
    using nz fits_tag [OF s(1,2) Cons.prems(7)] s(3) tag_of_data(3) [OF s(1)]
    by (subst fixed_heap_search.simps) (simp only: tag if_False if_True not_False_eq_True)
  also have "\<dots> = fixed_heap_search (W (a + fst s + span xs)) (W t) m"
    using Cons.prems by (intro Cons.IH) (auto simp: add.assoc)
  finally show ?case by (simp add: add.assoc)
qed simp

lemma search_none:
  assumes "chain m a ss 0" "ss \<noteq> []" "0 < a" "a + span ss \<le> 2 ^ 64" "\<forall>s \<in> set ss. seg_ok s" "\<forall>s \<in> set ss. \<not> fits t s" "t < 2 ^ 64"
  shows "fixed_heap_search (W a) (W t) m = Some (0, m)"
proof -
  obtain xs s where ss: "ss = xs @ [s]" using assms(2) by (cases ss rule: rev_cases) auto
  have s: "seg_ok s" "fst s < 2 ^ 64" "\<not> fits t s" "0 < fst s" using assms seg_pos [of s] by (auto simp: ss)
  have nz: "W (a + span xs) \<noteq> 0" using W_eq [of "a + span xs" 0] assms s(4) by (simp add: ss)
  have tag: "m (W (a + span xs)) = tag_of s 0" using assms(1) by (simp add: ss chain_append)
  have "fixed_heap_search (W a) (W t) m = fixed_heap_search (W (a + span xs)) (W t) m"
    using assms unfolding ss by (intro search_skip) auto
  also have "\<dots> = fixed_heap_search 0 (W t) m"
    using nz fits_tag [OF s(1,2) assms(7)] s(3) tag_of_data(3) [OF s(1)]
    by (subst fixed_heap_search.simps) (simp only: tag if_False if_True not_False_eq_True)
  finally show ?thesis by (simp add: fixed_heap_search.simps)
qed

text \<open>What the cut leaves of a free segment of \<open>n\<close> bytes when \<open>t\<close> are taken.\<close>

definition cut :: "nat \<Rightarrow> nat \<Rightarrow> segs" where
  "cut t n = (if t < n \<and> 24 < n - t then [(t, True), (n - t, False)] else [(n, True)])"

lemma take_ok:
  assumes "heap_ok a k m (xs @ (n, False) # ys)" "8 dvd t" "24 \<le> t" "t \<le> n"
  shows "\<exists>m'. fixed_heap_take (W (a + span xs)) (W t) m = (W (a + span xs) + 16, m')
    \<and> heap_ok a k m' (xs @ cut t n @ ys)"
proof -
  let ?p = "a + span xs"
  let ?l = "if ys = [] then 0 else W (?p + n)"
  have inv: "chain m a (xs @ [(n, False)] @ ys) 0" "0 < a" "a + span (xs @ [(n, False)] @ ys) \<le> 2 ^ 64" "\<forall>s \<in> set (xs @ [(n, False)] @ ys). seg_ok s"
    using assms(1) by (auto simp: heap_ok_def)
  have n: "seg_ok (n, False)" "n < 2 ^ 64" "?p < 2 ^ 64" "8 dvd n" using inv by (auto simp: seg_ok_def)
  have tag: "m (W ?p) = tag_of (n, False) ?l" using inv(1) by (simp add: chain_append)
  have size: "tag_size (m (W ?p)) = W n" "tag_next (m (W ?p)) = ?l" "tag_data (m (W ?p)) = W n"
    using tag_of_data [OF n(1)] by (auto simp: tag)
  define m' where "m' = snd (fixed_heap_take (W ?p) (W t) m)"
  have addr: "W ?p \<noteq> W b" if "b \<noteq> ?p" "b < 2 ^ 64" for b using W_eq [of ?p b] n(3) that by auto
  have res: "fixed_heap_take (W ?p) (W t) m = (W ?p + 16, m')" by (simp add: m'_def fixed_heap_take_def Let_def)
  have "chain m' a (xs @ cut t n @ ys) 0"
  proof (cases "t < n \<and> 24 < n - t")
    case True
    have big: "W t < W n \<and> 16 + 8 < W n - W t"
      using True n(2) W_less [of t n] W_less [of 24 "n - t"] by (simp add: W_sub W_num)
    have m': "m' = m(W (?p + t) := tag_of (n - t, False) ?l, W ?p := tag_of (t, True) (W (?p + t)))"
      using big addr [of "?p + t"] True assms(3) inv(3)
      by (simp add: m'_def fixed_heap_take_def Let_def size W_add [symmetric] tag_of_def W_sub fun_upd_twist)
    show ?thesis
    proof (rule chain_replace [OF inv(1)])
      show "m' (W b) = m (W b)" if "b < ?p \<or> ?p + span [(n, False)] \<le> b" "b < a + span (xs @ [(n, False)] @ ys)" for b
        using that W_eq [of b ?p] W_eq [of b "?p + t"] True inv(3) n(3) by (auto simp: m')
    qed (use True inv(4) seg_pos addr [of "?p + t"] assms(3) inv(3) in \<open>auto simp: cut_def m'\<close>)
  next
    case False
    have small: "\<not> (W t < W n \<and> 16 + 8 < W n - W t)"
      using False n(2) assms(4) W_less [of t n] W_less [of 24 "n - t"] by (auto simp: W_sub W_num)
    have "(m (W ?p))\<lparr>tag_data := W n OR 1\<rparr> = tag_of (n, True) ?l" by (simp add: tag tag_of_def)
    then have m': "m' = m(W ?p := tag_of (n, True) ?l)"
      using small by (auto simp: m'_def fixed_heap_take_def Let_def size)
    show ?thesis
    proof (rule chain_replace [OF inv(1)])
      show "m' (W b) = m (W b)" if "b < ?p \<or> ?p + span [(n, False)] \<le> b" "b < a + span (xs @ [(n, False)] @ ys)" for b
        using that W_eq [of b ?p] inv(3) n(3) n(1) by (auto simp: m' seg_ok_def)
    qed (use False inv(4) seg_pos in \<open>auto simp: cut_def m'\<close>)
  qed
  then show ?thesis using assms res by (auto simp: heap_ok_def cut_def seg_ok_def intro: dvd_diff_nat)
qed


text \<open>Changing the flag of a segment, and joining two neighbours.\<close>

lemma set_flag:
  assumes "heap_ok a k m (xs @ (n, f) # ys)"
  shows "heap_ok a k (m(W (a + span xs) := tag_of (n, g) (tag_next (m (W (a + span xs)))))) (xs @ (n, g) # ys)"
proof -
  let ?p = "a + span xs"
  let ?m = "m(W ?p := tag_of (n, g) (tag_next (m (W ?p))))"
  have inv: "chain m a (xs @ [(n, f)] @ ys) 0" "a + span (xs @ [(n, f)] @ ys) \<le> 2 ^ 64" "\<forall>s \<in> set (xs @ [(n, f)] @ ys). seg_ok s"
    using assms by (auto simp: heap_ok_def)
  have n: "0 < n" "?p < 2 ^ 64" using inv(2,3) seg_pos [of "(n, f)"] by auto
  have tag: "m (W ?p) = tag_of (n, f) (if ys = [] then 0 else W (?p + n))" using inv(1) by (simp add: chain_append)
  have "chain ?m a (xs @ [(n, g)] @ ys) 0"
  proof (rule chain_replace [OF inv(1)])
    show "?m (W b) = m (W b)" if "b < ?p \<or> ?p + span [(n, f)] \<le> b" "b < a + span (xs @ [(n, f)] @ ys)" for b
      using that W_eq [of b ?p] inv(2) n by auto
  qed (use inv(3) seg_pos tag_of_data(3) [of "(n, f)"] tag in auto)
  then show ?thesis using assms by (auto simp: heap_ok_def seg_ok_def)
qed

lemma join_free:
  assumes "heap_ok a k m (xs @ (n, False) # (n2, False) # ys)"
  defines "q \<equiv> W (a + span xs + n)"
  shows "heap_ok a k (m(W (a + span xs) := \<lparr>tag_next = tag_next (m q), tag_data = tag_data (m (W (a + span xs))) + tag_data (m q)\<rparr>))
    (xs @ (n + n2, False) # ys)"
proof -
  let ?p = "a + span xs"
  let ?l = "if ys = [] then 0 else W (?p + n + n2)"
  let ?m = "m(W ?p := \<lparr>tag_next = tag_next (m q), tag_data = tag_data (m (W ?p)) + tag_data (m q)\<rparr>)"
  have inv: "chain m a (xs @ [(n, False), (n2, False)] @ ys) 0" "a + span (xs @ [(n, False), (n2, False)] @ ys) \<le> 2 ^ 64"
      "\<forall>s \<in> set (xs @ [(n, False), (n2, False)] @ ys). seg_ok s"
    using assms by (auto simp: heap_ok_def)
  have n: "0 < n" "?p < 2 ^ 64" "seg_ok (n, False)" "seg_ok (n2, False)" using inv(2,3) seg_pos [of "(n, False)"] by auto
  have tags: "m (W ?p) = tag_of (n, False) q" "m q = tag_of (n2, False) ?l"
    using inv(1) by (simp_all add: chain_append q_def)
  have "\<lparr>tag_next = tag_next (m q), tag_data = tag_data (m (W ?p)) + tag_data (m q)\<rparr> = tag_of (n + n2, False) ?l"
    unfolding tags using tag_of_data [OF n(3)] tag_of_data [OF n(4)] by (simp add: tag_of_def W_add)
  then have m: "?m = m(W ?p := tag_of (n + n2, False) ?l)" by simp
  have "chain ?m a (xs @ [(n + n2, False)] @ ys) 0" unfolding m
  proof (rule chain_replace [OF inv(1)])
    show "(m(W ?p := tag_of (n + n2, False) ?l)) (W b) = m (W b)"
      if "b < ?p \<or> ?p + span [(n, False), (n2, False)] \<le> b" "b < a + span (xs @ [(n, False), (n2, False)] @ ys)" for b
      using that W_eq [of b ?p] inv(2) n by auto
  qed (use inv(3) seg_pos in \<open>auto simp: add.assoc\<close>)
  then show ?thesis using assms(1) by (auto simp: heap_ok_def seg_ok_def)
qed

lemma merge_prev_ok:
  assumes "heap_ok a k m (ws @ (q, g) # (n, False) # ys)"
  shows "\<exists>m'. fixed_heap_merge_prev (W a) (W (a + span ws + q)) m = Some m'
    \<and> heap_ok a k m' (ws @ (if g then [(q, True), (n, False)] else [(q + n, False)]) @ ys)"
proof -
  let ?p = "a + span ws" and ?tag = "a + span ws + q"
  have inv: "chain m a (ws @ (q, g) # (n, False) # ys) 0" "0 < a" "?tag < 2 ^ 64" "\<forall>s \<in> set (ws @ [(q, g)]). seg_ok s"
    using assms seg_pos [of "(n, False)"] by (auto simp: heap_ok_def)
  have loop: "fixed_heap_merge_prev (W b) (W ?tag) m = fixed_heap_merge_prev (W ?p) (W ?tag) m"
    if "chain m b (us @ (q, g) # (n, False) # ys) 0" "0 < b" "b + span us = ?p" "\<forall>s \<in> set us. seg_ok s" for b us
    using that
  proof (induction us arbitrary: b)
    case (Cons u us)
    have tag: "m (W b) = tag_of u (W (b + fst u))" and u: "seg_ok u" "0 < fst u" using Cons.prems(1,4) seg_pos by auto
    have q: "0 < q" using inv(4) seg_pos by auto
    have "W b \<noteq> 0" "W (b + fst u) \<noteq> W ?tag" using W_eq [of b 0] W_eq [of "b + fst u" ?tag] Cons.prems(2,3) inv(3) q by auto
    then have "fixed_heap_merge_prev (W b) (W ?tag) m = fixed_heap_merge_prev (W (b + fst u)) (W ?tag) m"
      using tag_of_data(3) [OF u(1)] by (subst fixed_heap_merge_prev.simps) (simp add: tag)
    then show ?case using Cons by (simp add: add.assoc)
  qed simp
  have tag: "m (W ?p) = tag_of (q, g) (W ?tag)" using inv(1) by (simp add: chain_append)
  have q: "seg_ok (q, g)" using inv(4) by simp
  have "W ?p \<noteq> 0" using W_eq [of ?p 0] inv(2,3) by simp
  then have step: "fixed_heap_merge_prev (W ?p) (W ?tag) m = Some (if \<not> g
      then m(W ?p := \<lparr>tag_next = tag_next (m (W ?tag)), tag_data = tag_data (m (W ?p)) + tag_data (m (W ?tag))\<rparr>) else m)"
    using tag_of_data(1,3) [OF q] by (subst fixed_heap_merge_prev.simps) (simp add: tag)
  show ?thesis
  proof (cases g)
    case True
    then show ?thesis using loop [OF inv(1,2)] inv(4) step assms by simp
  next
    case False
    then show ?thesis using loop [OF inv(1,2)] inv(4) step join_free [of a k m ws q n ys] assms by simp
  qed
qed


section \<open>Allocation, freeing and initialisation\<close>

lemma round_up_W: "round_up sz 8 = W (round_up (unat sz) 8)" for sz :: u64
proof -
  have "unat (sz mod 8) = unat sz mod 8" by (simp add: unat_mod)
  then have m: "sz mod 8 = W (unat sz mod 8)" using W_unat by metis
  have z: "(sz mod 8 = 0) = (unat sz mod 8 = 0)"
    unfolding m using W_eq [of "unat sz mod 8" 0] by simp
  have r: "round_up x 8 = (if x mod 8 = 0 then x else x - x mod 8 + 8)" for x :: "'a::{minus,plus,modulo,zero,numeral}"
    by (simp add: round_up_def)
  have "W (unat sz - unat sz mod 8) = sz - sz mod 8" using W_sub [of "unat sz mod 8" "unat sz"] by (simp add: W_unat m)
  then show ?thesis unfolding r z by (simp only: if_distrib [of W] W_add W_num W_unat)
qed

lemma alloc_ok:
  assumes "heap_ok a k m ss" "coalesced ss" "sz \<noteq> 0" "unat sz \<le> 2 ^ 64 - 32"
  defines "t \<equiv> round_up (unat sz) 8 + 16"
  shows "(\<forall>s \<in> set ss. \<not> fits t s) \<and> fixed_heap_alloc (W a) sz m = Some (0, m) \<or>
    (\<exists>xs n ys m'. ss = xs @ (n, False) # ys \<and> (\<forall>s \<in> set xs. \<not> fits t s) \<and> t \<le> n
      \<and> fixed_heap_alloc (W a) sz m = Some (W (a + span xs + 16), m') \<and> heap_ok a k m' (xs @ cut t n @ ys)
      \<and> coalesced (xs @ cut t n @ ys))"
proof -
  have szpos: "0 < unat sz" using assms(3) by (simp add: unat_gt_0)
  have t: "8 dvd t" "24 \<le> t" "t < 2 ^ 64" "unat sz + 16 \<le> t"
  proof -
    have r: "unat sz \<le> round_up (unat sz) 8" "round_up (unat sz) 8 < unat sz + 8" "8 dvd round_up (unat sz) 8"
      using round_up_nat [of 8 "unat sz"] by auto
    then have "8 \<le> round_up (unat sz) 8" using szpos by (meson dvd_imp_le less_le_trans)
    then show "8 dvd t" "24 \<le> t" "t < 2 ^ 64" "unat sz + 16 \<le> t"
      using r assms(4) by (auto simp: t_def intro!: dvd_add)
  qed
  have alloc: "fixed_heap_alloc (W a) sz m = fixed_heap_search (W a) (W t) m"
    using assms(3) by (simp add: fixed_heap_alloc_def t_def W_add round_up_W W_num)
  have inv: "chain m a ss 0" "ss \<noteq> []" "0 < a" "a + span ss \<le> 2 ^ 64" "\<forall>s \<in> set ss. seg_ok s"
    using assms(1) by (auto simp: heap_ok_def)
  show ?thesis
  proof (cases "\<exists>s \<in> set ss. fits t s")
    case False
    then show ?thesis using search_none [OF inv _ t(3)] alloc by simp
  next
    case True
    then obtain xs s ys where ss: "ss = xs @ s # ys" "fits t s" "\<forall>s \<in> set xs. \<not> fits t s"
      by (rule split_list_first_propE)
    obtain n where s: "s = (n, False)" "t \<le> n" using ss(2) by (cases s) (auto simp: fits_def)
    let ?p = "a + span xs"
    have sk: "seg_ok (n, False)" "n < 2 ^ 64" "?p < 2 ^ 64" "0 < n" using inv seg_pos [of s] by (auto simp: ss(1) s(1))
    have nz: "W ?p \<noteq> 0" using W_eq [of ?p 0] sk(3) inv(3) by simp
    have tag: "m (W ?p) = tag_of (n, False) (if ys = [] then 0 else W (?p + n))"
      using inv(1) by (simp add: ss(1) s(1) chain_append)
    obtain m' where m': "fixed_heap_take (W ?p) (W t) m = (W ?p + 16, m')" "heap_ok a k m' (xs @ cut t n @ ys)"
      using take_ok [of a k m xs n ys t] assms(1) t s by (auto simp: ss(1))
    have "fixed_heap_search (W a) (W t) m = fixed_heap_search (W ?p) (W t) m"
      using inv ss t(3) by (intro search_skip [of _ _ _ "s # ys"]) auto
    also have "\<dots> = Some (fixed_heap_take (W ?p) (W t) m)"
      using nz fits_tag [OF sk(1) _ t(3)] sk(2) ss(2)
      by (subst fixed_heap_search.simps) (simp add: tag s(1))
    finally have "fixed_heap_alloc (W a) sz m = Some (W (?p + 16), m')"
      using W_add [of ?p 16] by (simp add: alloc m'(1) W_num)
    moreover have "coalesced (xs @ cut t n @ ys)"
      using coalesced_cut [of xs n ys] coalesced_alloc [of xs n ys] assms(2) by (simp add: cut_def ss(1) s(1))
    ultimately show ?thesis using ss s m'(2) by blast
  qed
qed

lemma coalesced_tl: "coalesced (s # ss) \<Longrightarrow> coalesced ss"
  by (cases s; cases ss) auto

lemma free_ok:
  assumes "heap_ok a k m (xs @ (n, True) # ys)" "coalesced (xs @ (n, True) # ys)"
  shows "\<exists>m' ss'. fixed_heap_free (W a) (W (a + span xs + 16)) m = Some m' \<and> heap_ok a k m' ss' \<and> coalesced ss'
    \<and> blocks a ss' = blocks a (xs @ (n, False) # ys)"
proof -
  let ?p = "a + span xs"
  define l where "l = (if ys = [] then 0 else W (?p + n))"
  have inv: "chain m a (xs @ (n, True) # ys) 0" "0 < a" "a + span (xs @ (n, True) # ys) \<le> 2 ^ 64" "\<forall>s \<in> set (xs @ (n, True) # ys). seg_ok s"
    using assms(1) by (auto simp: heap_ok_def)
  have n: "seg_ok (n, True)" "24 \<le> n" "?p + 16 < 2 ^ 64" using inv(3,4) by (auto simp: seg_ok_def)
  have ptr: "W (?p + 16) \<noteq> 0" "W (?p + 16) - 16 = W ?p" using W_eq [of "?p + 16" 0] n(3) by (simp_all add: W_add W_num)
  have tag: "m (W ?p) = tag_of (n, True) l" using inv(1) by (simp add: chain_append l_def)
  define m1 where "m1 = m(W ?p := tag_of (n, False) l)"
  have m1: "m(W ?p := (m (W ?p))\<lparr>tag_data := tag_data (m (W ?p)) AND NOT 1\<rparr>) = m1"
    using tag_of_data(2) [OF n(1), of l] by (simp add: tag m1_def tag_of_def tag_size_def)
  have ok1: "heap_ok a k m1 (xs @ (n, False) # ys)"
    using set_flag [OF assms(1), of False] tag_of_data(3) [OF n(1)] by (simp add: m1_def tag)
  define nxt where "nxt = l"
  have co: "coalesced (xs @ [(n, True)])" "coalesced ((n, True) # ys)" using assms(2) coalesced_append by blast+
  define m2 where "m2 = (if nxt \<noteq> 0 \<and> \<not> tag_allocated (m1 nxt)
    then m1(W ?p := \<lparr>tag_next = tag_next (m1 nxt), tag_data = tag_data (m1 (W ?p)) + tag_data (m1 nxt)\<rparr>) else m1)"
  have "\<exists>n' ys'. heap_ok a k m2 (xs @ (n', False) # ys') \<and> coalesced ((n', False) # ys')
      \<and> blocks a (xs @ (n', False) # ys') = blocks a (xs @ (n, False) # ys)"
  proof (cases "\<exists>n2 ys2. ys = (n2, False) # ys2")
    case True
    then obtain n2 ys2 where ys: "ys = (n2, False) # ys2" by blast
    have n2: "seg_ok (n2, False)" "W (?p + n) \<noteq> 0" "W (?p + n) \<noteq> W ?p"
      using inv(3,4) n(2) W_eq [of "?p + n" 0] W_eq [of "?p + n" ?p] by (auto simp: ys seg_ok_def)
    have "m1 nxt = tag_of (n2, False) (if ys2 = [] then 0 else W (?p + n + n2))" "nxt = W (?p + n)"
      using ok1 by (auto simp: heap_ok_def chain_append ys nxt_def l_def)
    then have "m2 = m1(W ?p := \<lparr>tag_next = tag_next (m1 (W (?p + n))), tag_data = tag_data (m1 (W ?p)) + tag_data (m1 (W (?p + n)))\<rparr>)"
      using n2 tag_of_data(1) [OF n2(1)] by (simp add: m2_def)
    moreover have "coalesced ((n + n2, False) # ys2)" using co(2) coalesced_size [of n2 False ys2] by (simp add: ys)
    ultimately show ?thesis using join_free [of a k m1 xs n n2 ys2] ok1 blocks_join [of a xs n n2 ys2] by (auto simp: ys)
  next
    case False
    have "m2 = m1"
    proof (cases ys)
      case (Cons s ys2)
      then obtain n2 where s: "s = (n2, True)" using False by (cases s) auto
      have "m1 nxt = tag_of s (if ys2 = [] then 0 else W (?p + n + n2))"
        using ok1 by (auto simp: heap_ok_def chain_append Cons nxt_def l_def s)
      then show ?thesis using tag_of_data(1) [of s] inv(4) by (simp add: m2_def Cons s)
    qed (simp add: m2_def nxt_def l_def)
    moreover have "coalesced ((n, False) # ys)" using co(2) False by (cases ys) auto
    ultimately show ?thesis using ok1 by blast
  qed
  then obtain n' ys' where two: "heap_ok a k m2 (xs @ (n', False) # ys')" "coalesced ((n', False) # ys')"
      "blocks a (xs @ (n', False) # ys') = blocks a (xs @ (n, False) # ys)" by blast
  have nx: "tag_next (m1 (W ?p)) = nxt" using tag_of_data(3) [of "(n, False)"] n(1) by (simp add: m1_def nxt_def seg_ok_def)
  have run: "fixed_heap_free (W a) (W (?p + 16)) m = (if W ?p \<noteq> W a then fixed_heap_merge_prev (W a) (W ?p) m2 else Some m2)"
    unfolding fixed_heap_free_def Let_def ptr(2) m1 nx m2_def [symmetric] using ptr(1) tag_of_data(1) [OF n(1)] by (simp add: tag)
  show ?thesis
  proof (cases xs rule: rev_cases)
    case Nil
    then show ?thesis using run two by auto
  next
    case (snoc ws z)
    obtain q g where z: "z = (q, g)" by (cases z)
    have q: "0 < q" using inv(4) seg_pos [of z] by (simp add: snoc z)
    have "W ?p \<noteq> W a" using W_eq [of ?p a] n(3) q by (simp add: snoc z)
    moreover obtain m' where m': "fixed_heap_merge_prev (W a) (W (a + span ws + q)) m2 = Some m'"
        "heap_ok a k m' (ws @ (if g then [(q, True), (n', False)] else [(q + n', False)]) @ ys')"
      using merge_prev_ok [of a k m2 ws q g n' ys'] two(1) by (auto simp: snoc z)
    moreover have "coalesced (ws @ [(q, g)])" using co(1) coalesced_append [of ws q g "[(n, True)]"] by (simp add: snoc z)
    then have "coalesced (ws @ (if g then [(q, True), (n', False)] else [(q + n', False)]) @ ys')"
      using two(2) coalesced_append [of ws q True "(n', False) # ys'"] coalesced_append [of ws "q + n'" False ys']
        coalesced_size [of n' False ys' "q + n'"] coalesced_resize [of ws q False "q + n'"] by (cases g) auto
    moreover have "blocks a (ws @ (if g then [(q, True), (n', False)] else [(q + n', False)]) @ ys') = blocks a (xs @ (n, False) # ys)"
      using two(3) blocks_join [of a ws q n' ys'] by (cases g) (simp_all add: snoc z)
    ultimately show ?thesis using run by (auto simp: snoc z add.assoc)
  qed
qed


text \<open>The segments that the tags in memory describe, following the list from its head.\<close>

fun segs_from :: "nat \<Rightarrow> tag_mem \<Rightarrow> u64 \<Rightarrow> segs" where
  "segs_from 0 m tag = []"
| "segs_from (Suc n) m tag = (if tag = 0 then []
     else (unat (tag_size (m tag)), tag_allocated (m tag)) # segs_from n m (tag_next (m tag)))"

lemma segs_from_ok:
  "chain m a ss 0 \<Longrightarrow> ss \<noteq> [] \<Longrightarrow> 0 < a \<Longrightarrow> a + span ss \<le> 2 ^ 64 \<Longrightarrow> \<forall>s \<in> set ss. seg_ok s \<Longrightarrow> length ss \<le> k
    \<Longrightarrow> segs_from k m (W a) = ss"
proof (induction ss arbitrary: a k)
  case (Cons s ss)
  obtain k' where k: "k = Suc k'" using Cons.prems(6) by (cases k) auto
  have s: "seg_ok s" "0 < fst s" "fst s < 2 ^ 64" using Cons.prems(3,4,5) seg_pos [of s] by auto
  have nz: "W a \<noteq> 0" using W_eq [of a 0] Cons.prems(3,4) s(2) by simp
  have "segs_from k' m (if ss = [] then 0 else W (a + fst s)) = ss"
  proof (cases "ss = []")
    case True
    then show ?thesis by (cases k') simp_all
  next
    case False
    then show ?thesis using Cons.prems by (auto simp: k add.assoc intro!: Cons.IH)
  qed
  then show ?case using nz Cons.prems(1) tag_of_data [OF s(1)] s(3) by (simp add: k unat_W)
qed simp

definition heap_segs :: "nat \<Rightarrow> nat \<Rightarrow> tag_mem \<Rightarrow> segs" where
  "heap_segs a k m = segs_from k m (W a)"

definition heap_inv :: "nat \<Rightarrow> nat \<Rightarrow> tag_mem \<Rightarrow> bool" where
  "heap_inv a k m \<longleftrightarrow> heap_ok a k m (heap_segs a k m) \<and> coalesced (heap_segs a k m)"

lemma heap_segs:
  assumes "heap_ok a k m ss"
  shows "heap_segs a k m = ss"
  using segs_from_ok [of m a ss k] length_span [of ss] assms seg_pos by (auto simp: heap_ok_def heap_segs_def)

lemma heap_invI: "heap_ok a k m ss \<Longrightarrow> coalesced ss \<Longrightarrow> heap_inv a k m"
  using heap_segs [of a k m ss] by (simp add: heap_inv_def)

lemma pred_div8:
  fixes x :: nat
  assumes "\<not> 8 dvd x"
  shows "(x - 1) div 8 = x div 8"
proof -
  have "x mod 8 < 8" "x mod 8 \<noteq> 0" "x = x div 8 * 8 + x mod 8" using assms by (auto simp: dvd_eq_mod_eq_0)
  then have "x - 1 = x div 8 * 8 + (x mod 8 - 1)" "x mod 8 - 1 < 8" by linarith+
  then show ?thesis by (metis div_mult_self3 div_less add.commute add.right_neutral zero_neq_numeral)
qed

lemma is_pow2_dvd8:
  assumes "is_pow2 sz" "24 \<le> sz"
  shows "8 dvd unat sz"
proof (rule ccontr)
  assume no: "\<not> 8 dvd unat sz"
  have sz: "24 \<le> unat sz" using assms(2) by (simp add: word_le_nat_alt)
  then have "sz \<noteq> 0" by auto
  with sz have sz: "unat (sz - 1) = unat sz - 1" "24 \<le> unat sz" by (simp_all add: unat_minus_one)
  have "unat sz AND (unat sz - 1) = 0" using assms(1) sz(1) by (metis is_pow2_def unsigned_0 unsigned_and_eq)
  then have "drop_bit 3 (unat sz) AND drop_bit 3 (unat sz - 1) = 0" by (metis drop_bit_and drop_bit_of_0)
  moreover have "drop_bit 3 (unat sz - 1) = drop_bit 3 (unat sz)"
    using pred_div8 [OF no] by (simp add: drop_bit_eq_div)
  ultimately show False using sz(2) by (simp add: drop_bit_eq_div)
qed

lemma init_ok:
  assumes "0 < a" "a + unat sz \<le> 2 ^ 64" "fixed_heap_init (W a) sz m = Some (h, m')"
  shows "h = W a \<and> heap_inv a (unat sz) m' \<and> heap_segs a (unat sz) m' = [(unat sz, False)]"
proof -
  have sz: "is_pow2 sz" "24 \<le> sz" "h = W a" "m' = m(W a := \<lparr>tag_next = 0, tag_data = sz\<rparr>)"
    using assms(3) by (auto simp: fixed_heap_init_def split: if_splits)
  have "heap_ok a (unat sz) m' [(unat sz, False)]"
    using is_pow2_dvd8 [OF sz(1,2)] assms(1,2) sz by (auto simp: heap_ok_def seg_ok_def tag_of_def W_unat word_le_nat_alt)
  then show ?thesis using heap_invI heap_segs sz(3) by simp
qed

text \<open>The memory handed out: a block without its tag.\<close>

definition payload :: "nat \<times> nat \<Rightarrow> nat \<times> nat" where
  "payload b = (fst b + 16, snd b - 16)"

definition live :: "nat \<Rightarrow> nat \<Rightarrow> tag_mem \<Rightarrow> (nat \<times> nat) set" where
  "live a k m = payload ` blocks a (heap_segs a k m)"

definition heap_alloc :: "nat \<Rightarrow> tag_mem \<Rightarrow> nat \<Rightarrow> (nat option \<times> tag_mem) option" where
  "heap_alloc a m n = map_option (\<lambda>(r, m). (if r = 0 then None else Some (unat r), m)) (fixed_heap_alloc (W a) (W n) m)"

definition heap_free :: "nat \<Rightarrow> tag_mem \<Rightarrow> nat \<Rightarrow> nat \<Rightarrow> tag_mem option" where
  "heap_free a m p n = fixed_heap_free (W a) (W p) m"

lemma block_size:
  assumes "heap_ok a k m ss" "(p, n) \<in> blocks a ss"
  shows "24 \<le> n" "a \<le> p" "p + n \<le> a + k" "p + n \<le> 2 ^ 64" "0 < p"
  using blocks_inside [OF assms(2)] assms(1) by (auto simp: heap_ok_def seg_ok_def)

lemma blocks_take:
  assumes "t \<le> n"
  obtains len where "t \<le> len" "blocks a (xs @ cut t n @ ys) = insert (a + span xs, len) (blocks a (xs @ (n, False) # ys))"
proof (cases "t < n \<and> 24 < n - t")
  case True
  then show thesis using that [of t] blocks_cut [of a xs t "n - t" ys] assms by (simp add: cut_def)
next
  case False
  then have "cut t n = [(n, True)]" by (simp only: cut_def if_False)
  then show thesis using that [of n] blocks_alloc [of a xs n ys] assms by simp
qed

lemma payload_inj:
  assumes "heap_ok a k m ss" "(p, n) \<in> blocks a ss"
  shows "payload ` blocks a ss - {payload (p, n)} = payload ` (blocks a ss - {(p, n)})"
  using block_size(1) [OF assms(1)] block_size(1) [OF assms] by (force simp: payload_def)

lemma live_alloc:
  assumes "heap_inv a k m" "0 < n" "n \<le> 2 ^ 64 - 32"
  shows "\<exists>r m'. heap_alloc a m n = Some (r, m') \<and> heap_inv a k m' \<and>
      (case r of None \<Rightarrow> live a k m' = live a k m
       | Some p \<Rightarrow> \<exists>len. n \<le> len \<and> (p, len) \<notin> live a k m \<and> live a k m' = insert (p, len) (live a k m))"
proof -
  define ss where "ss = heap_segs a k m"
  have ok: "heap_ok a k m ss" "coalesced ss" using assms(1) by (simp_all add: heap_inv_def ss_def)
  define t where "t = round_up n 8 + 16"
  have sz: "W n \<noteq> 0" "unat (W n) = n" using assms(2,3) W_eq [of n 0] by (simp_all add: unat_W)
  have t: "n + 16 \<le> t" using round_up_nat(1) [of 8 n] by (simp add: t_def)
  consider (none) "fixed_heap_alloc (W a) (W n) m = Some (0, m)"
    | (some) xs f ys m' where "ss = xs @ (f, False) # ys" "t \<le> f" "fixed_heap_alloc (W a) (W n) m = Some (W (a + span xs + 16), m')"
        "heap_ok a k m' (xs @ cut t f @ ys)" "coalesced (xs @ cut t f @ ys)"
    using alloc_ok [OF ok sz(1)] assms(3) unfolding sz(2) t_def by blast
  then show ?thesis
  proof cases
    case none
    then show ?thesis using assms(1) by (simp add: heap_alloc_def)
  next
    case some
    let ?p = "a + span xs"
    have f: "24 \<le> f" "?p + f \<le> 2 ^ 64" "0 < a" using ok(1) by (auto simp: heap_ok_def some(1) seg_ok_def)
    have p: "W (?p + 16) \<noteq> 0" "unat (W (?p + 16)) = ?p + 16" using f W_eq [of "?p + 16" 0] by (simp_all add: unat_W)
    obtain len where len: "t \<le> len" "blocks a (xs @ cut t f @ ys) = insert (?p, len) (blocks a ss)"
      using some(1,2) by (metis blocks_take)
    have live': "live a k m' = insert (payload (?p, len)) (live a k m)"
      using len(2) heap_segs [OF some(4)] by (simp add: live_def ss_def)
    have "payload (?p, len) \<notin> live a k m"
    proof
      assume "payload (?p, len) \<in> live a k m"
      then obtain q l where q: "(q, l) \<in> blocks a ss" "q = ?p" by (auto simp: live_def ss_def [symmetric] payload_def)
      obtain us vs where us: "ss = us @ (l, True) # vs" "q = a + span us" using q(1) by (rule blocks_split)
      have "(q, l) \<in> blocks a (xs @ (f, False) # ys)" using q(1) by (simp add: some(1))
      then show False
        using q(2) f(1) block_size(1) [OF ok(1) q(1)] by (auto simp: blocks_append dest!: blocks_inside)
    qed
    then show ?thesis using some(3) p live' len(1) t heap_invI [OF some(4,5)]
      by (auto simp: heap_alloc_def payload_def intro!: exI [of _ "len - 16"])
  qed
qed

lemma live_free:
  assumes "heap_inv a k m" "(p, len) \<in> live a k m"
  shows "\<exists>m'. heap_free a m p len = Some m' \<and> heap_inv a k m' \<and> live a k m' = live a k m - {(p, len)}"
proof -
  define ss where "ss = heap_segs a k m"
  have ok: "heap_ok a k m ss" "coalesced ss" using assms(1) by (simp_all add: heap_inv_def ss_def)
  obtain q n where q: "(q, n) \<in> blocks a ss" "(p, len) = payload (q, n)"
    using assms(2) by (auto simp: live_def ss_def)
  obtain xs ys where ss: "ss = xs @ (n, True) # ys" "q = a + span xs" using q(1) by (rule blocks_split)
  obtain m' ss' where m': "fixed_heap_free (W a) (W (a + span xs + 16)) m = Some m'" "heap_ok a k m' ss'" "coalesced ss'"
      "blocks a ss' = blocks a (xs @ (n, False) # ys)"
    using free_ok [of a k m xs n ys] ok by (auto simp: ss(1))
  have "blocks a ss' = blocks a ss - {(q, n)}"
    unfolding m'(4) ss by (rule blocks_free) (use ok(1) in \<open>force simp: ss heap_ok_def seg_ok_def\<close>)
  then have "live a k m' = live a k m - {(p, len)}"
    using payload_inj [OF ok(1) q(1)] q(2) heap_segs [OF m'(2)] by (simp add: live_def ss_def)
  then show ?thesis using m' q(2) ss(2) heap_invI [OF m'(2,3)] by (simp add: heap_free_def payload_def)
qed

interpretation heap: range_allocator "heap_inv a k" "{a + 16..<a + k}" "live a k" "heap_alloc a" "heap_free a" "\<lambda>n. 0 < n \<and> n \<le> 2 ^ 64 - 32" for a k
proof unfold_locales
  fix m p l q j assume m: "heap_inv a k m" and p: "(p, l) \<in> live a k m"
  then have ok: "heap_ok a k m (heap_segs a k m)" by (simp add: heap_inv_def)
  show "{p..<p + l} \<subseteq> {a + 16..<a + k}" using p block_size [OF ok] by (fastforce simp: live_def payload_def)
  assume "(q, j) \<in> live a k m"
  then obtain p' l' q' j' where "(p', l') \<in> blocks a (heap_segs a k m)" "(q', j') \<in> blocks a (heap_segs a k m)"
      "(p, l) = payload (p', l')" "(q, j) = payload (q', j')"
    using p by (auto simp: live_def)
  then show "(p, l) = (q, j) \<or> p + l \<le> q \<or> q + j \<le> p"
    using blocks_disjoint [of p' l' a _ q' j'] block_size(1) [OF ok] by (fastforce simp: payload_def)
next
  fix m n assume "heap_inv a k m" "0 < n \<and> n \<le> 2 ^ 64 - (32::nat)"
  then show "\<exists>r st'. heap_alloc a m n = Some (r, st') \<and> heap_inv a k st' \<and>
      (case r of None \<Rightarrow> live a k st' = live a k m
       | Some p \<Rightarrow> \<exists>l. n \<le> l \<and> (p, l) \<notin> live a k m \<and> live a k st' = insert (p, l) (live a k m))"
    using live_alloc by blast
next
  fix m p l assume "heap_inv a k m" "(p, l) \<in> live a k m"
  then show "\<exists>m'. heap_free a m p l = Some m' \<and> heap_inv a k m' \<and> live a k m' = live a k m - {(p, l)}" by (rule live_free)
qed


section \<open>Properties\<close>

text \<open>
  Property C8. On a well-formed fixed heap (tags that cut the area into aligned segments, no two free
  neighbours) a request of at most 2^64 - 32 bytes returns: either no free segment has room for it with its
  tag, and the result is \<open>NULL\<close> and the memory unchanged; or it returns the address of at least as many bytes
  as asked for, inside the area and disjoint from all memory handed out, and the heap is well-formed again.
\<close>

theorem fixed_heap_alloc_correct:
  assumes "heap_inv a k m" "sz \<noteq> 0" "unat sz \<le> 2 ^ 64 - 32"
  shows "\<exists>ptr m'. fixed_heap_alloc (W a) sz m = Some (ptr, m') \<and> heap_inv a k m' \<and>
    (if ptr = 0
     then m' = m \<and> (\<forall>(n, allocated) \<in> set (heap_segs a k m). allocated \<or> n < round_up (unat sz) 8 + 16)
     else \<exists>len. unat sz \<le> len \<and> live a k m' = insert (unat ptr, len) (live a k m)
        \<and> {unat ptr..<unat ptr + len} \<subseteq> {a + 16..<a + k}
        \<and> (\<forall>(q, j) \<in> live a k m. {unat ptr..<unat ptr + len} \<inter> {q..<q + j} = {}))"
proof -
  have n: "0 < unat sz \<and> unat sz \<le> 2 ^ 64 - 32" using assms(2,3) by (simp add: unat_gt_0)
  obtain r m' where r: "heap_alloc a m (unat sz) = Some (r, m')" "heap_inv a k m'" using heap.alloc [OF assms(1) n] by blast
  obtain ptr where ptr: "fixed_heap_alloc (W a) sz m = Some (ptr, m')" "r = (if ptr = 0 then None else Some (unat ptr))"
    using r(1) by (auto simp: heap_alloc_def W_unat)
  show ?thesis
  proof (cases "ptr = 0")
    case False
    then show ?thesis using heap.alloc_fresh [OF assms(1) n] r ptr by auto
  next
    case True
    have ok: "heap_ok a k m (heap_segs a k m)" "coalesced (heap_segs a k m)" using assms(1) by (simp_all add: heap_inv_def)
    have nz: "W (a + span xs + 16) \<noteq> 0" if "heap_segs a k m = xs @ (n, False) # ys" for xs n ys
      using ok(1) W_eq [of "a + span xs + 16" 0] by (auto simp: that heap_ok_def seg_ok_def)
    have "(\<forall>s \<in> set (heap_segs a k m). \<not> fits (round_up (unat sz) 8 + 16) s) \<and> m' = m"
      using alloc_ok [OF ok assms(2,3)] ptr(1) True nz by auto
    then show ?thesis using ptr(1) True r(2) by (auto simp: fits_def)
  qed
qed

text \<open>
  Property C9. Freeing memory that the heap handed out succeeds, gives exactly that memory back, and merges
  it with free neighbours: the heap is well-formed again.
\<close>

theorem fixed_heap_free_correct:
  assumes "heap_inv a k m" "(p, len) \<in> live a k m"
  shows "\<exists>m'. fixed_heap_free (W a) (W p) m = Some m' \<and> heap_inv a k m' \<and> live a k m' = live a k m - {(p, len)}"
  using heap.free [OF assms] by (simp add: heap_free_def)

text \<open>
  Property C39. The rounding of the requested size wraps around: a request of 2^64 - 1 bytes on a fresh heap
  of 64 bytes succeeds and hands out a segment of 16 bytes, its tag.
\<close>

theorem fixed_heap_alloc_wraps:
  assumes "mem \<noteq> 0"
  shows "\<exists>h m1 m2. fixed_heap_init mem 64 m = Some (h, m1) \<and> fixed_heap_alloc h (- 1) m1 = Some (mem + 16, m2) \<and> tag_size (m2 mem) = 16"
proof -
  have r: "round_up (- 1 :: u64) 8 + 16 = 16" by (simp add: round_up_def)
  have s: "tag_size \<lparr>tag_next = 0, tag_data = 64\<rparr> = 64" "\<not> tag_allocated \<lparr>tag_next = 0, tag_data = 64\<rparr>"
    "tag_size \<lparr>tag_next = mem + 16, tag_data = 17\<rparr> = 16"
    by (simp_all add: tag_size_def tag_allocated_def)
  show ?thesis
    using assms s unfolding fixed_heap_alloc_def r
    by (simp add: fixed_heap_init_def is_pow2_def fixed_heap_search.simps [of mem] fixed_heap_take_def Let_def)
qed

definition heap_example :: tag_mem where
  "heap_example = (\<lambda>_. tag_of (32, False) 0)(0x1000 := tag_of (32, True) 0x1020)"

lemma heap_example_ok: "heap_ok 4096 64 heap_example [(32, True), (32, False)]"
  by (simp add: heap_ok_def seg_ok_def heap_example_def W_def)

lemma heap_example_inv: "heap_inv 4096 64 heap_example"
  by (rule heap_invI [OF heap_example_ok]) simp

theorem fixed_heap_alloc_correct_witness:
  "\<exists>ptr m'. fixed_heap_alloc (W 4096) 8 heap_example = Some (ptr, m') \<and> heap_inv 4096 64 m'"
  using fixed_heap_alloc_correct [OF heap_example_inv, of 8] by auto

theorem fixed_heap_free_correct_witness:
  "\<exists>m'. fixed_heap_free (W 4096) (W 4112) heap_example = Some m' \<and> heap_inv 4096 64 m'
     \<and> live 4096 64 m' = live 4096 64 heap_example - {(4112, 16)}"
proof (rule fixed_heap_free_correct [OF heap_example_inv])
  show "(4112, 16) \<in> live 4096 64 heap_example"
    using heap_segs [OF heap_example_ok] by (simp add: live_def payload_def)
qed

theorem fixed_heap_alloc_wraps_witness:
  "\<exists>h m1 m2. fixed_heap_init 0x1000 64 heap_example = Some (h, m1) \<and> fixed_heap_alloc h (- 1) m1 = Some (0x1000 + 16, m2)
    \<and> tag_size (m2 0x1000) = 16"
  by (rule fixed_heap_alloc_wraps) simp

end
