(* ===== verification/Kmem.thy ===== *)
theory Kmem
  imports Range_Alloc Bitmap
begin

text \<open>
  \<open>mm/kmem.c\<close>: the allocator of kernel address space, and the hash function of \<open>lib/fnv.h\<close> that it uses. A
  range structure is a number, its contents are in a store; the lists of the code are lists of these
  numbers: all ranges in address order, the 64 free lists by size class with their bitmap, the buckets of
  the hash table of allocations, and the pool of unused structures. The page that \<open>phys_alloc\<close> gives for new
  structures, the page tables and the page allocator are parameters.
\<close>

section \<open>Constants and data\<close>

definition KERNEL_KMEM_BASE :: u64 where "KERNEL_KMEM_BASE = 0xFFFFFF8000000000"
definition KERNEL_KMEM_SIZE :: u64 where "KERNEL_KMEM_SIZE = 0x0000007F80000000"
definition KERNEL_KMEM_END :: u64 where "KERNEL_KMEM_END = KERNEL_KMEM_BASE + KERNEL_KMEM_SIZE - 1"
definition PAGE_SIZE :: u64 where "PAGE_SIZE = 0x1000"
definition KMEM_FREELISTS :: nat where "KMEM_FREELISTS = 64"
definition KMEM_INITIAL_HASH_SIZE :: nat where "KMEM_INITIAL_HASH_SIZE = 16"
definition KMEM_REHASH_THRESHOLD :: nat where "KMEM_REHASH_THRESHOLD = 32"
definition MM_WAIT :: u32 where "MM_WAIT = push_bit 0 1"
definition MM_ATOMIC :: u32 where "MM_ATOMIC = push_bit 1 1"
definition MM_BOOT :: u32 where "MM_BOOT = push_bit 2 1"
definition MM_ZERO :: u32 where "MM_ZERO = push_bit 3 1"

record kmem_range =
  kr_addr :: u64
  kr_size :: u64
  kr_allocated :: bool

record kmem =
  kr :: "nat \<Rightarrow> kmem_range"
  kmem_ranges :: "nat list"
  kmem_freelists :: "nat list list"
  kmem_freemap :: u64
  kmem_hash :: "nat list list"
  kmem_rehash_requested :: bool
  kmem_range_pool :: "nat list"

definition upd_range :: "nat \<Rightarrow> (kmem_range \<Rightarrow> kmem_range) \<Rightarrow> kmem \<Rightarrow> kmem" where
  "upd_range r f s = s\<lparr>kr := (kr s)(r := f (kr s r))\<rparr>"

section \<open>Hashing\<close>

fun fnv_loop :: "nat \<Rightarrow> u64 \<Rightarrow> u32 \<Rightarrow> u32" where
  "fnv_loop 0 val hash = hash"
| "fnv_loop (Suc i) val hash = fnv_loop i (drop_bit 8 val) ((hash * 16777619) XOR ucast (val AND 0xFF))"

definition fnv_hash_integer :: "u64 \<Rightarrow> u32" where
  "fnv_hash_integer val = fnv_loop 8 val 2166136261"

section \<open>Lists of ranges\<close>

text \<open>Unlinking \<open>af_link\<close> takes a range out of the free list or bucket that holds it.\<close>

definition af_remove :: "nat \<Rightarrow> kmem \<Rightarrow> kmem" where
  "af_remove r s = s\<lparr>kmem_freelists := map (remove1 r) (kmem_freelists s), kmem_hash := map (remove1 r) (kmem_hash s)\<rparr>"

fun list_next :: "nat \<Rightarrow> nat list \<Rightarrow> nat option" where
  "list_next x (y # z # zs) = (if x = y then Some z else list_next x (z # zs))"
| "list_next x _ = None"

definition list_prev :: "nat \<Rightarrow> nat list \<Rightarrow> nat option" where
  "list_prev x xs = list_next x (rev xs)"

fun list_add_after :: "nat \<Rightarrow> nat \<Rightarrow> nat list \<Rightarrow> nat list" where
  "list_add_after x y [] = []"
| "list_add_after x y (z # zs) = (if x = z then z # y # zs else z # list_add_after x y zs)"

definition init_structures :: "nat list \<Rightarrow> kmem \<Rightarrow> kmem" where
  "init_structures rs s = fold (\<lambda>r. upd_range r (kr_allocated_update (\<lambda>_. False))) rs s"

text \<open>\<open>refill\<close> has the structures in the page that \<open>phys_alloc\<close> returns.\<close>

definition kmem_range_get :: "(kmem \<Rightarrow> nat list option) \<Rightarrow> kmem \<Rightarrow> nat option \<times> kmem" where
  "kmem_range_get refill s =
     (case kmem_range_pool s of
        [] \<Rightarrow> (case refill s of
                 None \<Rightarrow> (None, s)
               | Some rs \<Rightarrow> (let s = init_structures rs s in
                   case rs of [] \<Rightarrow> (None, s) | first # rest \<Rightarrow> (Some first, s\<lparr>kmem_range_pool := rest\<rparr>)))
      | r # rs \<Rightarrow> (Some r, s\<lparr>kmem_range_pool := rs\<rparr>))"

definition kmem_range_put :: "nat \<Rightarrow> kmem \<Rightarrow> kmem" where
  "kmem_range_put r s = s\<lparr>kmem_range_pool := kmem_range_pool s @ [r]\<rparr>"

text \<open>\<open>highbit(size) - 1\<close>; for size 0 it is not an index of a list.\<close>

definition kmem_list :: "u64 \<Rightarrow> nat option" where
  "kmem_list sz = (case highbit_native sz of None \<Rightarrow> None | Some h \<Rightarrow> if h = 0 then None else Some (h - 1))"

definition kmem_freelist_insert :: "nat \<Rightarrow> kmem \<Rightarrow> kmem option" where
  "kmem_freelist_insert r s = do {
     l \<leftarrow> kmem_list (kr_size (kr s r));
     if kr_allocated (kr s r) then None
     else Some (s\<lparr>kmem_freelists := (kmem_freelists s)[l := kmem_freelists s ! l @ [r]],
                  kmem_freemap := kmem_freemap s OR push_bit l 1\<rparr>)}"

definition kmem_freelist_remove :: "nat \<Rightarrow> kmem \<Rightarrow> kmem option" where
  "kmem_freelist_remove r s = do {
     l \<leftarrow> kmem_list (kr_size (kr s r));
     let s = af_remove r s in
     Some (if kmem_freelists s ! l = [] then s\<lparr>kmem_freemap := kmem_freemap s AND NOT (push_bit l 1)\<rparr> else s)}"

function kmem_find_loop :: "nat \<Rightarrow> u64 \<Rightarrow> kmem \<Rightarrow> nat option option" where
  "kmem_find_loop i sz s =
     (if i \<ge> KMEM_FREELISTS then Some None
      else if \<not> bit (kmem_freemap s) i then kmem_find_loop (i + 1) sz s
      else if kmem_freelists s ! i = [] then None
      else case List.find (\<lambda>r. kr_size (kr s r) \<ge> sz) (kmem_freelists s ! i) of
             Some r \<Rightarrow> Some (Some r)
           | None \<Rightarrow> kmem_find_loop (i + 1) sz s)"
  by pat_completeness auto
termination by (relation "measure (\<lambda>(i, _). KMEM_FREELISTS - i)") (auto simp: KMEM_FREELISTS_def)

declare kmem_find_loop.simps [simp del]

text \<open>A shift of the bitmap by 64 is undefined behaviour.\<close>

definition kmem_freelist_find :: "u64 \<Rightarrow> kmem \<Rightarrow> nat option option" where
  "kmem_freelist_find sz s = do {
     l \<leftarrow> kmem_list sz;
     if sz AND (sz - 1) \<noteq> 0
     then if l + 1 \<ge> 64 then None
          else kmem_find_loop (if drop_bit (l + 1) (kmem_freemap s) \<noteq> 0 then l + 1 else l) sz s
     else kmem_find_loop l sz s}"

definition kmem_bucket :: "u64 \<Rightarrow> kmem \<Rightarrow> nat" where
  "kmem_bucket addr s = unat (fnv_hash_integer addr) mod length (kmem_hash s)"

definition kmem_hash_insert :: "nat \<Rightarrow> kmem \<Rightarrow> kmem" where
  "kmem_hash_insert r s = (
     let h = kmem_bucket (kr_addr (kr s r)) s
     in s\<lparr>kmem_hash := (kmem_hash s)[h := kmem_hash s ! h @ [r]]\<rparr>)"

fun kmem_hash_loop :: "nat list \<Rightarrow> u64 \<Rightarrow> nat \<Rightarrow> kmem \<Rightarrow> (nat option \<times> kmem) option" where
  "kmem_hash_loop [] addr i s = Some (None, s)"
| "kmem_hash_loop (r # rs) addr i s =
     (if \<not> kr_allocated (kr s r) then None
      else if kr_addr (kr s r) \<noteq> addr then kmem_hash_loop rs addr (i + 1) s
      else Some (Some r, if i \<ge> KMEM_REHASH_THRESHOLD \<and> \<not> kmem_rehash_requested s
                         then s\<lparr>kmem_rehash_requested := True\<rparr> else s))"

definition kmem_hash_find :: "u64 \<Rightarrow> u64 \<Rightarrow> kmem \<Rightarrow> (nat option \<times> kmem) option" where
  "kmem_hash_find addr sz s =
     (if sz = 0 \<or> addr mod PAGE_SIZE \<noteq> 0 \<or> sz mod PAGE_SIZE \<noteq> 0 then None
      else kmem_hash_loop (kmem_hash s ! kmem_bucket addr s) addr 0 s)"

section \<open>Freeing\<close>

text \<open>
  The page allocator and the page tables, with a state of any type: \<open>page_alloc\<close>, \<open>page_free\<close>,
  \<open>mmu_context_map\<close>, \<open>mmu_context_unmap\<close> (with the page that was mapped, if any) and the clearing of a range.
\<close>

record ('m, 'p) mm_ops =
  page_alloc :: "'m \<Rightarrow> ('p \<times> 'm) option"
  page_free :: "'p \<Rightarrow> 'm \<Rightarrow> 'm"
  mmu_context_map :: "u64 \<Rightarrow> 'p \<Rightarrow> 'm \<Rightarrow> status \<times> 'm"
  mmu_context_unmap :: "u64 \<Rightarrow> bool \<Rightarrow> 'm \<Rightarrow> ('p \<times> 'm) option"
  zero_range :: "u64 \<Rightarrow> u64 \<Rightarrow> 'm \<Rightarrow> 'm"

partial_function (option) kmem_unmap_loop :: "('m, 'p) mm_ops \<Rightarrow> u64 \<Rightarrow> u64 \<Rightarrow> bool \<Rightarrow> bool \<Rightarrow> u64 \<Rightarrow> 'm \<Rightarrow> 'm option" where
  "kmem_unmap_loop ops addr sz free shared i mm =
     (if i < sz
      then do {
        (page, mm) \<leftarrow> mmu_context_unmap ops (addr + i) shared mm;
        kmem_unmap_loop ops addr sz free shared (i + PAGE_SIZE) (if free then page_free ops page mm else mm)}
      else Some mm)"

text \<open>The two merges with a free neighbour.\<close>

definition kmem_merge_next :: "nat \<Rightarrow> kmem \<Rightarrow> kmem option" where
  "kmem_merge_next r s =
     (case list_next r (kmem_ranges s) of
        None \<Rightarrow> Some s
      | Some exist \<Rightarrow>
          if kr_allocated (kr s exist) then Some s
          else do {
            let s = upd_range r (\<lambda>x. x\<lparr>kr_size := kr_size x + kr_size (kr s exist)\<rparr>) s;
            s \<leftarrow> kmem_freelist_remove exist s;
            Some (kmem_range_put exist (s\<lparr>kmem_ranges := remove1 exist (kmem_ranges s)\<rparr>))})"

definition kmem_merge_prev :: "nat \<Rightarrow> kmem \<Rightarrow> kmem option" where
  "kmem_merge_prev r s =
     (case list_prev r (kmem_ranges s) of
        None \<Rightarrow> Some s
      | Some exist \<Rightarrow>
          if kr_allocated (kr s exist) then Some s
          else do {
            let s = upd_range r (\<lambda>x. x\<lparr>kr_addr := kr_addr (kr s exist), kr_size := kr_size x + kr_size (kr s exist)\<rparr>) s;
            s \<leftarrow> kmem_freelist_remove exist s;
            Some (kmem_range_put exist (s\<lparr>kmem_ranges := remove1 exist (kmem_ranges s)\<rparr>))})"

definition kmem_free_range :: "nat \<Rightarrow> kmem \<Rightarrow> kmem option" where
  "kmem_free_range r s = do {
     let s = upd_range r (kr_allocated_update (\<lambda>_. False)) s;
     s \<leftarrow> kmem_merge_next r s;
     s \<leftarrow> kmem_merge_prev r s;
     kmem_freelist_insert r s}"

definition kmem_free_internal :: "('m, 'p) mm_ops \<Rightarrow> u64 \<Rightarrow> u64 \<Rightarrow> bool \<Rightarrow> bool \<Rightarrow> bool \<Rightarrow> kmem \<Rightarrow> 'm \<Rightarrow> (kmem \<times> 'm) option" where
  "kmem_free_internal ops addr sz unmap free shared s mm = do {
     (r, s) \<leftarrow> kmem_hash_find addr sz s;
     r \<leftarrow> r;
     if kr_size (kr s r) \<noteq> sz then None
     else do {
       let s = af_remove r s;
       mm \<leftarrow> (if unmap then kmem_unmap_loop ops addr sz free shared 0 mm else Some mm);
       s \<leftarrow> kmem_free_range r s;
       Some (s, mm)}}"

definition kmem_raw_free :: "('m, 'p) mm_ops \<Rightarrow> u64 \<Rightarrow> u64 \<Rightarrow> kmem \<Rightarrow> 'm \<Rightarrow> (kmem \<times> 'm) option" where
  "kmem_raw_free ops addr sz s mm = kmem_free_internal ops addr sz False False False s mm"

definition kmem_free :: "('m, 'p) mm_ops \<Rightarrow> u64 \<Rightarrow> u64 \<Rightarrow> kmem \<Rightarrow> 'm \<Rightarrow> (kmem \<times> 'm) option" where
  "kmem_free ops addr sz s mm = kmem_free_internal ops addr sz True True True s mm"

definition kmem_unmap :: "('m, 'p) mm_ops \<Rightarrow> u64 \<Rightarrow> u64 \<Rightarrow> bool \<Rightarrow> kmem \<Rightarrow> 'm \<Rightarrow> (kmem \<times> 'm) option" where
  "kmem_unmap ops addr sz shared s mm = kmem_free_internal ops addr sz True False shared s mm"

section \<open>Allocation\<close>

text \<open>Splitting the range, if necessary; if there is no structure for the rest, the range is put back.\<close>

definition kmem_split :: "(kmem \<Rightarrow> nat list option) \<Rightarrow> nat \<Rightarrow> u64 \<Rightarrow> kmem \<Rightarrow> (bool \<times> kmem) option" where
  "kmem_split refill r sz s =
     (if kr_size (kr s r) > sz
      then case kmem_range_get refill s of
             (None, s) \<Rightarrow> do {s \<leftarrow> kmem_freelist_insert r s; Some (False, s)}
           | (Some split, s) \<Rightarrow> do {
               let s = upd_range split (\<lambda>x. x\<lparr>kr_addr := kr_addr (kr s r) + sz, kr_size := kr_size (kr s r) - sz\<rparr>) s;
               let s = s\<lparr>kmem_ranges := list_add_after r split (kmem_ranges s)\<rparr>;
               s \<leftarrow> kmem_freelist_insert split s;
               Some (True, upd_range r (kr_size_update (\<lambda>_. sz)) s)}
      else Some (True, s))"

definition kmem_raw_alloc :: "(kmem \<Rightarrow> nat list option) \<Rightarrow> u64 \<Rightarrow> u32 \<Rightarrow> kmem \<Rightarrow> (u64 \<times> kmem) option" where
  "kmem_raw_alloc refill sz mmflag s =
     (if sz = 0 \<or> sz mod PAGE_SIZE \<noteq> 0 \<or> mmflag AND (MM_WAIT OR MM_ATOMIC) = MM_WAIT OR MM_ATOMIC then None
      else do {
        found \<leftarrow> kmem_freelist_find sz s;
        case found of
          None \<Rightarrow> if mmflag AND MM_BOOT \<noteq> 0 \<or> mmflag AND MM_WAIT \<noteq> 0 then None else Some (0, s)
        | Some r \<Rightarrow> do {
            s \<leftarrow> kmem_freelist_remove r s;
            (ok, s) \<leftarrow> kmem_split refill r sz s;
            if ok
            then do {
              let s = kmem_hash_insert r (upd_range r (kr_allocated_update (\<lambda>_. True)) s);
              Some (kr_addr (kr s r), s)}
            else Some (0, s)}})"

text \<open>Backing a range with new pages. The loop stops at the first page that cannot be had or mapped.\<close>

partial_function (option) kmem_alloc_loop :: "('m, 'p) mm_ops \<Rightarrow> u64 \<Rightarrow> u64 \<Rightarrow> u64 \<Rightarrow> 'm \<Rightarrow> (bool \<times> u64 \<times> 'm) option" where
  "kmem_alloc_loop ops addr sz i mm =
     (if i < sz
      then case page_alloc ops mm of
             None \<Rightarrow> Some (False, i, mm)
           | Some (page, mm) \<Rightarrow>
               (case mmu_context_map ops (addr + i) page mm of
                  (ret, mm) \<Rightarrow>
                    if ret \<noteq> STATUS_SUCCESS then Some (False, i, page_free ops page mm)
                    else kmem_alloc_loop ops addr sz (i + PAGE_SIZE) mm)
      else Some (True, i, mm))"

partial_function (option) kmem_undo_loop :: "('m, 'p) mm_ops \<Rightarrow> u64 \<Rightarrow> bool \<Rightarrow> u64 \<Rightarrow> 'm \<Rightarrow> 'm option" where
  "kmem_undo_loop ops addr free i mm =
     (if i \<noteq> 0
      then do {
        (page, mm) \<leftarrow> mmu_context_unmap ops (addr + (i - PAGE_SIZE)) True mm;
        kmem_undo_loop ops addr free (i - PAGE_SIZE) (if free then page_free ops page mm else mm)}
      else Some mm)"

definition kmem_alloc :: "('m, 'p) mm_ops \<Rightarrow> (kmem \<Rightarrow> nat list option) \<Rightarrow> u64 \<Rightarrow> u32 \<Rightarrow> kmem \<Rightarrow> 'm \<Rightarrow> (u64 \<times> kmem \<times> 'm) option" where
  "kmem_alloc ops refill sz mmflag s mm = do {
     (addr, s) \<leftarrow> kmem_raw_alloc refill sz mmflag s;
     if addr = 0 then Some (0, s, mm)
     else do {
       (ok, i, mm) \<leftarrow> kmem_alloc_loop ops addr sz 0 mm;
       if ok then Some (addr, s, if mmflag AND MM_ZERO \<noteq> 0 then zero_range ops addr sz mm else mm)
       else do {
         mm \<leftarrow> kmem_undo_loop ops addr True i mm;
         (s, mm) \<leftarrow> kmem_raw_free ops addr sz s mm;
         Some (0, s, mm)}}}"

text \<open>Mapping given pages: page number \<open>j\<close> of the physical range is \<open>phys j\<close>.\<close>

partial_function (option) kmem_map_loop :: "('m, 'p) mm_ops \<Rightarrow> (u64 \<Rightarrow> 'p) \<Rightarrow> u64 \<Rightarrow> u64 \<Rightarrow> u64 \<Rightarrow> 'm \<Rightarrow> (bool \<times> u64 \<times> 'm) option" where
  "kmem_map_loop ops phys addr sz i mm =
     (if i < sz
      then case mmu_context_map ops (addr + i) (phys i) mm of
             (ret, mm) \<Rightarrow> if ret \<noteq> STATUS_SUCCESS then Some (False, i, mm)
                         else kmem_map_loop ops phys addr sz (i + PAGE_SIZE) mm
      else Some (True, i, mm))"

definition kmem_map :: "('m, 'p) mm_ops \<Rightarrow> (u64 \<Rightarrow> 'p) \<Rightarrow> (kmem \<Rightarrow> nat list option) \<Rightarrow> u64 \<Rightarrow> u64 \<Rightarrow> u32 \<Rightarrow> kmem \<Rightarrow> 'm \<Rightarrow> (u64 \<times> kmem \<times> 'm) option" where
  "kmem_map ops phys refill base sz mmflag s mm =
     (if base mod PAGE_SIZE \<noteq> 0 then None
      else do {
        (addr, s) \<leftarrow> kmem_raw_alloc refill sz mmflag s;
        if addr = 0 then Some (0, s, mm)
        else do {
          (ok, i, mm) \<leftarrow> kmem_map_loop ops (\<lambda>i. phys (base + i)) addr sz 0 mm;
          if ok then Some (addr, s, mm)
          else do {
            mm \<leftarrow> kmem_undo_loop ops addr False i mm;
            (s, mm) \<leftarrow> kmem_raw_free ops addr sz s mm;
            Some (0, s, mm)}}})"

section \<open>Initialisation\<close>

text \<open>The scan of the loader's virtual ranges, given by their start and size.\<close>

fun kmem_boot_scan :: "(u64 \<times> u64) list \<Rightarrow> u64 \<Rightarrow> u64 option" where
  "kmem_boot_scan [] boot_end = Some boot_end"
| "kmem_boot_scan ((start, sz) # tags) boot_end =
     (if start < KERNEL_KMEM_BASE \<or> start + sz - 1 > KERNEL_KMEM_END then kmem_boot_scan tags boot_end
      else if start \<noteq> boot_end then None
      else kmem_boot_scan tags (start + sz))"

definition kmem_add_range :: "(kmem \<Rightarrow> nat list option) \<Rightarrow> u64 \<Rightarrow> u64 \<Rightarrow> kmem \<Rightarrow> (nat \<times> kmem) option" where
  "kmem_add_range refill addr sz s =
     (case kmem_range_get refill s of
        (None, _) \<Rightarrow> None
      | (Some r, s) \<Rightarrow> Some (r, (upd_range r (\<lambda>x. x\<lparr>kr_addr := addr, kr_size := sz\<rparr>) s)\<lparr>kmem_ranges := kmem_ranges s @ [r]\<rparr>))"

definition kmem_boot_range :: "(kmem \<Rightarrow> nat list option) \<Rightarrow> u64 \<Rightarrow> kmem \<Rightarrow> kmem option" where
  "kmem_boot_range refill boot_end s =
     (if boot_end \<noteq> KERNEL_KMEM_BASE
      then do {
        (r, s) \<leftarrow> kmem_add_range refill KERNEL_KMEM_BASE (boot_end - KERNEL_KMEM_BASE) s;
        Some (kmem_hash_insert r (upd_range r (kr_allocated_update (\<lambda>_. True)) s))}
      else Some s)"

definition kmem_init :: "(kmem \<Rightarrow> nat list option) \<Rightarrow> (u64 \<times> u64) list \<Rightarrow> (nat \<Rightarrow> kmem_range) \<Rightarrow> kmem option" where
  "kmem_init refill tags structures = do {
     let s = \<lparr>kr = structures, kmem_ranges = [], kmem_freelists = replicate KMEM_FREELISTS [], kmem_freemap = 0,
              kmem_hash = replicate KMEM_INITIAL_HASH_SIZE [], kmem_rehash_requested = False, kmem_range_pool = []\<rparr>;
     boot_end \<leftarrow> kmem_boot_scan tags KERNEL_KMEM_BASE;
     s \<leftarrow> kmem_boot_range refill boot_end s;
     (r, s) \<leftarrow> kmem_add_range refill boot_end (KERNEL_KMEM_SIZE - (boot_end - KERNEL_KMEM_BASE)) s;
     kmem_freelist_insert r s}"

text \<open>The second scan, after start-up, does not check that the ranges are contiguous.\<close>

fun kmem_late_scan :: "(u64 \<times> u64) list \<Rightarrow> u64 \<Rightarrow> u64" where
  "kmem_late_scan [] boot_end = boot_end"
| "kmem_late_scan ((start, sz) # tags) boot_end =
     (if start < KERNEL_KMEM_BASE \<or> start + sz - 1 > KERNEL_KMEM_END then kmem_late_scan tags boot_end
      else kmem_late_scan tags (start + sz))"

definition kmem_late_init :: "('m, 'p) mm_ops \<Rightarrow> (u64 \<times> u64) list \<Rightarrow> kmem \<Rightarrow> 'm \<Rightarrow> (kmem \<times> 'm) option" where
  "kmem_late_init ops tags s mm = (
     let boot_end = kmem_late_scan tags KERNEL_KMEM_BASE
     in if boot_end \<noteq> KERNEL_KMEM_BASE then kmem_unmap ops KERNEL_KMEM_BASE (boot_end - KERNEL_KMEM_BASE) True s mm
        else Some (s, mm))"

declare kmem_unmap_loop.simps [code] kmem_alloc_loop.simps [code] kmem_undo_loop.simps [code] kmem_map_loop.simps [code]

section \<open>Lists by class\<close>

text \<open>A family of lists that sorts the elements of a set by an index.\<close>

definition classes :: "nat list list \<Rightarrow> (nat \<Rightarrow> bool) \<Rightarrow> (nat \<Rightarrow> nat) \<Rightarrow> bool" where
  "classes ls P f \<longleftrightarrow> (\<forall>l < length ls. distinct (ls ! l) \<and> (\<forall>x. x \<in> set (ls ! l) \<longleftrightarrow> P x \<and> f x = l)) \<and> (\<forall>x. P x \<longrightarrow> f x < length ls)"

lemma classes_cong:
  assumes "\<And>x. P x = Q x" "\<And>x. P x \<Longrightarrow> f x = g x"
  shows "classes ls P f = classes ls Q g"
proof -
  have "(P x \<and> f x = l) = (Q x \<and> g x = l)" "(P x \<longrightarrow> f x < n) = (Q x \<longrightarrow> g x < n)" for x l n using assms by auto
  then show ?thesis by (simp only: classes_def)
qed

lemma classes_insert:
  assumes "classes ls P f" "\<not> P x" "f x < length ls"
  shows "classes (ls[f x := ls ! f x @ [x]]) (\<lambda>y. P y \<or> y = x) f"
  using assms by (auto simp: classes_def nth_list_update)

lemma classes_remove:
  assumes "classes ls P f"
  shows "classes (map (remove1 x) ls) (\<lambda>y. P y \<and> y \<noteq> x) f"
  using assms by (auto simp: classes_def)

lemma classes_mem: "classes ls P f \<Longrightarrow> P x \<Longrightarrow> f x < length ls \<and> x \<in> set (ls ! f x)"
  by (auto simp: classes_def)

definition lidx :: "u64 \<Rightarrow> nat" where
  "lidx sz = (case fls sz of Some l \<Rightarrow> l | None \<Rightarrow> 0)"

lemma kmem_list_eq:
  assumes "sz \<noteq> 0"
  shows "kmem_list sz = Some (lidx sz)" "lidx sz < 64" "2 ^ lidx sz \<le> unat sz" "unat sz < 2 ^ Suc (lidx sz)"
proof -
  obtain l where "fls sz = Some l" using fls_nonzero [OF assms] by blast
  then show "kmem_list sz = Some (lidx sz)" "lidx sz < 64" "2 ^ lidx sz \<le> unat sz" "unat sz < 2 ^ Suc (lidx sz)"
    using assms fls_bounds by (simp_all add: kmem_list_def highbit_native_def lidx_def)
qed

lemma lidx_less: "lidx sz < 64"
  using fls_bounds(1) [of sz] by (auto simp: lidx_def split: option.splits)

abbreviation is_alloc :: "kmem \<Rightarrow> nat \<Rightarrow> bool" where "is_alloc s r \<equiv> kr_allocated (kr s r)"
abbreviation size_of :: "kmem \<Rightarrow> nat \<Rightarrow> u64" where "size_of s r \<equiv> kr_size (kr s r)"
abbreviation addr_of :: "kmem \<Rightarrow> nat \<Rightarrow> u64" where "addr_of s r \<equiv> kr_addr (kr s r)"

definition bucket :: "u64 \<Rightarrow> nat" where
  "bucket addr = unat (fnv_hash_integer addr) mod KMEM_INITIAL_HASH_SIZE"

text \<open>The free lists and the hash table hold the ranges outside \<open>X\<close>, each in its place.\<close>

definition lists_ok :: "kmem \<Rightarrow> nat set \<Rightarrow> bool" where
  "lists_ok s X \<longleftrightarrow> length (kmem_freelists s) = 64 \<and> length (kmem_hash s) = KMEM_INITIAL_HASH_SIZE
     \<and> classes (kmem_freelists s) (\<lambda>x. x \<in> set (kmem_ranges s) - X \<and> \<not> is_alloc s x) (\<lambda>x. lidx (size_of s x))
     \<and> classes (kmem_hash s) (\<lambda>x. x \<in> set (kmem_ranges s) - X \<and> is_alloc s x) (\<lambda>x. bucket (addr_of s x))
     \<and> (\<forall>l<64. bit (kmem_freemap s) l \<longleftrightarrow> kmem_freelists s ! l \<noteq> [])"

lemma lists_ok_cong:
  assumes "lists_ok s X" "kmem_freelists s' = kmem_freelists s" "kmem_hash s' = kmem_hash s" "kmem_freemap s' = kmem_freemap s"
    and "set (kmem_ranges s') - X' = set (kmem_ranges s) - X" "\<And>x. x \<in> set (kmem_ranges s) - X \<Longrightarrow> kr s' x = kr s x"
  shows "lists_ok s' X'"
proof -
  have "classes (kmem_freelists s) (\<lambda>x. x \<in> set (kmem_ranges s') - X' \<and> \<not> is_alloc s' x) (\<lambda>x. lidx (size_of s' x))"
    using assms(1) unfolding lists_ok_def assms(5) using assms(6)
    by (subst classes_cong [where g = "\<lambda>x. lidx (size_of s x)" and Q = "\<lambda>x. x \<in> set (kmem_ranges s) - X \<and> \<not> is_alloc s x"]) auto
  moreover have "classes (kmem_hash s) (\<lambda>x. x \<in> set (kmem_ranges s') - X' \<and> is_alloc s' x) (\<lambda>x. bucket (addr_of s' x))"
    using assms(1) unfolding lists_ok_def assms(5) using assms(6)
    by (subst classes_cong [where g = "\<lambda>x. bucket (addr_of s x)" and Q = "\<lambda>x. x \<in> set (kmem_ranges s) - X \<and> is_alloc s x"]) auto
  ultimately show ?thesis using assms(1-4) by (simp add: lists_ok_def)
qed

lemma freelist_remove_ok:
  assumes "lists_ok s X" "r \<in> set (kmem_ranges s) - X" "\<not> is_alloc s r" "size_of s r \<noteq> 0"
  obtains s' where "kmem_freelist_remove r s = Some s'" "lists_ok s' (insert r X)" "kr s' = kr s" "kmem_ranges s' = kmem_ranges s"
    "kmem_range_pool s' = kmem_range_pool s"
proof -
  let ?l = "lidx (size_of s r)"
  let ?fl = "map (remove1 r) (kmem_freelists s)"
  define s' where "s' = (let s = af_remove r s in
    if kmem_freelists s ! ?l = [] then s\<lparr>kmem_freemap := kmem_freemap s AND NOT (push_bit ?l 1)\<rparr> else s)"
  have l: "?l < 64" by (rule lidx_less)
  have ok: "length (kmem_freelists s) = 64" "length (kmem_hash s) = KMEM_INITIAL_HASH_SIZE"
     "classes (kmem_freelists s) (\<lambda>x. x \<in> set (kmem_ranges s) - X \<and> \<not> is_alloc s x) (\<lambda>x. lidx (size_of s x))"
     "classes (kmem_hash s) (\<lambda>x. x \<in> set (kmem_ranges s) - X \<and> is_alloc s x) (\<lambda>x. bucket (addr_of s x))"
     "\<And>k. k < 64 \<Longrightarrow> bit (kmem_freemap s) k \<longleftrightarrow> kmem_freelists s ! k \<noteq> []"
    using assms(1) by (auto simp: lists_ok_def)
  have fields: "kmem_freelists s' = ?fl" "kmem_hash s' = map (remove1 r) (kmem_hash s)" "kr s' = kr s" "kmem_ranges s' = kmem_ranges s"
    "kmem_range_pool s' = kmem_range_pool s" "kmem_freemap s' = (if ?fl ! ?l = [] then kmem_freemap s AND NOT (push_bit ?l 1) else kmem_freemap s)"
    by (simp_all add: s'_def Let_def af_remove_def)
  have run: "kmem_freelist_remove r s = Some s'"
    using kmem_list_eq [OF assms(4)] by (simp add: kmem_freelist_remove_def s'_def Let_def)
  have "classes ?fl (\<lambda>x. x \<in> set (kmem_ranges s) - insert r X \<and> \<not> is_alloc s x) (\<lambda>x. lidx (size_of s x))"
    by (rule classes_cong [THEN iffD1, OF _ _ classes_remove [OF ok(3), of r]]) auto
  moreover have "classes (map (remove1 r) (kmem_hash s)) (\<lambda>x. x \<in> set (kmem_ranges s) - insert r X \<and> is_alloc s x) (\<lambda>x. bucket (addr_of s x))"
    by (rule classes_cong [THEN iffD1, OF _ _ classes_remove [OF ok(4), of r]]) auto
  moreover have "bit (kmem_freemap s') k \<longleftrightarrow> ?fl ! k \<noteq> []" if "k < 64" for k
  proof (cases "k = ?l")
    case True
    have "r \<in> set (kmem_freelists s ! ?l)" using classes_mem [OF ok(3), of r] assms(2,3) by simp
    then have "kmem_freelists s ! ?l \<noteq> []" by auto
    then show ?thesis using ok(5) [OF l] l True by (simp add: fields bit_simps)
  next
    case False
    have "r \<notin> set (kmem_freelists s ! k)" using ok(3) that ok(1) False by (auto simp: classes_def)
    then have "?fl ! k = kmem_freelists s ! k" using that ok(1) by (simp add: remove1_idem)
    then show ?thesis using ok(5) [OF that] that False by (simp add: fields bit_simps)
  qed
  ultimately have "lists_ok s' (insert r X)" using ok(1,2) by (simp add: lists_ok_def fields)
  with run fields show thesis using that by blast
qed

lemma freelist_insert_ok:
  assumes "lists_ok s (insert r X)" "r \<notin> X" "r \<in> set (kmem_ranges s)" "\<not> is_alloc s r" "size_of s r \<noteq> 0"
  obtains s' where "kmem_freelist_insert r s = Some s'" "lists_ok s' X" "kr s' = kr s" "kmem_ranges s' = kmem_ranges s"
    "kmem_range_pool s' = kmem_range_pool s"
proof -
  let ?l = "lidx (size_of s r)"
  let ?fl = "(kmem_freelists s)[?l := kmem_freelists s ! ?l @ [r]]"
  define s' where "s' = s\<lparr>kmem_freelists := ?fl, kmem_freemap := kmem_freemap s OR push_bit ?l 1\<rparr>"
  have l: "?l < 64" by (rule lidx_less)
  have ok: "length (kmem_freelists s) = 64" "length (kmem_hash s) = KMEM_INITIAL_HASH_SIZE"
     "classes (kmem_freelists s) (\<lambda>x. x \<in> set (kmem_ranges s) - insert r X \<and> \<not> is_alloc s x) (\<lambda>x. lidx (size_of s x))"
     "classes (kmem_hash s) (\<lambda>x. x \<in> set (kmem_ranges s) - insert r X \<and> is_alloc s x) (\<lambda>x. bucket (addr_of s x))"
     "\<And>k. k < 64 \<Longrightarrow> bit (kmem_freemap s) k \<longleftrightarrow> kmem_freelists s ! k \<noteq> []"
    using assms(1) by (auto simp: lists_ok_def)
  have run: "kmem_freelist_insert r s = Some s'"
    using kmem_list_eq [OF assms(5)] assms(4) by (simp add: kmem_freelist_insert_def s'_def)
  have "classes ?fl (\<lambda>x. x \<in> set (kmem_ranges s) - X \<and> \<not> is_alloc s x) (\<lambda>x. lidx (size_of s x))"
    using assms(2-4) ok(1) l by (intro classes_cong [THEN iffD1, OF _ _ classes_insert [OF ok(3), of r]]) auto
  moreover have "classes (kmem_hash s) (\<lambda>x. x \<in> set (kmem_ranges s) - X \<and> is_alloc s x) (\<lambda>x. bucket (addr_of s x))"
    using assms(4) by (intro classes_cong [THEN iffD1, OF _ _ ok(4)]) auto
  moreover have "bit (kmem_freemap s') k \<longleftrightarrow> ?fl ! k \<noteq> []" if "k < 64" for k
    using ok(5) [OF that] that l ok(1) by (cases "k = ?l") (auto simp: s'_def bit_simps)
  ultimately have "lists_ok s' X" using ok(1,2) by (simp add: lists_ok_def s'_def)
  with run show thesis using that [of s'] by (simp add: s'_def)
qed


lemma kmem_bucket_eq: "lists_ok s X \<Longrightarrow> kmem_bucket addr s = bucket addr"
  by (simp add: kmem_bucket_def bucket_def lists_ok_def)

lemma bucket_less: "bucket addr < KMEM_INITIAL_HASH_SIZE"
  by (simp add: bucket_def KMEM_INITIAL_HASH_SIZE_def)

lemma hash_insert_ok:
  assumes "lists_ok s (insert r X)" "r \<notin> X" "r \<in> set (kmem_ranges s)" "is_alloc s r"
  shows "lists_ok (kmem_hash_insert r s) X" "kr (kmem_hash_insert r s) = kr s" "kmem_ranges (kmem_hash_insert r s) = kmem_ranges s"
    "kmem_range_pool (kmem_hash_insert r s) = kmem_range_pool s"
proof -
  let ?h = "bucket (addr_of s r)"
  have eq: "kmem_hash_insert r s = s\<lparr>kmem_hash := (kmem_hash s)[?h := kmem_hash s ! ?h @ [r]]\<rparr>"
    by (simp add: kmem_hash_insert_def Let_def kmem_bucket_eq [OF assms(1)])
  have ok: "length (kmem_hash s) = KMEM_INITIAL_HASH_SIZE"
     "classes (kmem_freelists s) (\<lambda>x. x \<in> set (kmem_ranges s) - insert r X \<and> \<not> is_alloc s x) (\<lambda>x. lidx (size_of s x))"
     "classes (kmem_hash s) (\<lambda>x. x \<in> set (kmem_ranges s) - insert r X \<and> is_alloc s x) (\<lambda>x. bucket (addr_of s x))"
    using assms(1) by (auto simp: lists_ok_def)
  have "classes ((kmem_hash s)[?h := kmem_hash s ! ?h @ [r]]) (\<lambda>x. x \<in> set (kmem_ranges s) - X \<and> is_alloc s x) (\<lambda>x. bucket (addr_of s x))"
    using assms(2-4) ok(1) bucket_less by (intro classes_cong [THEN iffD1, OF _ _ classes_insert [OF ok(3), of r]]) auto
  moreover have "classes (kmem_freelists s) (\<lambda>x. x \<in> set (kmem_ranges s) - X \<and> \<not> is_alloc s x) (\<lambda>x. lidx (size_of s x))"
    using assms(4) by (intro classes_cong [THEN iffD1, OF _ _ ok(2)]) auto
  ultimately show "lists_ok (kmem_hash_insert r s) X" using assms(1) by (simp add: lists_ok_def eq)
  show "kr (kmem_hash_insert r s) = kr s" "kmem_ranges (kmem_hash_insert r s) = kmem_ranges s"
    "kmem_range_pool (kmem_hash_insert r s) = kmem_range_pool s" by (simp_all add: eq)
qed

lemma hash_remove_ok:
  assumes "lists_ok s X" "r \<in> set (kmem_ranges s) - X" "is_alloc s r"
  shows "lists_ok (af_remove r s) (insert r X)"
proof -
  have ok: "length (kmem_freelists s) = 64"
     "classes (kmem_freelists s) (\<lambda>x. x \<in> set (kmem_ranges s) - X \<and> \<not> is_alloc s x) (\<lambda>x. lidx (size_of s x))"
     "classes (kmem_hash s) (\<lambda>x. x \<in> set (kmem_ranges s) - X \<and> is_alloc s x) (\<lambda>x. bucket (addr_of s x))"
    using assms(1) by (auto simp: lists_ok_def)
  have same: "map (remove1 r) (kmem_freelists s) = kmem_freelists s"
  proof (rule map_idI)
    fix l assume "l \<in> set (kmem_freelists s)"
    then obtain i where "i < length (kmem_freelists s)" "l = kmem_freelists s ! i" by (auto simp: in_set_conv_nth)
    then have "r \<notin> set l" using ok(2) assms(3) by (auto simp: classes_def)
    then show "remove1 r l = l" by (rule remove1_idem)
  qed
  have "classes (map (remove1 r) (kmem_hash s)) (\<lambda>x. x \<in> set (kmem_ranges s) - insert r X \<and> is_alloc s x) (\<lambda>x. bucket (addr_of s x))"
    by (rule classes_cong [THEN iffD1, OF _ _ classes_remove [OF ok(3), of r]]) auto
  moreover have "classes (kmem_freelists s) (\<lambda>x. x \<in> set (kmem_ranges s) - insert r X \<and> \<not> is_alloc s x) (\<lambda>x. lidx (size_of s x))"
    using assms(3) by (intro classes_cong [THEN iffD1, OF _ _ ok(2)]) auto
  ultimately show ?thesis using assms(1) by (simp add: lists_ok_def af_remove_def same)
qed

lemma hash_loop_ok:
  "\<forall>x \<in> set rs. is_alloc s x \<Longrightarrow> r \<in> set rs \<Longrightarrow> addr_of s r = addr \<Longrightarrow> \<forall>x \<in> set rs. addr_of s x = addr \<longrightarrow> x = r
    \<Longrightarrow> \<exists>b. kmem_hash_loop rs addr i s = Some (Some r, s\<lparr>kmem_rehash_requested := b\<rparr>)"
proof (induction rs arbitrary: i)
  case (Cons x rs)
  show ?case
  proof (cases "addr_of s x = addr")
    case True
    then have "x = r" using Cons.prems(4) by simp
    then have "kmem_hash_loop (x # rs) addr i s = Some (Some r, s\<lparr>kmem_rehash_requested := (KMEM_REHASH_THRESHOLD \<le> i \<or> kmem_rehash_requested s)\<rparr>)"
      using True Cons.prems(1) by (cases s) (auto simp: )
    then show ?thesis by blast
  next
    case False
    then have "kmem_hash_loop (x # rs) addr i s = kmem_hash_loop rs addr (i + 1) s" using Cons.prems(1) by simp
    moreover have "r \<in> set rs" using False Cons.prems(2,3) by (metis set_ConsD)
    then have "\<exists>b. kmem_hash_loop rs addr (i + 1) s = Some (Some r, s\<lparr>kmem_rehash_requested := b\<rparr>)"
      using Cons.prems(1,4) by (intro Cons.IH [OF _ _ Cons.prems(3)]) (meson list.set_intros)+
    ultimately show ?thesis by metis
  qed
qed simp

lemma hash_find_ok:
  assumes "lists_ok s X" "r \<in> set (kmem_ranges s) - X" "is_alloc s r" "sz \<noteq> 0" "sz mod PAGE_SIZE = 0" "addr_of s r mod PAGE_SIZE = 0"
    and "\<And>x. x \<in> set (kmem_ranges s) \<Longrightarrow> addr_of s x = addr_of s r \<Longrightarrow> x = r"
  shows "\<exists>b. kmem_hash_find (addr_of s r) sz s = Some (Some r, s\<lparr>kmem_rehash_requested := b\<rparr>)"
proof -
  have h: "classes (kmem_hash s) (\<lambda>x. x \<in> set (kmem_ranges s) - X \<and> is_alloc s x) (\<lambda>x. bucket (addr_of s x))" "length (kmem_hash s) = KMEM_INITIAL_HASH_SIZE"
    using assms(1) by (auto simp: lists_ok_def)
  have "\<exists>b. kmem_hash_loop (kmem_hash s ! bucket (addr_of s r)) (addr_of s r) 0 s = Some (Some r, s\<lparr>kmem_rehash_requested := b\<rparr>)"
    using classes_mem [OF h(1), of r] assms(2,3,7) h bucket_less by (intro hash_loop_ok) (auto simp: classes_def)
  then show ?thesis using assms(4-6) by (simp add: kmem_hash_find_def kmem_bucket_eq [OF assms(1)])
qed

section \<open>The search for a free range\<close>

definition free_here :: "kmem \<Rightarrow> nat set \<Rightarrow> nat \<Rightarrow> bool" where
  "free_here s X x \<longleftrightarrow> x \<in> set (kmem_ranges s) - X \<and> \<not> is_alloc s x"

lemma find_loop_ok:
  assumes "lists_ok s X"
  shows "\<exists>res. kmem_find_loop i sz s = Some res \<and> (case res of
      None \<Rightarrow> \<forall>x. free_here s X x \<longrightarrow> i \<le> lidx (size_of s x) \<longrightarrow> size_of s x < sz
    | Some r \<Rightarrow> free_here s X r \<and> sz \<le> size_of s r)"
  using assms
proof (induction i sz s rule: kmem_find_loop.induct)
  case (1 i sz s)
  have ok: "length (kmem_freelists s) = 64" "\<And>l x. l < 64 \<Longrightarrow> x \<in> set (kmem_freelists s ! l) \<longleftrightarrow> free_here s X x \<and> lidx (size_of s x) = l"
      "\<And>l. l < 64 \<Longrightarrow> bit (kmem_freemap s) l \<longleftrightarrow> kmem_freelists s ! l \<noteq> []"
    using "1.prems" by (auto simp: lists_ok_def classes_def free_here_def)
  have mono: "(\<forall>x. free_here s X x \<longrightarrow> i \<le> lidx (size_of s x) \<longrightarrow> size_of s x < sz)"
    if "\<forall>x. free_here s X x \<longrightarrow> i + 1 \<le> lidx (size_of s x) \<longrightarrow> size_of s x < sz" "\<forall>x \<in> set (kmem_freelists s ! i). size_of s x < sz" "i < 64"
    using that ok(2) [OF that(3)] by (metis Suc_eq_plus1 le_neq_implies_less Suc_leI)
  note unf = kmem_find_loop.simps [of i sz s]
  consider (end_of_lists) "64 \<le> i" | (clear) "i < 64" "\<not> bit (kmem_freemap s) i" | (set_bit) "i < 64" "bit (kmem_freemap s) i" by linarith
  then show ?case
  proof cases
    case end_of_lists
    then show ?thesis unfolding unf using lidx_less by (auto simp: KMEM_FREELISTS_def dest: le_trans) (meson leD le_trans)
  next
    case clear
    then have "\<forall>x \<in> set (kmem_freelists s ! i). size_of s x < sz" using ok(3) by simp
    then show ?thesis unfolding unf using "1.IH"(1) [OF _ _ "1.prems"] clear mono
      by (auto simp: KMEM_FREELISTS_def split: option.splits)
  next
    case set_bit
    then have ne: "kmem_freelists s ! i \<noteq> []" using ok(3) by simp
    show ?thesis
    proof (cases "List.find (\<lambda>r. sz \<le> size_of s r) (kmem_freelists s ! i)")
      case None
      then have "\<forall>x \<in> set (kmem_freelists s ! i). size_of s x < sz" by (auto simp: find_None_iff not_le)
      then show ?thesis unfolding unf using "1.IH"(2) [OF _ _ ne None "1.prems"] set_bit ne None mono
        by (auto simp: KMEM_FREELISTS_def split: option.splits)
    next
      case (Some r)
      then have "r \<in> set (kmem_freelists s ! i)" "sz \<le> size_of s r" by (auto simp: find_Some_iff)
      then show ?thesis unfolding unf using Some set_bit ne ok(2) by (simp add: KMEM_FREELISTS_def)
    qed
  qed
qed

lemma freelist_find_ok:
  assumes "lists_ok s X" "\<And>x. x \<in> set (kmem_ranges s) \<Longrightarrow> size_of s x \<noteq> 0" "sz \<noteq> 0" "unat sz < 2 ^ 63"
  shows "\<exists>res. kmem_freelist_find sz s = Some res \<and> (case res of
      None \<Rightarrow> \<forall>x. free_here s X x \<longrightarrow> size_of s x < sz
    | Some r \<Rightarrow> free_here s X r \<and> sz \<le> size_of s r)"
proof -
  let ?l = "lidx sz"
  note l = kmem_list_eq [OF assms(3)]
  have l63: "?l < 63"
  proof (rule ccontr)
    assume "\<not> ?l < 63"
    then have "(2 :: nat) ^ 63 \<le> 2 ^ ?l" by (intro power_increasing) auto
    then show False using l(3) assms(4) by linarith
  qed
  have nz: "size_of s x \<noteq> 0" if "free_here s X x" for x using that assms(2) by (simp add: free_here_def)
  have small: "size_of s x < sz" if "free_here s X x" "lidx (size_of s x) < ?l" for x
  proof -
    have "unat (size_of s x) < 2 ^ Suc (lidx (size_of s x))" using kmem_list_eq(4) [OF nz [OF that(1)]] .
    also have "\<dots> \<le> 2 ^ ?l" using that(2) by (intro power_increasing) auto
    also have "\<dots> \<le> unat sz" by (rule l(3))
    finally show ?thesis by (simp add: word_less_nat_alt)
  qed
  have start: "\<exists>res. kmem_find_loop ?l sz s = Some res \<and> (case res of
      None \<Rightarrow> \<forall>x. free_here s X x \<longrightarrow> size_of s x < sz | Some r \<Rightarrow> free_here s X r \<and> sz \<le> size_of s r)"
    using find_loop_ok [OF assms(1), of ?l sz] small by (force split: option.splits)
  have up: "\<exists>r. kmem_find_loop (?l + 1) sz s = Some (Some r) \<and> free_here s X r \<and> sz \<le> size_of s r"
    if ne: "drop_bit (?l + 1) (kmem_freemap s) \<noteq> 0"
  proof -
    obtain j where "bit (drop_bit (?l + 1) (kmem_freemap s)) j" using ne unfolding bit_eq_iff by auto
    then have j: "bit (kmem_freemap s) (?l + 1 + j)" by (simp add: bit_drop_bit_eq)
    then have j64: "?l + 1 + j < 64" using bit_imp_le_length [OF j] by simp
    then obtain x where x: "x \<in> set (kmem_freelists s ! (?l + 1 + j))"
      using assms(1) j by (fastforce simp: lists_ok_def neq_Nil_conv)
    then have fx: "free_here s X x" "lidx (size_of s x) = ?l + 1 + j"
      using assms(1) j64 by (auto simp: lists_ok_def classes_def free_here_def)
    have "unat sz < 2 ^ (?l + 1)" using l(4) by simp
    also have "\<dots> \<le> 2 ^ lidx (size_of s x)" unfolding fx(2) by (intro power_increasing) auto
    also have "\<dots> \<le> unat (size_of s x)" using kmem_list_eq(3) [OF nz [OF fx(1)]] .
    finally have "\<not> size_of s x < sz" by (simp add: word_less_nat_alt)
    then show ?thesis using find_loop_ok [OF assms(1), of "?l + 1" sz] fx by (force split: option.splits)
  qed
  show ?thesis
  proof (cases "sz AND (sz - 1) \<noteq> 0 \<and> drop_bit (?l + 1) (kmem_freemap s) \<noteq> 0")
    case True
    then show ?thesis using up l63 by (auto simp: kmem_freelist_find_def l(1))
  next
    case False
    then have "kmem_freelist_find sz s = kmem_find_loop ?l sz s" using l63 by (auto simp: kmem_freelist_find_def l(1))
    then show ?thesis using start by simp
  qed
qed


section \<open>The ranges cover the arena\<close>

definition BASE :: nat where "BASE = unat KERNEL_KMEM_BASE"
definition SIZE :: nat where "SIZE = unat KERNEL_KMEM_SIZE"

lemma arena: "0 < BASE" "4096 dvd BASE" "BASE + SIZE < 2 ^ 64" "SIZE < 2 ^ 63"
  by (simp_all add: BASE_def SIZE_def KERNEL_KMEM_BASE_def KERNEL_KMEM_SIZE_def)

definition page_ok :: "u64 \<Rightarrow> bool" where
  "page_ok sz \<longleftrightarrow> sz \<noteq> 0 \<and> 4096 dvd unat sz"

definition seg_of :: "kmem_range \<Rightarrow> nat \<times> bool" where
  "seg_of x = (unat (kr_size x), kr_allocated x)"

definition ksegs :: "(nat \<Rightarrow> kmem_range) \<Rightarrow> nat list \<Rightarrow> segs" where
  "ksegs k rs = map (\<lambda>r. seg_of (k r)) rs"

fun addrs :: "(nat \<Rightarrow> kmem_range) \<Rightarrow> nat \<Rightarrow> nat list \<Rightarrow> bool" where
  "addrs k a [] \<longleftrightarrow> True"
| "addrs k a (r # rs) \<longleftrightarrow> unat (kr_addr (k r)) = a \<and> addrs k (a + unat (kr_size (k r))) rs"

definition geom :: "(nat \<Rightarrow> kmem_range) \<Rightarrow> nat list \<Rightarrow> nat list \<Rightarrow> bool" where
  "geom k rs pool \<longleftrightarrow> distinct (rs @ pool) \<and> (\<forall>x \<in> set pool. \<not> kr_allocated (k x)) \<and> addrs k BASE rs
     \<and> (\<forall>x \<in> set rs. page_ok (kr_size (k x))) \<and> span (ksegs k rs) = SIZE"

lemma ksegs_simps [simp]: "ksegs k [] = []" "ksegs k (r # rs) = seg_of (k r) # ksegs k rs" "ksegs k (xs @ ys) = ksegs k xs @ ksegs k ys"
  by (simp_all add: ksegs_def)

lemma ksegs_other [simp]: "r \<notin> set rs \<Longrightarrow> ksegs (k(r := x)) rs = ksegs k rs"
  by (auto simp: ksegs_def)

lemma addrs_other [simp]: "r \<notin> set rs \<Longrightarrow> addrs (k(r := x)) a rs = addrs k a rs"
  by (induction rs arbitrary: a) auto

lemma kr_cong: "\<forall>x \<in> set rs. k' x = k x \<Longrightarrow> addrs k' a rs = addrs k a rs \<and> ksegs k' rs = ksegs k rs"
  by (induction rs arbitrary: a) auto

lemma addrs_append: "addrs k a (xs @ ys) \<longleftrightarrow> addrs k a xs \<and> addrs k (a + span (ksegs k xs)) ys"
  by (induction xs arbitrary: a) (auto simp: seg_of_def add.assoc)

lemma geom_range:
  assumes "geom k (xs @ r # ys) pool"
  shows "unat (kr_addr (k r)) = BASE + span (ksegs k xs)" "page_ok (kr_size (k r))"
    "span (ksegs k xs) + unat (kr_size (k r)) + span (ksegs k ys) = SIZE" "r \<notin> set xs" "r \<notin> set ys" "r \<notin> set pool" "0 < unat (kr_size (k r))"
  using assms by (auto simp: geom_def addrs_append seg_of_def page_ok_def unat_gt_0)

lemma geom_flag:
  assumes "geom k rs pool" "r \<notin> set pool"
  shows "geom (k(r := (k r)\<lparr>kr_allocated := b\<rparr>)) rs pool"
proof -
  have "addrs (k(r := (k r)\<lparr>kr_allocated := b\<rparr>)) a rs = addrs k a rs" for a by (induction rs arbitrary: a) auto
  moreover have "span (ksegs (k(r := (k r)\<lparr>kr_allocated := b\<rparr>)) rs) = span (ksegs k rs)"
    by (induction rs) (auto simp: seg_of_def)
  ultimately show ?thesis using assms by (auto simp: geom_def)
qed

lemma page_ok_diff:
  assumes "page_ok a" "page_ok b" "a < b"
  shows "page_ok (b - a)" "unat (b - a) = unat b - unat a"
proof -
  show u: "unat (b - a) = unat b - unat a" using assms(3) by (simp add: unat_sub word_le_nat_alt word_less_nat_alt)
  then show "page_ok (b - a)" using assms by (auto simp: page_ok_def word_less_nat_alt)
qed

lemma page_ok_add:
  assumes "page_ok a" "page_ok b" "unat a + unat b < 2 ^ 64"
  shows "page_ok (a + b)" "unat (a + b) = unat a + unat b"
proof -
  show u: "unat (a + b) = unat a + unat b" using assms(3) by (simp add: unat_word_ariths)
  then show "page_ok (a + b)" using assms unat_gt_0 [of "a + b"] unat_gt_0 [of a] by (auto simp: page_ok_def)
qed

lemma geom_split:
  assumes "geom k (xs @ r # ys) pool" "q \<notin> set (xs @ r # ys @ pool)" "page_ok sz" "sz < kr_size (k r)"
  defines "k' \<equiv> k(q := (k q)\<lparr>kr_addr := kr_addr (k r) + sz, kr_size := kr_size (k r) - sz\<rparr>, r := (k r)\<lparr>kr_size := sz\<rparr>)"
  shows "geom k' (xs @ r # q # ys) pool"
proof -
  note g = geom_range [OF assms(1)]
  note d = page_ok_diff [OF assms(3) g(2) assms(4)]
  have lt: "unat sz < unat (kr_size (k r))" using assms(4) by (simp add: word_less_nat_alt)
  have "unat (kr_addr (k r) + sz) = unat (kr_addr (k r)) + unat sz"
    using g(1,3) lt arena(3) by (simp add: unat_word_ariths)
  moreover have "q \<noteq> r" "q \<notin> set xs" "q \<notin> set ys" "q \<notin> set pool" using assms(2) by auto
  ultimately show ?thesis using assms(1,3) g d lt
    by (auto simp: geom_def k'_def addrs_append seg_of_def add.assoc)
qed

lemma geom_join_next:
  assumes "geom k (xs @ r # e # ys) pool" "\<not> kr_allocated (k e)"
  defines "k' \<equiv> k(r := (k r)\<lparr>kr_size := kr_size (k r) + kr_size (k e)\<rparr>)"
  shows "geom k' (xs @ r # ys) (pool @ [e])" "unat (kr_size (k' r)) = unat (kr_size (k r)) + unat (kr_size (k e))"
proof -
  note g = geom_range [OF assms(1)]
  have e: "page_ok (kr_size (k e))" using assms(1) by (simp add: geom_def)
  have bound: "unat (kr_size (k r)) + unat (kr_size (k e)) < 2 ^ 64" using g(3) arena(4) by (simp add: seg_of_def)
  note p = page_ok_add [OF g(2) e bound]
  show "geom k' (xs @ r # ys) (pool @ [e])" using assms(1,2) g p
    by (auto simp: geom_def k'_def addrs_append seg_of_def add.assoc)
  show "unat (kr_size (k' r)) = unat (kr_size (k r)) + unat (kr_size (k e))" using p by (simp add: k'_def)
qed

lemma geom_join_prev:
  assumes "geom k (xs @ e # r # ys) pool" "\<not> kr_allocated (k e)"
  defines "k' \<equiv> k(r := (k r)\<lparr>kr_addr := kr_addr (k e), kr_size := kr_size (k r) + kr_size (k e)\<rparr>)"
  shows "geom k' (xs @ r # ys) (pool @ [e])" "unat (kr_size (k' r)) = unat (kr_size (k e)) + unat (kr_size (k r))"
proof -
  have r: "page_ok (kr_size (k r))" using assms(1) by (simp add: geom_def)
  note g = geom_range [OF assms(1)]
  have bound: "unat (kr_size (k r)) + unat (kr_size (k e)) < 2 ^ 64" using g(3) arena(4) by (simp add: seg_of_def)
  note p = page_ok_add [OF r g(2) bound]
  show "geom k' (xs @ r # ys) (pool @ [e])" using assms(1,2) g p
    by (auto simp: geom_def k'_def addrs_append seg_of_def add.assoc add.commute add.left_commute)
  show "unat (kr_size (k' r)) = unat (kr_size (k e)) + unat (kr_size (k r))" using p by (simp add: k'_def)
qed


section \<open>Allocation\<close>

definition kmem_inv :: "kmem \<Rightarrow> bool" where
  "kmem_inv s \<longleftrightarrow> geom (kr s) (kmem_ranges s) (kmem_range_pool s) \<and> lists_ok s {} \<and> coalesced (ksegs (kr s) (kmem_ranges s))"

definition klive :: "kmem \<Rightarrow> (nat \<times> nat) set" where
  "klive s = blocks BASE (ksegs (kr s) (kmem_ranges s))"

text \<open>The structures in a new page are not in use.\<close>

definition refill_ok :: "(kmem \<Rightarrow> nat list option) \<Rightarrow> bool" where
  "refill_ok refill \<longleftrightarrow> (\<forall>s rs. refill s = Some rs \<longrightarrow> distinct rs \<and> set rs \<inter> set (kmem_ranges s) = {})"

lemma upd_range_fields [simp]:
  "kmem_ranges (upd_range r f s) = kmem_ranges s" "kmem_range_pool (upd_range r f s) = kmem_range_pool s"
  "kmem_freelists (upd_range r f s) = kmem_freelists s" "kmem_hash (upd_range r f s) = kmem_hash s"
  "kmem_freemap (upd_range r f s) = kmem_freemap s" "kr (upd_range r f s) = (kr s)(r := f (kr s r))"
  by (simp_all add: upd_range_def)

lemma init_structures:
  "kmem_ranges (init_structures rs s) = kmem_ranges s" "kmem_range_pool (init_structures rs s) = kmem_range_pool s"
  "kmem_freelists (init_structures rs s) = kmem_freelists s" "kmem_hash (init_structures rs s) = kmem_hash s"
  "kmem_freemap (init_structures rs s) = kmem_freemap s"
  "kr (init_structures rs s) x = (if x \<in> set rs then (kr s x)\<lparr>kr_allocated := False\<rparr> else kr s x)"
  "init_structures [] s = s"
  unfolding init_structures_def by (induction rs arbitrary: s) auto

lemma geom_kr_cong:
  assumes "geom k rs pool" "\<And>x. x \<in> set rs \<Longrightarrow> k' x = k x" "distinct (rs @ pool')" "\<forall>x \<in> set pool'. \<not> kr_allocated (k' x)"
  shows "geom k' rs pool'" "ksegs k' rs = ksegs k rs"
proof -
  have "addrs k' a rs = addrs k a rs" and s: "ksegs k' rs = ksegs k rs" for a using kr_cong [of rs k' k] assms(2) by auto
  from s show "ksegs k' rs = ksegs k rs" .
  with \<open>\<And>a. addrs k' a rs = addrs k a rs\<close> show "geom k' rs pool'" using assms s by (simp add: geom_def)
qed

definition structs_ok :: "kmem \<Rightarrow> bool" where
  "structs_ok s \<longleftrightarrow> distinct (kmem_ranges s @ kmem_range_pool s) \<and> (\<forall>x \<in> set (kmem_range_pool s). \<not> is_alloc s x)"

lemma range_get_structs:
  assumes "structs_ok s" "refill_ok refill"
  shows "case kmem_range_get refill s of
      (None, s') \<Rightarrow> s' = s
    | (Some q, s') \<Rightarrow> structs_ok s' \<and> kmem_ranges s' = kmem_ranges s
        \<and> q \<notin> set (kmem_ranges s' @ kmem_range_pool s') \<and> \<not> is_alloc s' q \<and> (\<forall>x \<in> set (kmem_ranges s). kr s' x = kr s x)
        \<and> kmem_freelists s' = kmem_freelists s \<and> kmem_hash s' = kmem_hash s \<and> kmem_freemap s' = kmem_freemap s"
proof (cases "kmem_range_pool s")
  case (Cons q qs)
  then show ?thesis using assms(1) by (auto simp: kmem_range_get_def structs_ok_def)
next
  case Nil
  show ?thesis
  proof (cases "refill s")
    case None
    then show ?thesis by (simp add: kmem_range_get_def Nil)
  next
    case (Some rs)
    have rs: "distinct rs" "set rs \<inter> set (kmem_ranges s) = {}" using assms(2) Some by (auto simp: refill_ok_def)
    then show ?thesis using assms(1)
      by (cases rs) (auto simp: kmem_range_get_def Nil Some init_structures Let_def structs_ok_def)
  qed
qed

lemma range_get_ok:
  assumes "geom (kr s) (kmem_ranges s) (kmem_range_pool s)" "refill_ok refill"
  shows "case kmem_range_get refill s of
      (None, s') \<Rightarrow> s' = s
    | (Some q, s') \<Rightarrow> geom (kr s') (kmem_ranges s') (kmem_range_pool s') \<and> kmem_ranges s' = kmem_ranges s
        \<and> q \<notin> set (kmem_ranges s' @ kmem_range_pool s') \<and> \<not> is_alloc s' q \<and> (\<forall>x \<in> set (kmem_ranges s). kr s' x = kr s x)
        \<and> kmem_freelists s' = kmem_freelists s \<and> kmem_hash s' = kmem_hash s \<and> kmem_freemap s' = kmem_freemap s"
proof -
  have "structs_ok s" using assms(1) by (auto simp: geom_def structs_ok_def)
  from range_get_structs [OF this assms(2)] show ?thesis
    by (auto simp: structs_ok_def intro!: geom_kr_cong(1) [OF assms(1)] split: prod.splits option.splits)
qed

lemma add_after_ok: "r \<notin> set xs \<Longrightarrow> list_add_after r q (xs @ r # ys) = xs @ r # q # ys"
  by (induction xs) auto

text \<open>Marking a range that is in no list as allocated.\<close>

lemma take_range_ok:
  assumes "geom (kr s) (kmem_ranges s) (kmem_range_pool s)" "lists_ok s {r}" "kmem_ranges s = xs @ r # ys"
  defines "s' \<equiv> kmem_hash_insert r (upd_range r (kr_allocated_update (\<lambda>_. True)) s)"
  shows "geom (kr s') (kmem_ranges s') (kmem_range_pool s')" "lists_ok s' {}" "addr_of s' r = addr_of s r"
    "ksegs (kr s') (kmem_ranges s') = ksegs (kr s) xs @ (unat (size_of s r), True) # ksegs (kr s) ys"
proof -
  let ?t = "upd_range r (kr_allocated_update (\<lambda>_. True)) s"
  have r: "r \<notin> set (kmem_range_pool s)" "r \<notin> set xs" "r \<notin> set ys" using geom_range [of "kr s" xs r ys] assms(1,3) by auto
  have "lists_ok ?t {r}" by (rule lists_ok_cong [OF assms(2)]) auto
  then have ok: "lists_ok s' {}" "kr s' = kr ?t" "kmem_ranges s' = kmem_ranges s" "kmem_range_pool s' = kmem_range_pool s"
    using hash_insert_ok [of ?t r "{}"] assms(3) by (simp_all add: s'_def)
  then show "lists_ok s' {}" "addr_of s' r = addr_of s r" by simp_all
  show "geom (kr s') (kmem_ranges s') (kmem_range_pool s')" using geom_flag [OF assms(1) r(1), of True] ok by simp
  show "ksegs (kr s') (kmem_ranges s') = ksegs (kr s) xs @ (unat (size_of s r), True) # ksegs (kr s) ys"
    using ok r by (simp add: assms(3) seg_of_def)
qed

lemma split_range_ok:
  assumes "geom (kr s) (kmem_ranges s) (kmem_range_pool s)" "lists_ok s {r}" "kmem_ranges s = xs @ r # ys" "\<not> is_alloc s r"
    "q \<notin> set (kmem_ranges s @ kmem_range_pool s)" "\<not> is_alloc s q" "page_ok sz" "sz < size_of s r"
  defines "s1 \<equiv> upd_range q (\<lambda>x. x\<lparr>kr_addr := addr_of s r + sz, kr_size := size_of s r - sz\<rparr>) s"
  defines "s2 \<equiv> s1\<lparr>kmem_ranges := list_add_after r q (kmem_ranges s1)\<rparr>"
  obtains s3 where "kmem_freelist_insert q s2 = Some s3"
    "geom (kr (upd_range r (kr_size_update (\<lambda>_. sz)) s3)) (kmem_ranges s3) (kmem_range_pool s3)"
    "lists_ok (upd_range r (kr_size_update (\<lambda>_. sz)) s3) {r}" "kmem_ranges s3 = xs @ r # q # ys"
    "ksegs (kr s3) xs = ksegs (kr s) xs" "ksegs (kr s3) ys = ksegs (kr s) ys" "kr s3 r = kr s r"
    "seg_of (kr s3 q) = (unat (size_of s r) - unat sz, False)"
proof -
  note g = geom_range [of "kr s" xs r ys, folded assms(3), OF assms(1)]
  note d = page_ok_diff [OF assms(7) g(2) assms(8)]
  have q: "q \<noteq> r" "q \<notin> set xs" "q \<notin> set ys" "q \<notin> set (kmem_range_pool s)" using assms(5) by (auto simp: assms(3))
  have s2: "kmem_ranges s2 = xs @ r # q # ys" "kr s2 = (kr s)(q := (kr s q)\<lparr>kr_addr := addr_of s r + sz, kr_size := size_of s r - sz\<rparr>)"
      "kmem_range_pool s2 = kmem_range_pool s" "kmem_freelists s2 = kmem_freelists s" "kmem_hash s2 = kmem_hash s" "kmem_freemap s2 = kmem_freemap s"
    using g(4) by (simp_all add: s2_def s1_def assms(3) add_after_ok)
  have "lists_ok s2 {q, r}"
    by (rule lists_ok_cong [OF assms(2)]) (use s2 q in \<open>auto simp: assms(3)\<close>)
  then obtain s3 where s3: "kmem_freelist_insert q s2 = Some s3" "lists_ok s3 {r}" "kr s3 = kr s2" "kmem_ranges s3 = kmem_ranges s2"
      "kmem_range_pool s3 = kmem_range_pool s2"
    using freelist_insert_ok [of s2 q "{r}"] q(1) d(1) assms(6) s2 by (auto simp: page_ok_def)
  have "lists_ok (upd_range r (kr_size_update (\<lambda>_. sz)) s3) {r}" by (rule lists_ok_cong [OF s3(2)]) auto
  moreover have "geom (kr (upd_range r (kr_size_update (\<lambda>_. sz)) s3)) (kmem_ranges s3) (kmem_range_pool s3)"
    using geom_split [of "kr s" xs r ys "kmem_range_pool s" q sz] assms(1,3,5,7,8) s3 s2 q(1) by auto
  ultimately show thesis using that [OF s3(1)] s3 s2 q assms(6) d by (simp add: seg_of_def)
qed


definition flags_ok :: "u32 \<Rightarrow> bool" where
  "flags_ok mmflag \<longleftrightarrow> mmflag AND (MM_WAIT OR MM_ATOMIC) \<noteq> MM_WAIT OR MM_ATOMIC"

lemma mod_page: "(sz mod PAGE_SIZE = 0) = (4096 dvd unat sz)"
proof -
  have "unat (sz mod PAGE_SIZE) = unat sz mod 4096" by (simp add: unat_mod PAGE_SIZE_def)
  then show ?thesis by (metis dvd_eq_mod_eq_0 unat_eq_0)
qed

lemma segs_pos: "geom k rs pool \<Longrightarrow> \<forall>(n, f) \<in> set (ksegs k rs). 0 < n"
  by (auto simp: geom_def ksegs_def seg_of_def page_ok_def unat_gt_0)

lemma take_live:
  assumes "geom k (xs @ r # ys) pool" "\<not> kr_allocated (k r)" "coalesced (ksegs k (xs @ r # ys))" "n \<le> unat (kr_size (k r))"
  defines "zs \<equiv> ksegs k xs @ (if n = unat (kr_size (k r)) then [(n, True)] else [(n, True), (unat (kr_size (k r)) - n, False)]) @ ksegs k ys"
  shows "blocks BASE zs = insert (unat (kr_addr (k r)), n) (blocks BASE (ksegs k (xs @ r # ys)))" "coalesced zs"
    "(unat (kr_addr (k r)), m) \<notin> blocks BASE (ksegs k (xs @ r # ys))"
proof -
  let ?f = "unat (kr_size (k r))"
  have seg: "seg_of (k r) = (?f, False)" using assms(2) by (simp add: seg_of_def)
  note g = geom_range [OF assms(1)]
  have co: "coalesced (ksegs k xs @ (?f, False) # ksegs k ys)" using assms(3) by (simp add: seg)
  show "blocks BASE zs = insert (unat (kr_addr (k r)), n) (blocks BASE (ksegs k (xs @ r # ys)))"
    using blocks_cut [of BASE "ksegs k xs" n "?f - n" "ksegs k ys"] blocks_alloc [of BASE "ksegs k xs" ?f "ksegs k ys"] assms(4)
    by (auto simp: zs_def seg g(1))
  show "coalesced zs" using coalesced_cut [OF co] coalesced_alloc [OF co] by (auto simp: zs_def)
  show "(unat (kr_addr (k r)), m) \<notin> blocks BASE (ksegs k (xs @ r # ys))"
    using no_block_in_free [of "ksegs k xs" ?f "ksegs k ys" BASE m] segs_pos [OF assms(1)] by (simp add: seg g(1))
qed

text \<open>What the rest of a split range leaves behind it.\<close>

definition rest_segs :: "u64 \<Rightarrow> u64 \<Rightarrow> segs" where
  "rest_segs sz f = (if sz = f then [] else [(unat f - unat sz, False)])"

lemma kmem_split_ok:
  assumes "geom (kr s) (kmem_ranges s) (kmem_range_pool s)" "lists_ok s {r}" "kmem_ranges s = xs @ r # ys" "\<not> is_alloc s r"
    "page_ok sz" "sz \<le> size_of s r" "refill_ok refill"
  shows "\<exists>ok s'. kmem_split refill r sz s = Some (ok, s') \<and> geom (kr s') (kmem_ranges s') (kmem_range_pool s') \<and>
    (if ok then lists_ok s' {r} \<and> addr_of s' r = addr_of s r \<and> size_of s' r = sz \<and>
        (\<exists>zs. kmem_ranges s' = xs @ r # zs \<and> ksegs (kr s') xs = ksegs (kr s) xs \<and> ksegs (kr s') zs = rest_segs sz (size_of s r) @ ksegs (kr s) ys)
     else lists_ok s' {} \<and> kr s' = kr s \<and> kmem_ranges s' = kmem_ranges s)"
proof (cases "sz < size_of s r")
  case False
  then show ?thesis using assms by (auto simp: kmem_split_def rest_segs_def intro!: exI [of _ True])
next
  case True
  have nr: "r \<notin> set xs" "r \<notin> set ys" "size_of s r \<noteq> 0"
    using geom_range [of "kr s" xs r ys] assms(1,3) by (auto simp: page_ok_def)
  obtain o2 s2 where pair: "kmem_range_get refill s = (o2, s2)" by force
  note get = range_get_ok [OF assms(1,7), unfolded pair]
  show ?thesis
  proof (cases o2)
    case None
    then have s2: "s2 = s" using get by simp
    obtain s3 where "kmem_freelist_insert r s = Some s3" "lists_ok s3 {}" "kr s3 = kr s" "kmem_ranges s3 = kmem_ranges s"
        "kmem_range_pool s3 = kmem_range_pool s"
      using freelist_insert_ok [of s r "{}"] assms nr by auto
    then show ?thesis using assms True pair None s2 by (auto simp: kmem_split_def intro!: exI [of _ False])
  next
    case (Some q)
    have get: "geom (kr s2) (kmem_ranges s2) (kmem_range_pool s2)" "kmem_ranges s2 = xs @ r # ys"
        "q \<notin> set (kmem_ranges s2 @ kmem_range_pool s2)" "\<not> is_alloc s2 q" "\<forall>x \<in> set (kmem_ranges s). kr s2 x = kr s x"
        "kmem_freelists s2 = kmem_freelists s" "kmem_hash s2 = kmem_hash s" "kmem_freemap s2 = kmem_freemap s"
      using get Some assms(3) by auto
    have s2: "kr s2 r = kr s r" "ksegs (kr s2) xs = ksegs (kr s) xs" "ksegs (kr s2) ys = ksegs (kr s) ys"
      using get(5) assms(3) by (auto simp: ksegs_def)
    have l2: "lists_ok s2 {r}" by (rule lists_ok_cong [OF assms(2)]) (use get assms(3) in auto)
    obtain s3 where s3: "kmem_split refill r sz s = Some (True, upd_range r (kr_size_update (\<lambda>_. sz)) s3)"
        "geom (kr (upd_range r (kr_size_update (\<lambda>_. sz)) s3)) (kmem_ranges s3) (kmem_range_pool s3)"
        "lists_ok (upd_range r (kr_size_update (\<lambda>_. sz)) s3) {r}" "kmem_ranges s3 = xs @ r # q # ys"
        "ksegs (kr s3) xs = ksegs (kr s) xs" "ksegs (kr s3) ys = ksegs (kr s) ys" "kr s3 r = kr s r"
        "seg_of (kr s3 q) = (unat (size_of s r) - unat sz, False)"
      using split_range_ok [OF get(1) l2 get(2) _ get(3,4) assms(5)] assms(4) True s2 pair Some
      by (simp add: kmem_split_def Let_def) metis
    have "q \<noteq> r" using get(2,3) by auto
    then show ?thesis using s3 nr True by (auto simp: rest_segs_def intro!: exI [of _ "q # ys"])
  qed
qed

lemma raw_alloc_ok:
  assumes "kmem_inv s" "refill_ok refill" "page_ok sz" "unat sz < 2 ^ 63" "flags_ok mmflag"
    and "mmflag AND MM_BOOT \<noteq> 0 \<or> mmflag AND MM_WAIT \<noteq> 0 \<Longrightarrow> \<exists>x. free_here s {} x \<and> sz \<le> size_of s x"
  shows "\<exists>addr s'. kmem_raw_alloc refill sz mmflag s = Some (addr, s') \<and> kmem_inv s' \<and>
    (if addr = 0 then klive s' = klive s
     else (unat addr, unat sz) \<notin> klive s \<and> klive s' = insert (unat addr, unat sz) (klive s))"
proof -
  have inv: "geom (kr s) (kmem_ranges s) (kmem_range_pool s)" "lists_ok s {}" "coalesced (ksegs (kr s) (kmem_ranges s))"
    using assms(1) by (simp_all add: kmem_inv_def)
  have nz: "size_of s x \<noteq> 0" if "x \<in> set (kmem_ranges s)" for x using inv(1) that by (auto simp: geom_def page_ok_def)
  have sz: "sz \<noteq> 0" "sz mod PAGE_SIZE = 0" using assms(3) by (auto simp: page_ok_def mod_page)
  obtain res where res: "kmem_freelist_find sz s = Some res" "case res of None \<Rightarrow> \<forall>x. free_here s {} x \<longrightarrow> size_of s x < sz
      | Some r \<Rightarrow> free_here s {} r \<and> sz \<le> size_of s r"
    using freelist_find_ok [OF inv(2) nz sz(1) assms(4)] by blast
  show ?thesis
  proof (cases res)
    case None
    then have "\<not> (mmflag AND MM_BOOT \<noteq> 0 \<or> mmflag AND MM_WAIT \<noteq> 0)" using res(2) assms(6) by (auto simp: not_le [symmetric])
    then show ?thesis using res(1) None sz assms(1,5) by (simp add: kmem_raw_alloc_def flags_ok_def)
  next
    case (Some r)
    have r: "r \<in> set (kmem_ranges s)" "\<not> is_alloc s r" "sz \<le> size_of s r" using res(2) Some by (auto simp: free_here_def)
    obtain s1 where s1: "kmem_freelist_remove r s = Some s1" "lists_ok s1 {r}" "kr s1 = kr s" "kmem_ranges s1 = kmem_ranges s"
        "kmem_range_pool s1 = kmem_range_pool s"
      using freelist_remove_ok [OF inv(2), of r] r nz by auto
    obtain xs ys where xs: "kmem_ranges s = xs @ r # ys" using r(1) by (auto simp: in_set_conv_decomp)
    have gr: "geom (kr s) (xs @ r # ys) (kmem_range_pool s)" "coalesced (ksegs (kr s) (xs @ r # ys))" using inv by (simp_all add: xs)
    note live = take_live [OF gr(1) r(2) gr(2), of "unat sz"]
    obtain ok s2 where s2: "kmem_split refill r sz s1 = Some (ok, s2)" "geom (kr s2) (kmem_ranges s2) (kmem_range_pool s2)"
        "if ok then lists_ok s2 {r} \<and> addr_of s2 r = addr_of s r \<and> size_of s2 r = sz \<and>
        (\<exists>zs. kmem_ranges s2 = xs @ r # zs \<and> ksegs (kr s2) xs = ksegs (kr s) xs \<and> ksegs (kr s2) zs = rest_segs sz (size_of s r) @ ksegs (kr s) ys)
     else lists_ok s2 {} \<and> kr s2 = kr s \<and> kmem_ranges s2 = kmem_ranges s"
      using kmem_split_ok [of s1 r xs ys sz refill, unfolded s1(3-5), OF inv(1) s1(2) xs r(2) assms(3) r(3) assms(2)] by blast
    show ?thesis
    proof (cases ok)
      case False
      then show ?thesis using res(1) Some sz assms(5) s1(1) s2 inv(3)
        by (auto simp: kmem_raw_alloc_def flags_ok_def kmem_inv_def klive_def)
    next
      case True
      then obtain zs where zs: "kmem_ranges s2 = xs @ r # zs" "ksegs (kr s2) xs = ksegs (kr s) xs" "ksegs (kr s2) zs = rest_segs sz (size_of s r) @ ksegs (kr s) ys"
          "lists_ok s2 {r}" "addr_of s2 r = addr_of s r" "size_of s2 r = sz" using s2(3) by auto
      let ?s = "kmem_hash_insert r (upd_range r (kr_allocated_update (\<lambda>_. True)) s2)"
      note t = take_range_ok [OF s2(2) zs(4,1)]
      have run: "kmem_raw_alloc refill sz mmflag s = Some (addr_of ?s r, ?s)"
        using res(1) Some sz assms(5) s1(1) s2(1) True by (simp add: kmem_raw_alloc_def flags_ok_def Let_def)
      have "addr_of ?s r = addr_of s r" "addr_of s r \<noteq> 0" using t(3) zs(5) geom_range(1) [OF gr(1)] arena(1) by auto
      moreover have "ksegs (kr ?s) (kmem_ranges ?s) = ksegs (kr s) xs @ (if unat sz = unat (size_of s r) then [(unat sz, True)]
          else [(unat sz, True), (unat (size_of s r) - unat sz, False)]) @ ksegs (kr s) ys"
        unfolding t(4) using zs by (simp add: rest_segs_def word_unat_eq_iff)
      then have "klive ?s = insert (unat (addr_of s r), unat sz) (klive s)" "coalesced (ksegs (kr ?s) (kmem_ranges ?s))"
        using live(1,2) r(3) unfolding klive_def xs by (simp_all only: word_le_nat_alt)
      ultimately show ?thesis using run t(1,2) live(3) r(3) xs by (auto simp: kmem_inv_def klive_def word_le_nat_alt)
    qed
  qed
qed


section \<open>Freeing\<close>

lemma list_next_ok: "distinct (xs @ r # ys) \<Longrightarrow> list_next r (xs @ r # ys) = (case ys of [] \<Rightarrow> None | y # _ \<Rightarrow> Some y)"
proof (induction xs)
  case (Cons x xs)
  then have "x \<noteq> r" "list_next r (xs @ r # ys) = (case ys of [] \<Rightarrow> None | y # _ \<Rightarrow> Some y)" by auto
  then show ?case by (cases "xs @ r # ys") auto
qed (cases ys; simp)

lemma list_prev_ok: "distinct (xs @ r # ys) \<Longrightarrow> list_prev r (xs @ r # ys) = (if xs = [] then None else Some (last xs))"
  using list_next_ok [of "rev ys" r "rev xs"] by (cases xs rule: rev_cases) (auto simp: list_prev_def)

lemma put_fields [simp]:
  "kr (kmem_range_put e s) = kr s" "kmem_ranges (kmem_range_put e s) = kmem_ranges s"
  "kmem_range_pool (kmem_range_put e s) = kmem_range_pool s @ [e]" "kmem_freelists (kmem_range_put e s) = kmem_freelists s"
  "kmem_hash (kmem_range_put e s) = kmem_hash s" "kmem_freemap (kmem_range_put e s) = kmem_freemap s"
  by (simp_all add: kmem_range_put_def)

text \<open>Both merges: the neighbour leaves its free list and the list of ranges.\<close>

lemma drop_range_ok:
  fixes f
  assumes "lists_ok s {r}" "e \<in> set (kmem_ranges s)" "e \<noteq> r" "\<not> is_alloc s e" "size_of s e \<noteq> 0" "distinct (kmem_ranges s)"
  defines "t \<equiv> upd_range r f s"
  obtains s' where "kmem_freelist_remove e t = Some s'" "kr s' = kr t" "kmem_range_pool s' = kmem_range_pool s"
    "kmem_ranges s' = kmem_ranges s"
    "lists_ok (kmem_range_put e (s'\<lparr>kmem_ranges := remove1 e (kmem_ranges s')\<rparr>)) {r}"
proof -
  have "lists_ok t {r}" by (rule lists_ok_cong [OF assms(1)]) (auto simp: t_def)
  then obtain s' where s': "kmem_freelist_remove e t = Some s'" "lists_ok s' {e, r}" "kr s' = kr t" "kmem_ranges s' = kmem_ranges t"
      "kmem_range_pool s' = kmem_range_pool t"
    using freelist_remove_ok [of t "{r}" e] assms(2-5) by (auto simp: t_def)
  have "lists_ok (kmem_range_put e (s'\<lparr>kmem_ranges := remove1 e (kmem_ranges s')\<rparr>)) {r}"
    by (rule lists_ok_cong [OF s'(2)]) (use assms(6) s' in \<open>auto simp: t_def\<close>)
  with s' show thesis using that by (simp add: t_def)
qed

lemma kmem_merge_next_ok:
  assumes "geom (kr s) (kmem_ranges s) (kmem_range_pool s)" "lists_ok s {r}" "kmem_ranges s = xs @ r # ys" "\<not> is_alloc s r"
  shows "\<exists>s' ys'. kmem_merge_next r s = Some s' \<and> geom (kr s') (kmem_ranges s') (kmem_range_pool s') \<and> lists_ok s' {r}
    \<and> kmem_ranges s' = xs @ r # ys' \<and> \<not> is_alloc s' r \<and> ksegs (kr s') xs = ksegs (kr s) xs
    \<and> ksegs (kr s') (r # ys') = join_next (unat (size_of s r)) (ksegs (kr s) ys)"
proof -
  have d: "distinct (xs @ r # ys)" using assms(1,3) by (auto simp: geom_def)
  show ?thesis
  proof (cases "\<exists>e zs. ys = e # zs \<and> \<not> is_alloc s e")
    case True
    then obtain e zs where ys: "ys = e # zs" "\<not> is_alloc s e" by blast
    have e: "e \<in> set (kmem_ranges s)" "e \<noteq> r" "size_of s e \<noteq> 0" using assms(1,3) d by (auto simp: ys geom_def page_ok_def)
    obtain s1 where s1: "kmem_freelist_remove e (upd_range r (\<lambda>x. x\<lparr>kr_size := kr_size x + size_of s e\<rparr>) s) = Some s1"
        "kr s1 = kr (upd_range r (\<lambda>x. x\<lparr>kr_size := kr_size x + size_of s e\<rparr>) s)" "kmem_range_pool s1 = kmem_range_pool s" "kmem_ranges s1 = kmem_ranges s"
        "lists_ok (kmem_range_put e (s1\<lparr>kmem_ranges := remove1 e (kmem_ranges s1)\<rparr>)) {r}"
      using drop_range_ok [OF assms(2) e(1,2) ys(2) e(3)] assms(1) by (auto simp: geom_def)
    let ?s = "kmem_range_put e (s1\<lparr>kmem_ranges := remove1 e (kmem_ranges s1)\<rparr>)"
    have rm: "remove1 e (xs @ r # ys) = xs @ r # zs" using d by (auto simp: ys remove1_append)
    note j = geom_join_next [of "kr s" xs r e zs "kmem_range_pool s", folded ys(1), folded assms(3), OF assms(1) ys(2)]
    have "kmem_merge_next r s = Some ?s"
      using list_next_ok [OF d] ys s1(1) by (simp add: kmem_merge_next_def assms(3) Let_def)
    moreover have "ksegs (kr ?s) (r # zs) = join_next (unat (size_of s r)) (ksegs (kr s) ys)"
      using j(2) s1(2) d ys assms(4) by (simp add: seg_of_def)
    ultimately show ?thesis using j(1) s1 rm d assms(3,4) by (intro exI [of _ ?s] exI [of _ zs]) (auto simp: ys)
  next
    case False
    then have "kmem_merge_next r s = Some s" "ksegs (kr s) (r # ys) = join_next (unat (size_of s r)) (ksegs (kr s) ys)"
      using list_next_ok [OF d] assms(3,4) by (cases ys; auto simp: kmem_merge_next_def seg_of_def)+
    then show ?thesis using assms by auto
  qed
qed


lemma kmem_merge_prev_ok:
  assumes "geom (kr s) (kmem_ranges s) (kmem_range_pool s)" "lists_ok s {r}" "kmem_ranges s = xs @ r # ys" "\<not> is_alloc s r"
    "coalesced (ksegs (kr s) xs)" "coalesced (ksegs (kr s) (r # ys))"
  shows "\<exists>s' xs'. kmem_merge_prev r s = Some s' \<and> geom (kr s') (kmem_ranges s') (kmem_range_pool s') \<and> lists_ok s' {r}
    \<and> kmem_ranges s' = xs' @ r # ys \<and> \<not> is_alloc s' r \<and> coalesced (ksegs (kr s') (xs' @ r # ys))
    \<and> blocks BASE (ksegs (kr s') (xs' @ r # ys)) = blocks BASE (ksegs (kr s) (xs @ r # ys))"
proof -
  have d: "distinct (xs @ r # ys)" using assms(1,3) by (auto simp: geom_def)
  have r: "seg_of (kr s r) = (unat (size_of s r), False)" using assms(4) by (simp add: seg_of_def)
  show ?thesis
  proof (cases "\<exists>ws e. xs = ws @ [e] \<and> \<not> is_alloc s e")
    case True
    then obtain ws e where xs: "xs = ws @ [e]" "\<not> is_alloc s e" by blast
    have e: "e \<in> set (kmem_ranges s)" "e \<noteq> r" "size_of s e \<noteq> 0" using assms(1,3) d by (auto simp: xs geom_def page_ok_def)
    let ?f = "\<lambda>x. x\<lparr>kr_addr := addr_of s e, kr_size := kr_size x + size_of s e\<rparr>"
    obtain s1 where s1: "kmem_freelist_remove e (upd_range r ?f s) = Some s1"
        "kr s1 = kr (upd_range r ?f s)" "kmem_range_pool s1 = kmem_range_pool s" "kmem_ranges s1 = kmem_ranges s"
        "lists_ok (kmem_range_put e (s1\<lparr>kmem_ranges := remove1 e (kmem_ranges s1)\<rparr>)) {r}"
      using drop_range_ok [OF assms(2) e(1,2) xs(2) e(3)] assms(1) by (auto simp: geom_def)
    let ?s = "kmem_range_put e (s1\<lparr>kmem_ranges := remove1 e (kmem_ranges s1)\<rparr>)"
    have rm: "remove1 e (xs @ r # ys) = ws @ r # ys" using d by (auto simp: xs remove1_append)
    have eq: "kmem_ranges s = ws @ e # r # ys" using assms(3) by (simp add: xs)
    note j = geom_join_prev [of "kr s" ws e r ys "kmem_range_pool s", folded eq, OF assms(1) xs(2)]
    have run: "kmem_merge_prev r s = Some ?s"
      using list_prev_ok [OF d] xs s1(1) by (simp add: kmem_merge_prev_def assms(3) Let_def)
    have segs: "ksegs (kr ?s) (ws @ r # ys) = ksegs (kr s) ws @ (unat (size_of s e) + unat (size_of s r), False) # ksegs (kr s) ys"
      using j(2) s1(2) d assms(4) by (simp add: seg_of_def xs)
    have "blocks BASE (ksegs (kr ?s) (ws @ r # ys)) = blocks BASE (ksegs (kr s) (xs @ r # ys))"
      unfolding segs using blocks_join [of BASE "ksegs (kr s) ws" "unat (size_of s e)"] xs(2) r by (simp add: xs(1) seg_of_def)
    moreover have "coalesced (ksegs (kr ?s) (ws @ r # ys))" unfolding segs
      using assms(4,5,6) coalesced_resize [of "ksegs (kr s) ws" "unat (size_of s e)" False "unat (size_of s e) + unat (size_of s r)"]
        coalesced_size [of "unat (size_of s r)" False "ksegs (kr s) ys" "unat (size_of s e) + unat (size_of s r)"] xs(2)
      by (subst coalesced_append) (auto simp: xs(1) seg_of_def)
    ultimately show ?thesis using run j(1) s1 rm d assms(3,4) by (intro exI [of _ ?s] exI [of _ ws]) auto
  next
    case False
    then have run: "kmem_merge_prev r s = Some s"
      using list_prev_ok [OF d] assms(3) by (cases xs rule: rev_cases) (auto simp: kmem_merge_prev_def)
    have "coalesced (ksegs (kr s) (xs @ r # ys))"
    proof (cases xs rule: rev_cases)
      case (snoc ws e)
      then have "is_alloc s e" using False by blast
      then show ?thesis using assms(5,6) coalesced_append [of "ksegs (kr s) ws" "unat (size_of s e)" True "ksegs (kr s) (r # ys)"]
        by (simp add: snoc seg_of_def r)
    qed (use assms(6) in simp)
    with run show ?thesis using assms by auto
  qed
qed

lemma free_range_ok:
  assumes "geom (kr s) (kmem_ranges s) (kmem_range_pool s)" "lists_ok s {r}" "kmem_ranges s = xs @ r # ys" "is_alloc s r"
    "coalesced (ksegs (kr s) (kmem_ranges s))"
  obtains s' where "kmem_free_range r s = Some s'" "kmem_inv s'" "klive s' = klive s - {(unat (addr_of s r), unat (size_of s r))}"
proof -
  let ?n = "unat (size_of s r)"
  let ?s1 = "upd_range r (kr_allocated_update (\<lambda>_. False)) s"
  note g = geom_range [of "kr s" xs r ys, folded assms(3), OF assms(1)]
  have seg: "ksegs (kr s) (kmem_ranges s) = ksegs (kr s) xs @ (?n, True) # ksegs (kr s) ys" using assms(4) by (simp add: assms(3) seg_of_def)
  have s1: "geom (kr ?s1) (kmem_ranges ?s1) (kmem_range_pool ?s1)" "lists_ok ?s1 {r}" "\<not> is_alloc ?s1 r"
      "ksegs (kr ?s1) xs = ksegs (kr s) xs" "ksegs (kr ?s1) ys = ksegs (kr s) ys"
    using geom_flag [OF assms(1) g(6), of False] lists_ok_cong [OF assms(2), of ?s1 "{r}"] g by simp_all
  obtain s2 ys2 where s2: "kmem_merge_next r ?s1 = Some s2" "geom (kr s2) (kmem_ranges s2) (kmem_range_pool s2)" "lists_ok s2 {r}"
      "kmem_ranges s2 = xs @ r # ys2" "\<not> is_alloc s2 r" "ksegs (kr s2) xs = ksegs (kr s) xs" "ksegs (kr s2) (r # ys2) = join_next ?n (ksegs (kr s) ys)"
    using kmem_merge_next_ok [OF s1(1,2) _ s1(3), of xs ys] assms(3) s1(4,5) by auto
  have co: "coalesced (ksegs (kr s) xs)" "coalesced ((?n, True) # ksegs (kr s) ys)"
    using assms(5) unfolding seg by (auto dest: coalesced_appendD)
  obtain s3 xs3 where s3: "kmem_merge_prev r s2 = Some s3" "geom (kr s3) (kmem_ranges s3) (kmem_range_pool s3)" "lists_ok s3 {r}"
      "kmem_ranges s3 = xs3 @ r # ys2" "\<not> is_alloc s3 r" "coalesced (ksegs (kr s3) (xs3 @ r # ys2))"
      "blocks BASE (ksegs (kr s3) (xs3 @ r # ys2)) = blocks BASE (ksegs (kr s2) (xs @ r # ys2))"
    using kmem_merge_prev_ok [OF s2(2,3,4,5)] s2(6,7) co join_next_ok(2) [OF co(2)] by metis
  have "size_of s3 r \<noteq> 0" using s3(2,4) by (auto simp: geom_def page_ok_def)
  then obtain s4 where s4: "kmem_freelist_insert r s3 = Some s4" "lists_ok s4 {}" "kr s4 = kr s3" "kmem_ranges s4 = kmem_ranges s3" "kmem_range_pool s4 = kmem_range_pool s3"
    using freelist_insert_ok [of s3 r "{}"] s3 by auto
  have "klive s4 = blocks BASE (ksegs (kr s) xs @ (?n, False) # ksegs (kr s) ys)"
    using s4 s3(4,7) s2(6,7) join_next_ok(1) [of BASE "ksegs (kr s) xs" ?n "ksegs (kr s) ys"] by (simp add: klive_def)
  also have "\<dots> = klive s - {(unat (addr_of s r), ?n)}"
    unfolding klive_def seg g(1) by (rule blocks_free) (use segs_pos [OF assms(1)] in \<open>simp add: seg\<close>)
  finally show thesis using that [of s4] s1 s2(1) s3 s4 by (simp add: kmem_free_range_def Let_def kmem_inv_def)
qed


lemma ksegs_split:
  assumes "ksegs k rs = us @ (n, b) # vs"
  obtains xs r ys where "rs = xs @ r # ys" "ksegs k xs = us" "seg_of (k r) = (n, b)" "ksegs k ys = vs"
  using assms unfolding ksegs_def by (auto simp: map_eq_append_conv map_eq_Cons_conv)

lemma klive_range:
  assumes "kmem_inv s" "(p, n) \<in> klive s"
  obtains xs r ys where "kmem_ranges s = xs @ r # ys" "is_alloc s r" "unat (addr_of s r) = p" "unat (size_of s r) = n"
proof -
  obtain us vs where us: "ksegs (kr s) (kmem_ranges s) = us @ (n, True) # vs" "p = BASE + span us"
    using assms(2) unfolding klive_def by (rule blocks_split)
  from us(1) obtain xs r ys where r: "kmem_ranges s = xs @ r # ys" "ksegs (kr s) xs = us" "seg_of (kr s r) = (n, True)"
    by (rule ksegs_split)
  have "unat (addr_of s r) = BASE + span us"
    using geom_range(1) [of "kr s" xs r ys "kmem_range_pool s"] assms(1) r by (simp add: kmem_inv_def)
  with r us(2) show thesis using that [OF r(1)] by (simp add: seg_of_def)
qed

lemma range_live:
  assumes "kmem_inv s" "r \<in> set (kmem_ranges s)" "is_alloc s r"
  shows "(unat (addr_of s r), unat (size_of s r)) \<in> klive s"
proof -
  obtain xs ys where r: "kmem_ranges s = xs @ r # ys" using assms(2) by (auto simp: in_set_conv_decomp)
  have "unat (addr_of s r) = BASE + span (ksegs (kr s) xs)"
    using geom_range(1) [of "kr s" xs r ys "kmem_range_pool s"] assms(1) r by (simp add: kmem_inv_def)
  then show ?thesis using assms(3) by (auto simp: klive_def r seg_of_def blocks_append)
qed

lemma addr_unique:
  assumes "geom k rs pool" "x \<in> set rs" "y \<in> set rs" "kr_addr (k x) = kr_addr (k y)"
  shows "x = y"
proof (rule ccontr)
  assume ne: "x \<noteq> y"
  have lt: "unat (kr_addr (k a)) < unat (kr_addr (k b))" if rs: "rs = us @ a # vs @ b # ws" for a b us vs ws
  proof -
    have "unat (kr_addr (k a)) = BASE + span (ksegs k us)" "0 < unat (kr_size (k a))" using geom_range [of k us a "vs @ b # ws"] assms(1) rs by simp_all
    moreover have "unat (kr_addr (k b)) = BASE + span (ksegs k (us @ a # vs))" using geom_range(1) [of k "us @ a # vs" b ws] assms(1) rs by simp
    ultimately show ?thesis by (simp add: seg_of_def)
  qed
  obtain us vs where us: "rs = us @ x # vs" using assms(2) by (auto simp: in_set_conv_decomp)
  then have "y \<in> set us \<or> y \<in> set vs" using assms(3) ne by auto
  then show False
  proof
    assume "y \<in> set vs"
    then obtain b c where "vs = b @ y # c" by (auto simp: in_set_conv_decomp)
    then show False using lt [of us x b y c] us assms(4) by simp
  next
    assume "y \<in> set us"
    then obtain b c where "us = b @ y # c" by (auto simp: in_set_conv_decomp)
    then show False using lt [of b y c x vs] us assms(4) by simp
  qed
qed

lemma rehash_flag: "lists_ok (s\<lparr>kmem_rehash_requested := b\<rparr>) X = lists_ok s X"
  by (simp add: lists_ok_def)

lemma free_internal_ok:
  assumes "kmem_inv s" "(unat addr, unat sz) \<in> klive s"
    and "unmap \<Longrightarrow> \<exists>mm'. kmem_unmap_loop ops addr sz free shared 0 mm = Some mm'"
  shows "\<exists>s' mm'. kmem_free_internal ops addr sz unmap free shared s mm = Some (s', mm') \<and> kmem_inv s' \<and> klive s' = klive s - {(unat addr, unat sz)}
    \<and> (if unmap then kmem_unmap_loop ops addr sz free shared 0 mm = Some mm' else mm' = mm)"
proof -
  obtain xs r ys where r: "kmem_ranges s = xs @ r # ys" "is_alloc s r" "unat (addr_of s r) = unat addr" "unat (size_of s r) = unat sz"
    using assms(1,2) by (rule klive_range)
  then have eq: "addr_of s r = addr" "size_of s r = sz" by (simp_all add: word_unat_eq_iff)
  have inv: "geom (kr s) (kmem_ranges s) (kmem_range_pool s)" "lists_ok s {}" "coalesced (ksegs (kr s) (kmem_ranges s))"
    using assms(1) by (simp_all add: kmem_inv_def)
  note g = geom_range [of "kr s" xs r ys, folded r(1), OF inv(1)]
  have al: "4096 dvd span (ksegs (kr s) zs)" if "set zs \<subseteq> set (kmem_ranges s)" for zs
    using that inv(1) by (induction zs) (auto simp: geom_def page_ok_def seg_of_def)
  have "sz \<noteq> 0" "sz mod PAGE_SIZE = 0" "addr mod PAGE_SIZE = 0"
    using g(1,2) al [of xs] arena(2) r(1) by (auto simp: page_ok_def eq mod_page intro!: dvd_add)
  then obtain b where f: "kmem_hash_find addr sz s = Some (Some r, s\<lparr>kmem_rehash_requested := b\<rparr>)"
    using hash_find_ok [OF inv(2), of r sz] r eq addr_unique [OF inv(1)] by auto
  let ?s = "af_remove r (s\<lparr>kmem_rehash_requested := b\<rparr>)"
  have s: "lists_ok ?s {r}" "kr ?s = kr s" "kmem_ranges ?s = kmem_ranges s" "kmem_range_pool ?s = kmem_range_pool s"
    using hash_remove_ok [of "s\<lparr>kmem_rehash_requested := b\<rparr>" "{}" r] inv(2) r by (simp_all add: af_remove_def rehash_flag)
  obtain s' where s': "kmem_free_range r ?s = Some s'" "kmem_inv s'" "klive s' = klive ?s - {(unat addr, unat sz)}"
    using free_range_ok [of ?s r xs ys] inv s r eq by auto
  have "klive ?s = klive s" using s by (simp add: klive_def)
  then show ?thesis using f eq s' assms(3) by (cases unmap) (auto simp: kmem_free_internal_def Let_def)
qed

lemma hash_loop_found:
  "kmem_hash_loop rs addr i s = Some (Some r, s') \<Longrightarrow> r \<in> set rs \<and> addr_of s r = addr \<and> kr s' = kr s"
  by (induction rs arbitrary: i) (auto split: if_splits)

lemma free_internal_invalid:
  assumes "kmem_inv s" "(unat addr, unat sz) \<notin> klive s"
  shows "kmem_free_internal ops addr sz unmap free shared s mm = None"
proof (rule ccontr)
  assume "kmem_free_internal ops addr sz unmap free shared s mm \<noteq> None"
  then obtain r s1 where r: "kmem_hash_find addr sz s = Some (Some r, s1)" "size_of s1 r = sz"
    by (auto simp: kmem_free_internal_def split: if_splits)
  then have l: "r \<in> set (kmem_hash s ! bucket addr)" "addr_of s r = addr" "size_of s r = sz"
    using hash_loop_found kmem_bucket_eq [of s "{}"] assms(1) by (fastforce simp: kmem_hash_find_def kmem_inv_def split: if_splits)+
  then have "r \<in> set (kmem_ranges s)" "is_alloc s r"
    using assms(1) bucket_less [of addr] by (auto simp: kmem_inv_def lists_ok_def classes_def)
  then show False using range_live [OF assms(1)] assms(2) l by auto
qed


section \<open>The loops over pages\<close>

lemma page_step:
  assumes "4096 dvd unat i" "4096 dvd unat sz" "i < sz"
  shows "unat (i + PAGE_SIZE) = unat i + 4096" "unat i + 4096 \<le> unat sz"
proof -
  have lt: "unat i < unat sz" using assms(3) by (simp add: word_less_nat_alt)
  obtain a b where "unat i = 4096 * a" "unat sz = 4096 * b" using assms(1,2) by (auto elim!: dvdE)
  with lt show le: "unat i + 4096 \<le> unat sz" by simp
  have "unat sz < 2 ^ 64" using unsigned_less [of sz, where 'a = nat] by simp
  then show "unat (i + PAGE_SIZE) = unat i + 4096" using le by (simp add: unat_word_ariths PAGE_SIZE_def)
qed

text \<open>Each loop runs its body on the pages from \<open>i\<close> on, and returns.\<close>

lemma alloc_loop_returns:
  assumes "4096 dvd unat i" "4096 dvd unat sz"
  shows "\<exists>ok j mm'. kmem_alloc_loop ops addr sz i mm = Some (ok, j, mm') \<and> 4096 dvd unat j"
  using assms(1)
proof (induction "unat sz - unat i" arbitrary: i mm rule: less_induct)
  case less
  show ?case
  proof (cases "i < sz")
    case True
    note st = page_step [OF less.prems assms(2) True]
    have "unat sz - unat (i + PAGE_SIZE) < unat sz - unat i" "4096 dvd unat (i + PAGE_SIZE)" using st less.prems by simp_all
    note IH = less.hyps [OF this]
    show ?thesis using True less.prems
      by (subst kmem_alloc_loop.simps) (auto split: option.splits prod.splits; metis IH)
  next
    case False
    then show ?thesis using less.prems by (subst kmem_alloc_loop.simps) auto
  qed
qed

lemma map_loop_returns:
  assumes "4096 dvd unat i" "4096 dvd unat sz"
  shows "\<exists>ok j mm'. kmem_map_loop ops phys addr sz i mm = Some (ok, j, mm') \<and> 4096 dvd unat j"
  using assms(1)
proof (induction "unat sz - unat i" arbitrary: i mm rule: less_induct)
  case less
  show ?case
  proof (cases "i < sz")
    case True
    note st = page_step [OF less.prems assms(2) True]
    have "unat sz - unat (i + PAGE_SIZE) < unat sz - unat i" "4096 dvd unat (i + PAGE_SIZE)" using st less.prems by simp_all
    note IH = less.hyps [OF this]
    show ?thesis using True less.prems
      by (subst kmem_map_loop.simps) (auto split: prod.splits; metis IH)
  next
    case False
    then show ?thesis using less.prems by (subst kmem_map_loop.simps) auto
  qed
qed

definition unmap_total :: "('m, 'p) mm_ops \<Rightarrow> bool" where
  "unmap_total ops \<longleftrightarrow> (\<forall>a b mm. mmu_context_unmap ops a b mm \<noteq> None)"

lemma undo_loop_returns:
  assumes "unmap_total ops" "4096 dvd unat i"
  shows "\<exists>mm'. kmem_undo_loop ops addr free i mm = Some mm'"
  using assms(2)
proof (induction "unat i" arbitrary: i mm rule: less_induct)
  case less
  show ?case
  proof (cases "i = 0")
    case False
    obtain a where a: "unat i = 4096 * a" using less.prems by (auto elim: dvdE)
    moreover have "0 < unat i" using False by (simp add: unat_gt_0)
    ultimately have "4096 \<le> unat i" by simp
    then have u: "unat (i - PAGE_SIZE) = unat i - 4096" by (simp add: unat_sub PAGE_SIZE_def word_le_nat_alt)
    have "unat (i - PAGE_SIZE) < unat i" "4096 dvd unat (i - PAGE_SIZE)" using u a \<open>0 < unat i\<close> by (simp_all add: less.prems)
    note IH = less.hyps [OF this]
    obtain x where "mmu_context_unmap ops (addr + (i - PAGE_SIZE)) True mm = Some x" using assms(1) unfolding unmap_total_def by (meson not_None_eq)
    then show ?thesis using False IH by (subst kmem_undo_loop.simps) (auto split: prod.splits)
  qed (simp add: kmem_undo_loop.simps)
qed

lemma alloc_back:
  assumes "kmem_inv s1" "klive s1 = insert (unat addr, unat sz) L" "(unat addr, unat sz) \<notin> L" "unmap_total ops" "4096 dvd unat i"
  shows "\<exists>mm1 s' mm'. kmem_undo_loop ops addr free i mm = Some mm1 \<and> kmem_raw_free ops addr sz s1 mm1 = Some (s', mm') \<and> kmem_inv s' \<and> klive s' = L"
proof -
  obtain mm1 where mm1: "kmem_undo_loop ops addr free i mm = Some mm1" using undo_loop_returns [OF assms(4,5)] by blast
  obtain s' mm' where "kmem_raw_free ops addr sz s1 mm1 = Some (s', mm')" "kmem_inv s'" "klive s' = klive s1 - {(unat addr, unat sz)}"
    using free_internal_ok [OF assms(1), of addr sz False ops False False mm1] assms(2) unfolding kmem_raw_free_def by auto
  with mm1 assms(2,3) show ?thesis by auto
qed

lemma kmem_alloc_ok:
  assumes "kmem_inv s" "refill_ok refill" "page_ok sz" "unat sz < 2 ^ 63" "flags_ok mmflag" "unmap_total ops"
    and "mmflag AND MM_BOOT \<noteq> 0 \<or> mmflag AND MM_WAIT \<noteq> 0 \<Longrightarrow> \<exists>x. free_here s {} x \<and> sz \<le> size_of s x"
  shows "\<exists>addr s' mm'. kmem_alloc ops refill sz mmflag s mm = Some (addr, s', mm') \<and> kmem_inv s' \<and>
    (if addr = 0 then klive s' = klive s
     else (unat addr, unat sz) \<notin> klive s \<and> klive s' = insert (unat addr, unat sz) (klive s))"
proof -
  obtain addr s1 where a: "kmem_raw_alloc refill sz mmflag s = Some (addr, s1)" "kmem_inv s1"
      "if addr = 0 then klive s1 = klive s else (unat addr, unat sz) \<notin> klive s \<and> klive s1 = insert (unat addr, unat sz) (klive s)"
    using raw_alloc_ok [OF assms(1-5,7)] by blast
  show ?thesis
  proof (cases "addr = 0")
    case False
    obtain ok i mm1 where l: "kmem_alloc_loop ops addr sz 0 mm = Some (ok, i, mm1)" "4096 dvd unat i"
      using alloc_loop_returns [of 0 sz ops addr mm] assms(3) by (auto simp: page_ok_def)
    show ?thesis
      using a False l alloc_back [OF a(2) _ _ assms(6) l(2), of addr sz "klive s" True mm1]
      by (cases ok) (auto simp: kmem_alloc_def)
  qed (use a in \<open>simp add: kmem_alloc_def\<close>)
qed

lemma kmem_map_ok:
  assumes "kmem_inv s" "refill_ok refill" "page_ok sz" "unat sz < 2 ^ 63" "flags_ok mmflag" "unmap_total ops" "base mod PAGE_SIZE = 0"
    and "mmflag AND MM_BOOT \<noteq> 0 \<or> mmflag AND MM_WAIT \<noteq> 0 \<Longrightarrow> \<exists>x. free_here s {} x \<and> sz \<le> size_of s x"
  shows "\<exists>addr s' mm'. kmem_map ops phys refill base sz mmflag s mm = Some (addr, s', mm') \<and> kmem_inv s' \<and>
    (if addr = 0 then klive s' = klive s
     else (unat addr, unat sz) \<notin> klive s \<and> klive s' = insert (unat addr, unat sz) (klive s))"
proof -
  obtain addr s1 where a: "kmem_raw_alloc refill sz mmflag s = Some (addr, s1)" "kmem_inv s1"
      "if addr = 0 then klive s1 = klive s else (unat addr, unat sz) \<notin> klive s \<and> klive s1 = insert (unat addr, unat sz) (klive s)"
    using raw_alloc_ok [OF assms(1-5,8)] by blast
  show ?thesis
  proof (cases "addr = 0")
    case False
    obtain ok i mm1 where l: "kmem_map_loop ops (\<lambda>i. phys (base + i)) addr sz 0 mm = Some (ok, i, mm1)" "4096 dvd unat i"
      using map_loop_returns [of 0 sz ops "\<lambda>i. phys (base + i)" addr mm] assms(3) by (auto simp: page_ok_def)
    show ?thesis
      using a False l assms(7) alloc_back [OF a(2) _ _ assms(6) l(2), of addr sz "klive s" False mm1]
      by (cases ok) (auto simp: kmem_map_def)
  qed (use a assms(7) in \<open>simp add: kmem_map_def\<close>)
qed


section \<open>Initialisation\<close>

lemma add_range_ok:
  assumes "structs_ok s" "refill_ok refill" "\<And>s. \<exists>r rs. refill s = Some (r # rs)"
  obtains r s' where "kmem_add_range refill addr sz s = Some (r, s')" "structs_ok s'" "kmem_ranges s' = kmem_ranges s @ [r]" "r \<notin> set (kmem_ranges s)"
    "kr s' r = \<lparr>kr_addr = addr, kr_size = sz, kr_allocated = False\<rparr>" "\<forall>x \<in> set (kmem_ranges s). kr s' x = kr s x"
    "kmem_freelists s' = kmem_freelists s" "kmem_hash s' = kmem_hash s" "kmem_freemap s' = kmem_freemap s"
proof -
  have ne: "fst (kmem_range_get refill s) \<noteq> None"
    using assms(3) [of s] by (auto simp: kmem_range_get_def Let_def split: list.splits)
  obtain r s1 where g: "kmem_range_get refill s = (Some r, s1)" using ne by (cases "kmem_range_get refill s") auto
  note ok = range_get_structs [OF assms(1,2), unfolded g, simplified]
  let ?s = "upd_range r (\<lambda>x. x\<lparr>kr_addr := addr, kr_size := sz\<rparr>) s1\<lparr>kmem_ranges := kmem_ranges s1 @ [r]\<rparr>"
  have run: "kmem_add_range refill addr sz s = Some (r, ?s)" by (simp add: kmem_add_range_def g)
  have "structs_ok ?s" "kr ?s r = \<lparr>kr_addr = addr, kr_size = sz, kr_allocated = False\<rparr>" "\<forall>x \<in> set (kmem_ranges s). kr ?s x = kr s x"
    using ok by (auto simp: structs_ok_def)
  moreover have "r \<notin> set (kmem_ranges s)" using ok by auto
  ultimately show thesis using that [OF run] ok by simp
qed

lemma base: "unat KERNEL_KMEM_BASE = BASE" "unat KERNEL_KMEM_SIZE = SIZE" "4096 dvd SIZE"
  by (simp_all add: BASE_def SIZE_def KERNEL_KMEM_SIZE_def)

lemma boot_range_ok:
  assumes "refill_ok refill" "\<And>s. \<exists>r rs. refill s = Some (r # rs)" "4096 dvd unat e" "BASE \<le> unat e"
    and s0: "structs_ok s0" "lists_ok s0 {}" "kmem_ranges s0 = []"
  obtains s1 where "kmem_boot_range refill e s0 = Some s1" "structs_ok s1" "lists_ok s1 {}" "addrs (kr s1) BASE (kmem_ranges s1)"
    "\<forall>x \<in> set (kmem_ranges s1). page_ok (size_of s1 x)"
    "ksegs (kr s1) (kmem_ranges s1) = (if e = KERNEL_KMEM_BASE then [] else [(unat e - BASE, True)])"
proof (cases "e = KERNEL_KMEM_BASE")
  case True
  then show thesis using that [of s0] s0 by (simp add: kmem_boot_range_def)
next
  case False
  have e: "unat (e - KERNEL_KMEM_BASE) = unat e - BASE" using assms(4) by (simp add: unat_sub word_le_nat_alt base)
  obtain r s where r: "kmem_add_range refill KERNEL_KMEM_BASE (e - KERNEL_KMEM_BASE) s0 = Some (r, s)" "structs_ok s"
      "kmem_ranges s = [r]" "kr s r = \<lparr>kr_addr = KERNEL_KMEM_BASE, kr_size = e - KERNEL_KMEM_BASE, kr_allocated = False\<rparr>"
      "kmem_freelists s = kmem_freelists s0" "kmem_hash s = kmem_hash s0" "kmem_freemap s = kmem_freemap s0"
    using add_range_ok [OF s0(1) assms(1,2)] s0(3) by (metis append_Nil)
  let ?s = "upd_range r (kr_allocated_update (\<lambda>_. True)) s"
  have "lists_ok ?s {r}" by (rule lists_ok_cong [OF s0(2)]) (use r s0(3) in auto)
  note h = hash_insert_ok [OF this]
  have "page_ok (e - KERNEL_KMEM_BASE)" using False e assms(3) arena(2) by (simp add: page_ok_def)
  moreover have "kmem_boot_range refill e s0 = Some (kmem_hash_insert r ?s)" using False r(1) by (simp add: kmem_boot_range_def)
  moreover have "structs_ok (kmem_hash_insert r ?s)" using r(2,3) h by (auto simp: structs_ok_def)
  ultimately show thesis using that [of "kmem_hash_insert r ?s"] False r h e by (simp add: seg_of_def base)
qed

lemma kmem_init_ok:
  assumes "refill_ok refill" "\<And>s. \<exists>r rs. refill s = Some (r # rs)"
    and "kmem_boot_scan tags KERNEL_KMEM_BASE = Some e" "4096 dvd unat e" "BASE \<le> unat e" "unat e < BASE + SIZE"
  shows "\<exists>s. kmem_init refill tags structures = Some s \<and> kmem_inv s
    \<and> klive s = (if e = KERNEL_KMEM_BASE then {} else {(BASE, unat e - BASE)})"
proof -
  let ?rest = "KERNEL_KMEM_SIZE - (e - KERNEL_KMEM_BASE)"
  define s0 where "s0 = \<lparr>kr = structures, kmem_ranges = [], kmem_freelists = replicate KMEM_FREELISTS [], kmem_freemap = 0,
              kmem_hash = replicate KMEM_INITIAL_HASH_SIZE [], kmem_rehash_requested = False, kmem_range_pool = []\<rparr>"
  have s0: "structs_ok s0" "lists_ok s0 {}" "kmem_ranges s0 = []"
    by (auto simp: s0_def structs_ok_def lists_ok_def classes_def KMEM_FREELISTS_def KMEM_INITIAL_HASH_SIZE_def)
  obtain s1 where s1: "kmem_boot_range refill e s0 = Some s1" "structs_ok s1" "lists_ok s1 {}" "addrs (kr s1) BASE (kmem_ranges s1)"
      "\<forall>x \<in> set (kmem_ranges s1). page_ok (size_of s1 x)"
      "ksegs (kr s1) (kmem_ranges s1) = (if e = KERNEL_KMEM_BASE then [] else [(unat e - BASE, True)])"
    using boot_range_ok [OF assms(1,2,4,5) s0] .
  obtain r s2 where r: "kmem_add_range refill e ?rest s1 = Some (r, s2)" "structs_ok s2" "kmem_ranges s2 = kmem_ranges s1 @ [r]" "r \<notin> set (kmem_ranges s1)"
      "kr s2 r = \<lparr>kr_addr = e, kr_size = ?rest, kr_allocated = False\<rparr>" "\<forall>x \<in> set (kmem_ranges s1). kr s2 x = kr s1 x"
      "kmem_freelists s2 = kmem_freelists s1" "kmem_hash s2 = kmem_hash s1" "kmem_freemap s2 = kmem_freemap s1"
    using add_range_ok [OF s1(2) assms(1,2)] .
  have "unat (e - KERNEL_KMEM_BASE) = unat e - BASE" using assms(5) by (simp add: unat_sub word_le_nat_alt base)
  then have rest: "unat ?rest = SIZE - (unat e - BASE)" using assms(5,6) by (simp add: unat_sub word_le_nat_alt base)
  have "4096 dvd unat ?rest" unfolding rest using base(3) assms(4) arena(2) by (intro dvd_diff_nat)
  then have page: "page_ok ?rest" using rest assms(5,6) unat_gt_0 [of ?rest] by (auto simp: page_ok_def)
  have "lists_ok s2 {r}" by (rule lists_ok_cong [OF s1(3)]) (use r in auto)
  then obtain s3 where s3: "kmem_freelist_insert r s2 = Some s3" "lists_ok s3 {}" "kr s3 = kr s2" "kmem_ranges s3 = kmem_ranges s2" "kmem_range_pool s3 = kmem_range_pool s2"
    using freelist_insert_ok [of s2 r "{}"] r(3,5) page by (auto simp: page_ok_def)
  have same: "ksegs (kr s2) (kmem_ranges s1) = ksegs (kr s1) (kmem_ranges s1)" "addrs (kr s2) a (kmem_ranges s1) = addrs (kr s1) a (kmem_ranges s1)" for a
    using kr_cong [OF r(6)] by simp_all
  have e: "BASE + span (ksegs (kr s1) (kmem_ranges s1)) = unat e" using s1(6) assms(5) base(1) by (auto split: if_splits)
  have segs: "ksegs (kr s2) (kmem_ranges s2) = ksegs (kr s1) (kmem_ranges s1) @ [(unat ?rest, False)]" using r(3,5) same by (simp add: seg_of_def)
  have "geom (kr s2) (kmem_ranges s2) (kmem_range_pool s2)"
    using r(2,3,5,6) s1(4,5) same e page rest assms(5,6) segs by (auto simp: geom_def structs_ok_def addrs_append)
  then have "kmem_inv s3" using s3 segs s1(6) by (auto simp: kmem_inv_def)
  moreover have "klive s3 = (if e = KERNEL_KMEM_BASE then {} else {(BASE, unat e - BASE)})" using s3 segs s1(6) by (simp add: klive_def)
  moreover have "kmem_init refill tags structures = Some s3" using assms(3) s1(1) r(1) s3(1) by (simp add: kmem_init_def s0_def Let_def)
  ultimately show ?thesis by blast
qed

lemma late_scan: "kmem_boot_scan tags b = Some e \<Longrightarrow> kmem_late_scan tags b = e"
  by (induction tags b rule: kmem_boot_scan.induct) (auto split: if_splits)

lemma late_init_ok:
  assumes "kmem_inv s" "kmem_boot_scan tags KERNEL_KMEM_BASE = Some e" "BASE \<le> unat e"
    and "klive s = (if e = KERNEL_KMEM_BASE then {} else {(BASE, unat e - BASE)})"
    and "\<exists>mm'. kmem_unmap_loop ops KERNEL_KMEM_BASE (e - KERNEL_KMEM_BASE) False True 0 mm = Some mm'"
  shows "\<exists>s' mm'. kmem_late_init ops tags s mm = Some (s', mm') \<and> kmem_inv s' \<and> klive s' = {}"
proof -
  have "unat (e - KERNEL_KMEM_BASE) = unat e - BASE" using assms(3) by (simp add: unat_sub word_le_nat_alt base)
  then show ?thesis
    using free_internal_ok [OF assms(1), of KERNEL_KMEM_BASE "e - KERNEL_KMEM_BASE" True ops False True mm] assms(1,4,5) late_scan [OF assms(2)]
    by (auto simp: kmem_late_init_def kmem_unmap_def base Let_def)
qed

section \<open>The interface\<close>

definition raw_alloc :: "(kmem \<Rightarrow> nat list option) \<Rightarrow> kmem \<Rightarrow> nat \<Rightarrow> (nat option \<times> kmem) option" where
  "raw_alloc refill s n = map_option (\<lambda>(a, s). (if a = 0 then None else Some (unat a), s)) (kmem_raw_alloc refill (word_of_nat n) 0 s)"

definition raw_free :: "('m, 'p) mm_ops \<Rightarrow> 'm \<Rightarrow> kmem \<Rightarrow> nat \<Rightarrow> nat \<Rightarrow> kmem option" where
  "raw_free ops mm s p n = map_option fst (kmem_raw_free ops (word_of_nat p) (word_of_nat n) s mm)"

interpretation kmem: range_allocator "\<lambda>s. kmem_inv s \<and> refill_ok refill" "{BASE..<BASE + SIZE}" klive "raw_alloc refill" "raw_free ops mm"
    "\<lambda>n. 0 < n \<and> 4096 dvd n \<and> n < 2 ^ 63" for refill ops mm
proof unfold_locales
  fix s p m q k assume s: "kmem_inv s \<and> refill_ok refill" and p: "(p, m) \<in> klive s"
  have "span (ksegs (kr s) (kmem_ranges s)) = SIZE" using s by (simp add: kmem_inv_def geom_def)
  then show "{p..<p + m} \<subseteq> {BASE..<BASE + SIZE}" using blocks_inside [OF p [unfolded klive_def]] by auto
  show "(p, m) = (q, k) \<or> p + m \<le> q \<or> q + k \<le> p" if "(q, k) \<in> klive s"
    using blocks_disjoint p that unfolding klive_def by blast
  obtain r where "unat (addr_of s r) = p" "unat (size_of s r) = m" using klive_range [OF conjunct1 [OF s] p] by metis
  then have "p < 2 ^ 64" "m < 2 ^ 64"
    using unsigned_less [of "addr_of s r", where 'a = nat] unsigned_less [of "size_of s r", where 'a = nat] by simp_all
  then have "unat (word_of_nat p :: u64) = p" "unat (word_of_nat m :: u64) = m" by (simp_all add: unat_of_nat take_bit_eq_mod)
  then show "\<exists>s'. raw_free ops mm s p m = Some s' \<and> (kmem_inv s' \<and> refill_ok refill) \<and> klive s' = klive s - {(p, m)}"
    using free_internal_ok [of s "word_of_nat p" "word_of_nat m" False ops False False mm] s p
    by (auto simp: raw_free_def kmem_raw_free_def)
next
  fix s and n :: nat assume s: "kmem_inv s \<and> refill_ok refill" and n: "0 < n \<and> 4096 dvd n \<and> n < 2 ^ (63::nat)"
  let ?sz = "word_of_nat n :: u64"
  have u: "unat ?sz = n" using n by (simp add: unat_of_nat take_bit_eq_mod)
  then have "page_ok ?sz" using n by (auto simp: page_ok_def)
  then obtain addr s' where "kmem_raw_alloc refill ?sz 0 s = Some (addr, s')" "kmem_inv s'"
      "if addr = 0 then klive s' = klive s else (unat addr, n) \<notin> klive s \<and> klive s' = insert (unat addr, n) (klive s)"
    using raw_alloc_ok [of s refill ?sz 0, unfolded u] s n unfolding flags_ok_def MM_WAIT_def MM_ATOMIC_def by (simp; metis)
  then show "\<exists>r st'. raw_alloc refill s n = Some (r, st') \<and> (kmem_inv st' \<and> refill_ok refill) \<and>
      (case r of None \<Rightarrow> klive st' = klive s | Some p \<Rightarrow> \<exists>m. n \<le> m \<and> (p, m) \<notin> klive s \<and> klive st' = insert (p, m) (klive s))"
    using s by (auto simp: raw_alloc_def)
qed


section \<open>Properties\<close>

text \<open>
  Property C10. With consistent allocator state (the ranges cover the arena in order, no two free neighbours,
  free lists, bitmap and hash table hold exactly the free and the allocated ranges) a request of whole pages
  returns, keeps the state consistent, and either leaves the allocations as they were or returns a new range
  of the requested size inside the arena that overlaps no other allocation. A request that may not fail needs
  a large enough free range; the structures for new ranges are unused memory.
\<close>

theorem kmem_raw_alloc_correct:
  assumes "kmem_inv s" "refill_ok refill" "page_ok sz" "unat sz < 2 ^ 63" "flags_ok mmflag"
    and "mmflag AND MM_BOOT \<noteq> 0 \<or> mmflag AND MM_WAIT \<noteq> 0 \<Longrightarrow> \<exists>x. free_here s {} x \<and> sz \<le> size_of s x"
  shows "\<exists>addr s'. kmem_raw_alloc refill sz mmflag s = Some (addr, s') \<and> kmem_inv s' \<and>
    (if addr = 0 then klive s' = klive s
     else klive s' = insert (unat addr, unat sz) (klive s) \<and> {unat addr..<unat addr + unat sz} \<subseteq> {BASE..<BASE + SIZE}
       \<and> (\<forall>(q, k) \<in> klive s. {unat addr..<unat addr + unat sz} \<inter> {q..<q + k} = {}))"
proof -
  obtain addr s' where a: "kmem_raw_alloc refill sz mmflag s = Some (addr, s')" "kmem_inv s'"
      "if addr = 0 then klive s' = klive s else (unat addr, unat sz) \<notin> klive s \<and> klive s' = insert (unat addr, unat sz) (klive s)"
    using raw_alloc_ok [OF assms] by blast
  have inv: "kmem_inv s' \<and> refill_ok refill" using a(2) assms(2) by simp
  show ?thesis
    using a kmem.inside [OF inv, of "unat addr" "unat sz"] kmem.disjoint [OF inv, of "unat addr" "unat sz"]
    by (cases "addr = 0") fastforce+
qed

text \<open>
  Property C11. Freeing succeeds exactly for the address and size of an allocation, and then takes that
  allocation out, merges the range with its free neighbours and keeps the state consistent; any other free
  stops the kernel.
\<close>

theorem kmem_raw_free_correct:
  assumes "kmem_inv s"
  shows "if (unat addr, unat sz) \<in> klive s
    then \<exists>s'. kmem_raw_free ops addr sz s mm = Some (s', mm) \<and> kmem_inv s' \<and> klive s' = klive s - {(unat addr, unat sz)}
    else kmem_raw_free ops addr sz s mm = None"
  using free_internal_ok [OF assms, of addr sz False ops False False mm] free_internal_invalid [OF assms, of addr sz]
  by (auto simp: kmem_raw_free_def)



text \<open>Witnesses: a page always has one new structure, and the loader used one page.\<close>

definition demo_refill :: "kmem \<Rightarrow> nat list option" where
  "demo_refill s = Some [Suc (fold max (kmem_ranges s) 0)]"

definition demo_ops :: "(u64 \<rightharpoonup> nat, nat) mm_ops" where
  "demo_ops = \<lparr>page_alloc = \<lambda>m. Some (0, m), page_free = \<lambda>_ m. m, mmu_context_map = \<lambda>a p m. (STATUS_SUCCESS, m(a \<mapsto> p)),
     mmu_context_unmap = \<lambda>a _ m. Some (0, m(a := None)), zero_range = \<lambda>_ _ m. m\<rparr>"

definition demo_tags :: "(u64 \<times> u64) list" where
  "demo_tags = [(KERNEL_KMEM_BASE, 0x1000)]"

lemma fold_max: "x \<in> set rs \<or> x \<le> m \<Longrightarrow> x \<le> fold max rs (m :: nat)"
  by (induction rs arbitrary: m) (auto simp: le_max_iff_disj)

lemma demo_refill: "refill_ok demo_refill" "\<exists>r rs. demo_refill s = Some (r # rs)"
  using fold_max [of _ _ 0] by (fastforce simp: refill_ok_def demo_refill_def)+

lemma demo_scan: "kmem_boot_scan demo_tags KERNEL_KMEM_BASE = Some 0xFFFFFF8000001000"
  by (simp add: demo_tags_def KERNEL_KMEM_BASE_def KERNEL_KMEM_END_def KERNEL_KMEM_SIZE_def)


lemma demo_kmem: "\<exists>s. kmem_inv s \<and> klive s = {(BASE, 0x1000)}"
  using kmem_init_ok [OF demo_refill demo_scan, of "\<lambda>_. \<lparr>kr_addr = 0, kr_size = 0, kr_allocated = False\<rparr>"]
  by (auto simp: BASE_def SIZE_def KERNEL_KMEM_BASE_def KERNEL_KMEM_SIZE_def)

lemma demo_flags: "flags_ok 0" "page_ok 0x2000" "unmap_total demo_ops"
  by (simp_all add: flags_ok_def MM_WAIT_def MM_ATOMIC_def page_ok_def unmap_total_def demo_ops_def)

theorem kmem_raw_alloc_correct_witness:
  "\<exists>s addr s'. klive s = {(BASE, 0x1000)} \<and> kmem_raw_alloc demo_refill 0x2000 0 s = Some (addr, s') \<and> kmem_inv s'"
proof -
  obtain s where s: "kmem_inv s" "klive s = {(BASE, 0x1000)}" using demo_kmem by blast
  show ?thesis using kmem_raw_alloc_correct [OF s(1) demo_refill(1) demo_flags(2) _ demo_flags(1)] s by auto
qed

theorem kmem_raw_free_correct_witness:
  "\<exists>s s'. kmem_raw_free demo_ops KERNEL_KMEM_BASE 0x1000 s Map.empty = Some (s', Map.empty) \<and> kmem_inv s' \<and> klive s' = {}"
proof -
  obtain s where s: "kmem_inv s" "klive s = {(BASE, 0x1000)}" using demo_kmem by blast
  show ?thesis using kmem_raw_free_correct [OF s(1), where addr = KERNEL_KMEM_BASE and sz = "0x1000" and ops = demo_ops and mm = Map.empty] s(2) by (auto simp: base)
qed


end
