(* ===== verification/Linked_List.thy ===== *)
theory Linked_List
  imports Kernel_Prelude
begin

text \<open>
  \<open>lib/list.h\<close>: circular doubly linked lists through the structures they link. The memory is the two fields of
  every \<open>list_t\<close>, by its address. \<open>is_list h l xs\<close> says that the list with head \<open>l\<close> has the entries \<open>xs\<close> in this
  order; each operation is shown to be the corresponding operation on lists, which is how the other theories
  use it. The functions that work backwards are the dual of those that work forwards.
\<close>

section \<open>The code\<close>

record list_heap =
  prev :: "nat \<Rightarrow> nat"
  nxt :: "nat \<Rightarrow> nat"

definition set_prev :: "nat \<Rightarrow> nat \<Rightarrow> list_heap \<Rightarrow> list_heap" where
  "set_prev x y h = h\<lparr>prev := (prev h)(x := y)\<rparr>"

definition set_next :: "nat \<Rightarrow> nat \<Rightarrow> list_heap \<Rightarrow> list_heap" where
  "set_next x y h = h\<lparr>nxt := (nxt h)(x := y)\<rparr>"

definition list_empty :: "nat \<Rightarrow> list_heap \<Rightarrow> bool" where
  "list_empty l h \<longleftrightarrow> prev h l = l \<and> nxt h l = l"

definition list_is_singular :: "nat \<Rightarrow> list_heap \<Rightarrow> bool" where
  "list_is_singular l h \<longleftrightarrow> \<not> list_empty l h \<and> nxt h l = prev h l"

definition list_first :: "nat \<Rightarrow> list_heap \<Rightarrow> nat" where "list_first l h = nxt h l"
definition list_last :: "nat \<Rightarrow> list_heap \<Rightarrow> nat" where "list_last l h = prev h l"

definition list_real_remove :: "nat \<Rightarrow> list_heap \<Rightarrow> list_heap" where
  "list_real_remove e h = (
     let h = set_next (prev h e) (nxt h e) h
     in set_prev (nxt h e) (prev h e) h)"

definition list_init :: "nat \<Rightarrow> list_heap \<Rightarrow> list_heap" where
  "list_init l h = set_prev l l (set_next l l h)"

definition list_add_before :: "nat \<Rightarrow> nat \<Rightarrow> list_heap \<Rightarrow> list_heap" where
  "list_add_before exist e h = (
     let h = list_real_remove e h;
         h = set_next (prev h exist) e h;
         h = set_next e exist h;
         h = set_prev e (prev h exist) h
     in set_prev exist e h)"

definition list_add_after :: "nat \<Rightarrow> nat \<Rightarrow> list_heap \<Rightarrow> list_heap" where
  "list_add_after exist e h = (
     let h = list_real_remove e h;
         h = set_prev (nxt h exist) e h;
         h = set_next e (nxt h exist) h;
         h = set_prev e exist h
     in set_next exist e h)"

definition list_append :: "nat \<Rightarrow> nat \<Rightarrow> list_heap \<Rightarrow> list_heap" where
  "list_append l e h = list_add_before l e h"

definition list_prepend :: "nat \<Rightarrow> nat \<Rightarrow> list_heap \<Rightarrow> list_heap" where
  "list_prepend l e h = list_add_after l e h"

definition list_remove :: "nat \<Rightarrow> list_heap \<Rightarrow> list_heap" where
  "list_remove e h = list_init e (list_real_remove e h)"

definition list_splice_before :: "nat \<Rightarrow> nat \<Rightarrow> list_heap \<Rightarrow> list_heap" where
  "list_splice_before position l h =
     (if \<not> list_empty l h
      then let h = set_prev (nxt h l) (prev h position) h;
               h = set_next (prev h position) (nxt h l) h;
               h = set_prev position (prev h l) h;
               h = set_next (prev h l) position h
           in list_init l h
      else h)"

definition list_splice_after :: "nat \<Rightarrow> nat \<Rightarrow> list_heap \<Rightarrow> list_heap" where
  "list_splice_after position l h =
     (if \<not> list_empty l h
      then let h = set_next (prev h l) (nxt h position) h;
               h = set_prev (nxt h position) (prev h l) h;
               h = set_next position (nxt h l) h;
               h = set_prev (nxt h l) position h
           in list_init l h
      else h)"

text \<open>
  The loops: \<open>LIST_FOREACH\<close> with a body that does not change the links, and \<open>LIST_FOREACH_SAFE\<close>, which has read
  the next entry before the body runs. The body has a state \<open>'s\<close> of its own. In the second loop it may change the
  links and free entries, so that reading a \<open>next\<close> field (\<open>rd\<close>) may fail.
\<close>

partial_function (option) list_foreach_loop :: "nat \<Rightarrow> (nat \<Rightarrow> 's \<Rightarrow> 's) \<Rightarrow> nat \<Rightarrow> list_heap \<Rightarrow> 's \<Rightarrow> 's option" where
  "list_foreach_loop l body iter h s =
     (if iter \<noteq> l then list_foreach_loop l body (nxt h iter) h (body iter s) else Some s)"

definition LIST_FOREACH :: "nat \<Rightarrow> (nat \<Rightarrow> 's \<Rightarrow> 's) \<Rightarrow> list_heap \<Rightarrow> 's \<Rightarrow> 's option" where
  "LIST_FOREACH l body h s = list_foreach_loop l body (nxt h l) h s"

partial_function (option) list_foreach_safe_loop ::
  "nat \<Rightarrow> (nat \<Rightarrow> 's \<Rightarrow> nat option) \<Rightarrow> (nat \<Rightarrow> 's \<Rightarrow> 's option) \<Rightarrow> nat \<Rightarrow> nat \<Rightarrow> 's \<Rightarrow> 's option" where
  "list_foreach_safe_loop l rd body iter next_iter s =
     (if iter \<noteq> l
      then do {
        s \<leftarrow> body iter s;
        next_next \<leftarrow> rd next_iter s;
        list_foreach_safe_loop l rd body next_iter next_next s}
      else Some s)"

definition LIST_FOREACH_SAFE :: "nat \<Rightarrow> (nat \<Rightarrow> 's \<Rightarrow> nat option) \<Rightarrow> (nat \<Rightarrow> 's \<Rightarrow> 's option) \<Rightarrow> 's \<Rightarrow> 's option" where
  "LIST_FOREACH_SAFE l rd body s = do {
     iter \<leftarrow> rd l s;
     next_iter \<leftarrow> rd iter s;
     list_foreach_safe_loop l rd body iter next_iter s}"

declare list_foreach_loop.simps [code] list_foreach_safe_loop.simps [code]

section \<open>Chains of links\<close>

fun linked :: "list_heap \<Rightarrow> nat list \<Rightarrow> bool" where
  "linked h (x # y # zs) \<longleftrightarrow> nxt h x = y \<and> prev h y = x \<and> linked h (y # zs)"
| "linked h _ \<longleftrightarrow> True"

definition is_list :: "list_heap \<Rightarrow> nat \<Rightarrow> nat list \<Rightarrow> bool" where
  "is_list h l xs \<longleftrightarrow> distinct (l # xs) \<and> linked h (l # xs @ [l])"

lemma linked_append:
  "xs \<noteq> [] \<Longrightarrow> ys \<noteq> [] \<Longrightarrow> linked h (xs @ ys) \<longleftrightarrow> linked h xs \<and> nxt h (last xs) = hd ys \<and> prev h (hd ys) = last xs \<and> linked h ys"
  by (induction h xs rule: linked.induct) (auto, (cases ys; auto)+)

lemma linked_cong:
  "\<forall>x \<in> set (butlast xs). nxt h' x = nxt h x \<Longrightarrow> \<forall>x \<in> set (tl xs). prev h' x = prev h x \<Longrightarrow> linked h' xs = linked h xs"
  by (induction h xs rule: linked.induct) auto


lemma set_fields [simp]:
  "nxt (set_next x y h) = (nxt h)(x := y)" "prev (set_next x y h) = prev h"
  "prev (set_prev x y h) = (prev h)(x := y)" "nxt (set_prev x y h) = nxt h"
  by (simp_all add: set_next_def set_prev_def)

text \<open>A list cut before some position, with the head closing the ring.\<close>

lemma is_list_cut:
  "is_list h l (us @ ws) \<longleftrightarrow> distinct (l # us @ ws) \<and> linked h (l # us) \<and> nxt h (last (l # us)) = hd (ws @ [l])
     \<and> prev h (hd (ws @ [l])) = last (l # us) \<and> linked h (ws @ [l])"
  using linked_append [of "l # us" "ws @ [l]" h] by (simp add: is_list_def)

lemma is_list_frame:
  "is_list h l xs \<Longrightarrow> \<forall>x \<in> set (l # xs). nxt h' x = nxt h x \<and> prev h' x = prev h x \<Longrightarrow> is_list h' l xs"
  using linked_cong [of "l # xs @ [l]" h' h] by (auto simp: is_list_def butlast_append)

lemma last_in: "last (l # us) \<in> set (l # us)" and hd_in: "hd (ws @ [l]) \<in> insert l (set ws)"
  by (auto simp: hd_append)

lemma not_in_butlast: "distinct xs \<Longrightarrow> xs \<noteq> [] \<Longrightarrow> last xs \<notin> set (butlast xs)"
  by (cases xs rule: rev_cases) auto

lemma not_in_tl: "distinct xs \<Longrightarrow> xs \<noteq> [] \<Longrightarrow> hd xs \<notin> set (tl xs)"
  by (cases xs) auto

lemma linked_inside:
  assumes "linked h ys" "distinct ys" "ys \<noteq> []" "\<And>y. y \<in> set ys \<Longrightarrow> y \<noteq> last ys \<Longrightarrow> nxt h' y = nxt h y"
    "\<And>y. y \<in> set ys \<Longrightarrow> y \<noteq> hd ys \<Longrightarrow> prev h' y = prev h y"
  shows "linked h' ys"
proof -
  have "\<forall>y \<in> set (butlast ys). nxt h' y = nxt h y"
    using assms(4) not_in_butlast [OF assms(2,3)] by (metis in_set_butlastD)
  moreover have "\<forall>y \<in> set (tl ys). prev h' y = prev h y"
    using assms(5) not_in_tl [OF assms(2,3)] by (metis list.set_sel(2) assms(3))
  ultimately show ?thesis using linked_cong [of ys h' h] assms(1) by blast
qed

text \<open>Changing the links at the cut only.\<close>

lemma relink:
  assumes "distinct (l # us @ ws)" "linked h (l # us)" "linked h (ws @ [l])"
    and nxt: "\<And>x. x \<in> set (l # us @ ws) \<Longrightarrow> x \<noteq> last (l # us) \<Longrightarrow> nxt h' x = nxt h x"
    and prev: "\<And>x. x \<in> set (l # us @ ws) \<Longrightarrow> x \<noteq> hd (ws @ [l]) \<Longrightarrow> prev h' x = prev h x"
  shows "linked h' (l # us)" "linked h' (ws @ [l])"
proof -
  show "linked h' (l # us)"
  proof (rule linked_inside [OF assms(2)])
    fix y assume "y \<in> set (l # us)" "y \<noteq> hd (l # us)"
    moreover from this have "y \<noteq> hd (ws @ [l])" using hd_in [of ws l] assms(1) by auto
    ultimately show "prev h' y = prev h y" using prev [of y] by simp
  qed (use assms(1) in \<open>auto intro!: nxt\<close>)
  show "linked h' (ws @ [l])"
  proof (rule linked_inside [OF assms(3)])
    fix y assume "y \<in> set (ws @ [l])" "y \<noteq> last (ws @ [l])"
    moreover from this have "y \<noteq> last (l # us)" using last_in [of l us] assms(1) by auto
    ultimately show "nxt h' y = nxt h y" using nxt [of y] by simp
  qed (use assms(1) in \<open>auto intro!: prev\<close>)
qed

lemma list_real_remove_fields:
  "p \<noteq> e \<Longrightarrow> prev h e = p \<Longrightarrow> nxt (list_real_remove e h) = (nxt h)(p := nxt h e) \<and> prev (list_real_remove e h) = (prev h)(nxt h e := p)"
  by (simp add: list_real_remove_def Let_def)

lemma real_remove_ok:
  assumes "is_list h l (us @ e # vs)"
  shows "is_list (list_real_remove e h) l (us @ vs)"
    "x \<notin> set (l # us @ vs) \<Longrightarrow> nxt (list_real_remove e h) x = nxt h x \<and> prev (list_real_remove e h) x = prev h x"
proof -
  let ?p = "last (l # us)" and ?n = "hd (vs @ [l])"
  have cut: "distinct (l # us @ e # vs)" "linked h (l # us)" "nxt h ?p = e" "prev h e = ?p" "linked h (e # vs @ [l])"
    using assms by (simp_all add: is_list_cut [of h l us "e # vs"])
  have e: "nxt h e = ?n" "linked h (vs @ [l])" using cut(5) linked_append [of "[e]" "vs @ [l]" h] by simp_all
  have ne: "?p \<noteq> e" using last_in [of l us] cut(1) by auto
  note f = list_real_remove_fields [OF ne cut(4), unfolded e(1)]
  have "linked (list_real_remove e h) (l # us)" "linked (list_real_remove e h) (vs @ [l])"
    using cut(1) f by (intro relink [OF _ cut(2) e(2)]; simp)+
  then show "is_list (list_real_remove e h) l (us @ vs)" using cut(1) f by (simp add: is_list_cut)
  show "nxt (list_real_remove e h) x = nxt h x \<and> prev (list_real_remove e h) x = prev h x" if "x \<notin> set (l # us @ vs)"
    using that f last_in [of l us] hd_in [of vs l] by auto
qed

lemma real_remove_unlinked: "is_list h e [] \<Longrightarrow> list_real_remove e h = h"
  by (simp add: is_list_def list_real_remove_def set_next_def set_prev_def fun_upd_idem)

lemma link_before_ok:
  assumes "is_list h l (us @ ws)" "e \<notin> set (l # us @ ws)"
  defines "x \<equiv> hd (ws @ [l])"
  defines "h' \<equiv> set_prev x e (set_prev e (prev h x) (set_next e x (set_next (prev h x) e h)))"
  shows "is_list h' l (us @ e # ws)" "y \<notin> set (l # us @ e # ws) \<Longrightarrow> nxt h' y = nxt h y \<and> prev h' y = prev h y"
proof -
  let ?p = "last (l # us)"
  have cut: "distinct (l # us @ ws)" "linked h (l # us)" "nxt h ?p = x" "prev h x = ?p" "linked h (ws @ [l])"
    using assms(1) by (simp_all add: is_list_cut x_def)
  have ne: "?p \<noteq> e" "x \<noteq> e" using last_in [of l us] hd_in [of ws l] assms(2) by (auto simp: x_def)
  have f: "nxt h' = (nxt h)(?p := e, e := x)" "prev h' = (prev h)(e := ?p, x := e)" by (simp_all add: h'_def cut(4))
  have "linked h' (l # us)" "linked h' (ws @ [l])"
    using assms(2) f by (intro relink [OF cut(1,2,5)]; auto simp: x_def)+
  then show "is_list h' l (us @ e # ws)"
    using cut(1) assms(2) f ne linked_append [of "[e]" "ws @ [l]" h'] by (auto simp: is_list_cut x_def)
  show "nxt h' y = nxt h y \<and> prev h' y = prev h y" if "y \<notin> set (l # us @ e # ws)"
    using that f last_in [of l us] hd_in [of ws l] by (auto simp: x_def)
qed


section \<open>Adding, removing, splicing\<close>

lemma add_before_unlinked:
  assumes "is_list h l (us @ ws)" "e \<notin> set (l # us @ ws)" "is_list h e []"
  shows "is_list (list_add_before (hd (ws @ [l])) e h) l (us @ e # ws)"
    "y \<notin> set (l # us @ e # ws) \<Longrightarrow> nxt (list_add_before (hd (ws @ [l])) e h) y = nxt h y \<and> prev (list_add_before (hd (ws @ [l])) e h) y = prev h y"
proof -
  have h: "list_add_before (hd (ws @ [l])) e h = set_prev (hd (ws @ [l])) e (set_prev e (prev h (hd (ws @ [l])))
      (set_next e (hd (ws @ [l])) (set_next (prev h (hd (ws @ [l]))) e h)))"
    unfolding list_add_before_def Let_def real_remove_unlinked [OF assms(3)] by (simp del: hd_append)
  show "is_list (list_add_before (hd (ws @ [l])) e h) l (us @ e # ws)"
    "y \<notin> set (l # us @ e # ws) \<Longrightarrow> nxt (list_add_before (hd (ws @ [l])) e h) y = nxt h y \<and> prev (list_add_before (hd (ws @ [l])) e h) y = prev h y"
    unfolding h using link_before_ok [OF assms(1,2)] by blast+
qed

text \<open>An entry that is in a list already is taken out of it first.\<close>

lemma add_before_moves:
  assumes "is_list h l (us @ ws)" "is_list h m (as @ e # bs)" "set (l # us @ ws) \<inter> set (m # as @ e # bs) = {}"
  defines "h' \<equiv> list_add_before (hd (ws @ [l])) e h"
  shows "is_list h' l (us @ e # ws)" "is_list h' m (as @ bs)"
proof -
  let ?h = "list_real_remove e h" and ?x = "hd (ws @ [l])"
  note r = real_remove_ok [OF assms(2)]
  have l: "is_list ?h l (us @ ws)"
  proof (rule is_list_frame [OF assms(1)], rule ballI)
    fix y assume "y \<in> set (l # us @ ws)"
    then show "nxt ?h y = nxt h y \<and> prev ?h y = prev h y" using r(2) [of y] assms(3) by auto
  qed
  have e: "e \<notin> set (l # us @ ws)" "e \<notin> set (m # as @ bs)" using assms(2,3) by (auto simp: is_list_def)
  have h': "h' = set_prev ?x e (set_prev e (prev ?h ?x) (set_next e ?x (set_next (prev ?h ?x) e ?h)))"
    unfolding h'_def list_add_before_def Let_def by (simp del: hd_append)
  show "is_list h' l (us @ e # ws)" unfolding h' by (rule link_before_ok(1) [OF l e(1)])
  show "is_list h' m (as @ bs)"
  proof (rule is_list_frame [OF r(1)], rule ballI)
    fix y assume "y \<in> set (m # as @ bs)"
    then have "y \<notin> set (l # us @ e # ws)" using assms(3) e(2) by auto
    then show "nxt h' y = nxt ?h y \<and> prev h' y = prev ?h y" unfolding h' by (rule link_before_ok(2) [OF l e(1)])
  qed
qed

lemma list_remove_ok:
  assumes "is_list h l (us @ e # vs)"
  shows "is_list (list_remove e h) l (us @ vs)" "is_list (list_remove e h) e []"
proof -
  have "e \<notin> set (l # us @ vs)" using assms by (auto simp: is_list_def)
  then have "\<forall>x \<in> set (l # us @ vs). nxt (list_remove e h) x = nxt (list_real_remove e h) x \<and> prev (list_remove e h) x = prev (list_real_remove e h) x"
    by (auto simp: list_remove_def list_init_def)
  then show "is_list (list_remove e h) l (us @ vs)" using real_remove_ok(1) [OF assms] by (rule is_list_frame [rotated])
  show "is_list (list_remove e h) e []" by (simp add: is_list_def list_remove_def list_init_def)
qed

lemma empty_ok: "is_list h l xs \<Longrightarrow> list_empty l h \<longleftrightarrow> xs = []"
  by (cases xs) (auto simp: is_list_def list_empty_def)

lemma first_last_ok:
  assumes "is_list h l xs"
  shows "list_first l h = hd (xs @ [l])" "list_last l h = last (l # xs)"
  using is_list_cut [of h l "[]" xs] is_list_cut [of h l xs "[]"] assms by (auto simp: list_first_def list_last_def)

lemma singular_ok:
  assumes "is_list h l xs"
  shows "list_is_singular l h \<longleftrightarrow> length xs = 1"
proof (cases xs)
  case (Cons x ys)
  have "hd (xs @ [l]) = x" "last (l # xs) = (if ys = [] then x else last ys)" by (simp_all add: Cons)
  moreover have "last ys \<noteq> x" if "ys \<noteq> []"
    using assms last_in_set [OF that] by (auto simp: is_list_def Cons simp del: last_in_set)
  ultimately show ?thesis
    using first_last_ok [OF assms] empty_ok [OF assms] by (auto simp: list_is_singular_def list_first_def list_last_def Cons)
qed (use empty_ok [OF assms] in \<open>simp add: list_is_singular_def\<close>)

lemma splice_before_links:
  assumes "nxt h m = f" "prev h m = z" "prev h x = p" "m \<noteq> f" "m \<noteq> z" "x \<noteq> m" "p \<noteq> m" "x \<noteq> f" "p \<noteq> z"
  shows "nxt (list_splice_before x m h) = (nxt h)(p := f, z := x, m := m)"
    "prev (list_splice_before x m h) = (prev h)(f := p, x := z, m := m)"
  using assms by (auto simp: list_splice_before_def Let_def list_init_def list_empty_def)

lemma splice_before_ok:
  assumes "is_list h l (us @ ws)" "is_list h m ys" "set (l # us @ ws) \<inter> set (m # ys) = {}"
  shows "is_list (list_splice_before (hd (ws @ [l])) m h) l (us @ ys @ ws) \<and> is_list (list_splice_before (hd (ws @ [l])) m h) m []"
proof (cases "ys = []")
  case True
  then show ?thesis using assms empty_ok [OF assms(2)] by (simp add: list_splice_before_def)
next
  case False
  define x p f z where d: "x = hd (ws @ [l])" "p = last (l # us)" "f = hd ys" "z = last ys"
  define h' where "h' = list_splice_before x m h"
  have cut: "distinct (l # us @ ws)" "linked h (l # us)" "prev h x = p" "linked h (ws @ [l])"
    using assms(1) by (simp_all add: is_list_cut d)
  have ys: "nxt h m = f" "prev h m = z" "distinct (m # ys)" "linked h ys"
    using first_last_ok [OF assms(2)] False assms(2) is_list_cut [of h m ys "[]"] linked_append [of "[m]" ys h]
    by (simp_all add: list_first_def list_last_def is_list_def d)
  have ins: "x \<in> set (l # us @ ws)" "p \<in> set (l # us @ ws)" "f \<in> set ys" "z \<in> set ys"
    using last_in [of l us] hd_in [of ws l] False by (auto simp: d)
  have ne: "m \<noteq> f" "m \<noteq> z" "x \<noteq> m" "p \<noteq> m" "x \<noteq> f" "p \<noteq> z" "x \<notin> set ys" "p \<notin> set ys" using ins ys(3) assms(3) by auto
  note h' = splice_before_links [OF ys(1,2) cut(3) ne(1-6), folded h'_def]
  have out: "y \<noteq> m" "y \<noteq> z" "y \<noteq> f" if "y \<in> set (l # us @ ws)" for y using that ins assms(3) by auto
  have c: "linked h' (l # us)" "linked h' (ws @ [l])"
    using out by (intro relink [OF cut(1,2,4), folded d]; simp add: h')+
  have y: "linked h' ys" by (rule linked_inside [OF ys(4)]) (use ys(3) False ne in \<open>auto simp: h' simp flip: d\<close>)
  have k: "nxt h' p = f" "prev h' f = p" "nxt h' z = x" "prev h' x = z" "nxt h' m = m" "prev h' m = m"
    using ne by (auto simp: h')
  have "linked h' (ys @ ws @ [l])" using y c(2) k False by (simp add: linked_append d)
  moreover have "distinct (l # us @ ys @ ws)" using ys(3) assms(3) cut(1) by auto
  ultimately have "is_list h' l (us @ ys @ ws)"
    using c(1) k False is_list_cut [of h' l us "ys @ ws"] by (simp add: d)
  then show ?thesis using k by (simp add: is_list_def h'_def d)
qed

lemma splice_before_frame:
  assumes "is_list h l (us @ ws)" "is_list h m ys" "y \<notin> set (l # us @ ws)" "y \<notin> set (m # ys)"
  shows "nxt (list_splice_before (hd (ws @ [l])) m h) y = nxt h y \<and> prev (list_splice_before (hd (ws @ [l])) m h) y = prev h y"
proof -
  have "prev h (hd (ws @ [l])) = last (l # us)" using assms(1) by (simp add: is_list_cut)
  moreover have "nxt h m \<in> set (m # ys)" "prev h m \<in> set (m # ys)"
    using first_last_ok [OF assms(2)] last_in [of m ys] hd_in [of ys m] by (simp_all add: list_first_def list_last_def)
  ultimately show ?thesis
    using assms(3,4) last_in [of l us] hd_in [of ws l]
    by (auto simp: list_splice_before_def Let_def list_init_def simp del: last.simps)
qed

section \<open>The dual of a list\<close>

definition dual :: "list_heap \<Rightarrow> list_heap" where
  "dual h = \<lparr>prev = nxt h, nxt = prev h\<rparr>"

lemma dual_fields [simp]: "prev (dual h) = nxt h" "nxt (dual h) = prev h" "dual (dual h) = h"
  by (simp_all add: dual_def)

lemma linked_snoc: "linked h (zs @ [y, x]) \<longleftrightarrow> linked h (zs @ [y]) \<and> nxt h y = x \<and> prev h x = y"
  using linked_append [of "zs @ [y]" "[x]" h] by simp

lemma linked_dual: "linked (dual h) (rev xs) \<longleftrightarrow> linked h xs"
  by (induction h xs rule: linked.induct) (auto simp: linked_snoc)

lemma is_list_dual: "is_list (dual h) l (rev xs) \<longleftrightarrow> is_list h l xs"
  using linked_dual [of h "l # xs @ [l]"] by (auto simp: is_list_def)

lemma heap_eqI: "nxt h = nxt h' \<Longrightarrow> prev h = prev h' \<Longrightarrow> h = (h' :: list_heap)"
  by simp

lemma list_real_remove_nxt: "nxt (list_real_remove e h) = (nxt h)(prev h e := nxt h e)"
  and list_real_remove_prev: "prev (list_real_remove e h) = (prev h)(nxt h e := prev h e)"
  by (auto simp: list_real_remove_def Let_def)

lemma list_add_after_dual: "list_add_after x e h = dual (list_add_before x e (dual h))"
  by (rule heap_eqI) (auto simp: list_add_after_def list_add_before_def Let_def list_real_remove_nxt list_real_remove_prev)

lemma list_splice_after_dual: "list_splice_after x m h = dual (list_splice_before x m (dual h))"
  by (rule heap_eqI) (auto simp: list_splice_after_def list_splice_before_def Let_def list_init_def list_empty_def)

lemma list_add_before_linked: "x \<noteq> e \<Longrightarrow> list_add_before x e h = list_add_before x e (list_remove e h)"
  by (rule heap_eqI)
    (auto simp: list_add_before_def Let_def list_real_remove_nxt list_real_remove_prev list_remove_def list_init_def fun_eq_iff)

lemma list_add_after_linked: "x \<noteq> e \<Longrightarrow> list_add_after x e h = list_add_after x e (list_remove e h)"
  by (rule heap_eqI)
    (auto simp: list_add_after_def Let_def list_real_remove_nxt list_real_remove_prev list_remove_def list_init_def fun_eq_iff)

section \<open>What the operations do to all lists\<close>

text \<open>
  The state of the specification gives every list head, and every entry that is in no list (which is an empty
  list of its own), its entries. A step gives the effect of an operation; an entry that is in a list is removed
  from it before it is added elsewhere.
\<close>

type_synonym lists = "nat \<rightharpoonup> nat list"

datatype list_op =
    List_init nat
  | List_remove nat
  | List_add_before nat nat
  | List_add_after nat nat
  | List_append nat nat
  | List_prepend nat nat
  | List_splice_before nat nat
  | List_splice_after nat nat

fun list_exec :: "list_op \<Rightarrow> list_heap \<Rightarrow> list_heap" where
  "list_exec (List_init l) h = list_init l h"
| "list_exec (List_remove e) h = list_remove e h"
| "list_exec (List_add_before x e) h = list_add_before x e h"
| "list_exec (List_add_after x e) h = list_add_after x e h"
| "list_exec (List_append l e) h = list_append l e h"
| "list_exec (List_prepend l e) h = list_prepend l e h"
| "list_exec (List_splice_before x m) h = list_splice_before x m h"
| "list_exec (List_splice_after x m) h = list_splice_after x m h"

inductive list_spec :: "list_op \<Rightarrow> lists \<Rightarrow> lists \<Rightarrow> bool" where
  spec_init: "\<forall>m xs. L m = Some xs \<longrightarrow> l \<notin> set (m # xs) \<Longrightarrow> list_spec (List_init l) L (L(l \<mapsto> []))"
| spec_remove: "L l = Some (us @ e # vs) \<Longrightarrow> list_spec (List_remove e) L (L(l \<mapsto> us @ vs, e \<mapsto> []))"
| spec_remove_unlinked: "L e = Some [] \<Longrightarrow> list_spec (List_remove e) L L"
| spec_before: "L e = Some [] \<Longrightarrow> L l = Some (us @ ws) \<Longrightarrow> l \<noteq> e \<Longrightarrow>
    list_spec (List_add_before (hd (ws @ [l])) e) L ((L(l \<mapsto> us @ e # ws))(e := None))"
| spec_after: "L e = Some [] \<Longrightarrow> L l = Some (us @ ws) \<Longrightarrow> l \<noteq> e \<Longrightarrow>
    list_spec (List_add_after (last (l # us)) e) L ((L(l \<mapsto> us @ e # ws))(e := None))"
| spec_move_before: "list_spec (List_remove e) L M \<Longrightarrow> x \<noteq> e \<Longrightarrow> list_spec (List_add_before x e) M N \<Longrightarrow>
    list_spec (List_add_before x e) L N"
| spec_move_after: "list_spec (List_remove e) L M \<Longrightarrow> x \<noteq> e \<Longrightarrow> list_spec (List_add_after x e) M N \<Longrightarrow>
    list_spec (List_add_after x e) L N"
| spec_append: "list_spec (List_add_before l e) L M \<Longrightarrow> L l = Some xs \<Longrightarrow> list_spec (List_append l e) L M"
| spec_prepend: "list_spec (List_add_after l e) L M \<Longrightarrow> L l = Some xs \<Longrightarrow> list_spec (List_prepend l e) L M"
| spec_splice_before: "L l = Some (us @ ws) \<Longrightarrow> L m = Some ys \<Longrightarrow> l \<noteq> m \<Longrightarrow>
    list_spec (List_splice_before (hd (ws @ [l])) m) L (L(l \<mapsto> us @ ys @ ws, m \<mapsto> []))"
| spec_splice_after: "L l = Some (us @ ws) \<Longrightarrow> L m = Some ys \<Longrightarrow> l \<noteq> m \<Longrightarrow>
    list_spec (List_splice_after (last (l # us)) m) L (L(l \<mapsto> us @ ys @ ws, m \<mapsto> []))"

definition ring :: "lists \<Rightarrow> nat \<Rightarrow> nat set" where
  "ring L l = (case L l of None \<Rightarrow> {} | Some xs \<Rightarrow> set (l # xs))"

definition disjoint_lists :: "lists \<Rightarrow> bool" where
  "disjoint_lists L \<longleftrightarrow> (\<forall>l m. l \<noteq> m \<longrightarrow> ring L l \<inter> ring L m = {})"

definition lists_ok :: "list_heap \<Rightarrow> lists \<Rightarrow> bool" where
  "lists_ok h L \<longleftrightarrow> disjoint_lists L \<and> (\<forall>l xs. L l = Some xs \<longrightarrow> is_list h l xs)"

lemma ring_simps [simp]: "L l = Some xs \<Longrightarrow> ring L l = set (l # xs)" "L l = None \<Longrightarrow> ring L l = {}"
  by (simp_all add: ring_def)

lemma lists_okD: "lists_ok h L \<Longrightarrow> L l = Some xs \<Longrightarrow> is_list h l xs"
  "lists_ok h L \<Longrightarrow> l \<noteq> m \<Longrightarrow> ring L l \<inter> ring L m = {}"
  unfolding lists_ok_def disjoint_lists_def by blast+

lemma disjoint_lists_upd:
  assumes "disjoint_lists L" "\<And>k. k \<noteq> l \<Longrightarrow> k \<noteq> m \<Longrightarrow> M k = L k"
    "ring M l \<inter> ring M m = {}" "ring M l \<union> ring M m \<subseteq> ring L l \<union> ring L m"
  shows "disjoint_lists M"
  unfolding disjoint_lists_def
proof (intro allI impI)
  have same: "ring M k = ring L k" if "k \<noteq> l" "k \<noteq> m" for k using assms(2) [OF that] by (simp add: ring_def)
  have old: "ring L a \<inter> ring L b = {}" if "a \<noteq> b" for a b using assms(1) that by (simp add: disjoint_lists_def)
  fix a b :: nat assume ab: "a \<noteq> b"
  show "ring M a \<inter> ring M b = {}"
  proof (cases "a \<in> {l, m}"; cases "b \<in> {l, m}")
    assume "a \<in> {l, m}" "b \<in> {l, m}" then show ?thesis using ab assms(3) by auto
  next
    assume "a \<in> {l, m}" "b \<notin> {l, m}" then show ?thesis using assms(4) same [of b] old [of l b] old [of m b] by auto
  next
    assume "a \<notin> {l, m}" "b \<in> {l, m}" then show ?thesis using assms(4) same [of a] old [of a l] old [of a m] by auto
  next
    assume "a \<notin> {l, m}" "b \<notin> {l, m}" then show ?thesis using ab same old by simp
  qed
qed

text \<open>An operation that changes only links of the entries in \<open>A\<close> concerns only the lists that meet \<open>A\<close>.\<close>

lemma lists_okI:
  assumes "lists_ok h L" "disjoint_lists M"
    and frame: "\<And>y. y \<notin> A \<Longrightarrow> nxt h' y = nxt h y \<and> prev h' y = prev h y"
    and lists: "\<And>l xs. M l = Some xs \<Longrightarrow> is_list h' l xs \<or> L l = Some xs \<and> set (l # xs) \<inter> A = {}"
  shows "lists_ok h' M"
  unfolding lists_ok_def
proof (intro conjI allI impI)
  fix l xs assume "M l = Some xs"
  then consider "is_list h' l xs" | "L l = Some xs" "set (l # xs) \<inter> A = {}" using lists by blast
  then show "is_list h' l xs"
  proof cases
    case 2
    then have "\<forall>x \<in> set (l # xs). nxt h' x = nxt h x \<and> prev h' x = prev h x" using frame by blast
    then show ?thesis using lists_okD(1) [OF assms(1) 2(1)] is_list_frame by blast
  qed
qed (rule assms(2))

text \<open>The operations concern at most the two lists \<open>l\<close> and \<open>m\<close>.\<close>

lemma lists_ok_step:
  assumes "lists_ok h L" "l \<noteq> m" "\<And>k. k \<noteq> l \<Longrightarrow> k \<noteq> m \<Longrightarrow> M k = L k"
    "ring M l \<inter> ring M m = {}" "ring M l \<union> ring M m \<subseteq> ring L l \<union> ring L m"
    and lists: "\<And>xs. M l = Some xs \<Longrightarrow> is_list h' l xs" "\<And>xs. M m = Some xs \<Longrightarrow> is_list h' m xs"
    and frame: "\<And>y. y \<notin> ring L l \<union> ring L m \<Longrightarrow> nxt h' y = nxt h y \<and> prev h' y = prev h y"
  shows "lists_ok h' M"
proof (rule lists_okI [OF assms(1) _ frame])
  show "disjoint_lists M" 
    by (rule disjoint_lists_upd [of L l m]) (use assms(1,3,4,5) in \<open>auto simp: lists_ok_def\<close>)
  fix k xs assume k: "M k = Some xs"
  show "is_list h' k xs \<or> L k = Some xs \<and> set (k # xs) \<inter> (ring L l \<union> ring L m) = {}"
  proof (cases "k = l \<or> k = m")
    case False
    then have "L k = Some xs" using assms(3) k by simp
    then show ?thesis using lists_okD(2) [OF assms(1), of k l] lists_okD(2) [OF assms(1), of k m] False by auto
  qed (use lists k in auto)
qed

lemma lists_ok_remove:
  assumes "lists_ok h L" "L l = Some (us @ e # vs)"
  shows "lists_ok (list_remove e h) (L(l \<mapsto> us @ vs, e \<mapsto> []))"
proof -
  note l = lists_okD(1) [OF assms]
  have e: "e \<noteq> l" "e \<notin> set us" "e \<notin> set vs" using l by (auto simp: is_list_def)
  show ?thesis
  proof (rule lists_ok_step [OF assms(1), of l e])
    fix y assume "y \<notin> ring L l \<union> ring L e"
    then have "y \<noteq> e" "y \<notin> set (l # us @ vs)" using assms(2) by auto
    then show "nxt (list_remove e h) y = nxt h y \<and> prev (list_remove e h) y = prev h y"
      using real_remove_ok(2) [OF l] by (simp add: list_remove_def list_init_def)
  qed (use e list_remove_ok [OF l] assms(2) in auto)
qed

lemma lists_ok_add_before:
  assumes "lists_ok h L" "L e = Some []" "L l = Some (us @ ws)" "l \<noteq> e"
  shows "lists_ok (list_add_before (hd (ws @ [l])) e h) ((L(l \<mapsto> us @ e # ws))(e := None))"
proof -
  have e: "e \<notin> set (l # us @ ws)" using lists_okD(2) [OF assms(1,4)] assms(2,3) by simp
  note a = add_before_unlinked [OF lists_okD(1) [OF assms(1,3)] e lists_okD(1) [OF assms(1,2)]]
  show ?thesis by (rule lists_ok_step [OF assms(1,4)]) (use e a assms in auto)
qed

lemma lists_ok_splice_before:
  assumes "lists_ok h L" "L l = Some (us @ ws)" "L m = Some ys" "l \<noteq> m"
  shows "lists_ok (list_splice_before (hd (ws @ [l])) m h) (L(l \<mapsto> us @ ys @ ws, m \<mapsto> []))"
proof -
  note l = lists_okD(1) [OF assms(1,2)] lists_okD(1) [OF assms(1,3)]
  have d: "set (l # us @ ws) \<inter> set (m # ys) = {}" using lists_okD(2) [OF assms(1,4)] assms(2,3) by simp
  have m: "m \<notin> set ys" using l(2) by (simp add: is_list_def)
  show ?thesis
    by (rule lists_ok_step [OF assms(1,4)]) (use m d splice_before_ok [OF l d] splice_before_frame [OF l] assms in auto)
qed

text \<open>The same for the functions that work backwards.\<close>

lemma lists_ok_dual: "lists_ok (dual h) (map_option rev \<circ> L) \<longleftrightarrow> lists_ok h L"
proof -
  have "ring (map_option rev \<circ> L) l = ring L l" for l by (cases "L l") (simp_all add: ring_def)
  then have "disjoint_lists (map_option rev \<circ> L) \<longleftrightarrow> disjoint_lists L" by (simp add: disjoint_lists_def)
  moreover have "(\<forall>l xs. (map_option rev \<circ> L) l = Some xs \<longrightarrow> is_list (dual h) l xs) \<longleftrightarrow> (\<forall>l xs. L l = Some xs \<longrightarrow> is_list h l xs)"
    using is_list_dual [of h] by fastforce
  ultimately show ?thesis by (simp only: lists_ok_def)
qed

lemma lists_ok_dualI: "lists_ok g (map_option rev \<circ> L) \<Longrightarrow> lists_ok (dual g) L"
  using lists_ok_dual [of "dual g" L] by simp

lemma hd_rev_pos: "hd (rev us @ [l]) = last (l # us)"
  by (simp add: hd_append hd_rev)

lemma lists_ok_add_after:
  assumes "lists_ok h L" "L e = Some []" "L l = Some (us @ ws)" "l \<noteq> e"
  shows "lists_ok (list_add_after (last (l # us)) e h) ((L(l \<mapsto> us @ e # ws))(e := None))"
proof -
  have "lists_ok (list_add_before (hd (rev us @ [l])) e (dual h)) (((map_option rev \<circ> L)(l \<mapsto> rev ws @ e # rev us))(e := None))"
    by (rule lists_ok_add_before) (use assms lists_ok_dual in auto)
  moreover have "((map_option rev \<circ> L)(l \<mapsto> rev ws @ e # rev us))(e := None) = map_option rev \<circ> (L(l \<mapsto> us @ e # ws))(e := None)"
    by (auto simp: fun_eq_iff)
  ultimately show ?thesis unfolding list_add_after_dual hd_rev_pos by (metis lists_ok_dualI)
qed

lemma lists_ok_splice_after:
  assumes "lists_ok h L" "L l = Some (us @ ws)" "L m = Some ys" "l \<noteq> m"
  shows "lists_ok (list_splice_after (last (l # us)) m h) (L(l \<mapsto> us @ ys @ ws, m \<mapsto> []))"
proof -
  have "lists_ok (list_splice_before (hd (rev us @ [l])) m (dual h)) ((map_option rev \<circ> L)(l \<mapsto> rev ws @ rev ys @ rev us, m \<mapsto> []))"
    by (rule lists_ok_splice_before) (use assms lists_ok_dual in auto)
  moreover have "(map_option rev \<circ> L)(l \<mapsto> rev ws @ rev ys @ rev us, m \<mapsto> []) = map_option rev \<circ> L(l \<mapsto> us @ ys @ ws, m \<mapsto> [])"
    by (auto simp: fun_eq_iff)
  ultimately show ?thesis unfolding list_splice_after_dual hd_rev_pos by (metis lists_ok_dualI)
qed

lemma lists_ok_init:
  assumes "lists_ok h L" "\<forall>m xs. L m = Some xs \<longrightarrow> l \<notin> set (m # xs)"
  shows "lists_ok (list_init l h) (L(l \<mapsto> []))"
proof (rule lists_okI [where A = "{l}", OF assms(1)])
  have "l \<notin> ring L k" for k using assms(2) by (cases "L k") (auto simp: ring_def)
  moreover have "ring (L(l \<mapsto> [])) k = (if k = l then {l} else ring L k)" for k by (simp add: ring_def)
  ultimately show "disjoint_lists (L(l \<mapsto> []))" using lists_okD(2) [OF assms(1)] by (simp add: disjoint_lists_def)
qed (use assms(2) in \<open>auto simp: list_init_def is_list_def split: if_splits\<close>)

lemma list_remove_unlinked: "is_list h e [] \<Longrightarrow> list_remove e h = h"
  by (rule heap_eqI) (auto simp: list_remove_def real_remove_unlinked list_init_def is_list_def)

lemma list_spec_ok: "list_spec op L M \<Longrightarrow> lists_ok h L \<Longrightarrow> lists_ok (list_exec op h) M"
proof (induction arbitrary: h rule: list_spec.induct)
  case (spec_move_before e L M x N)
  then show ?case using list_add_before_linked [of x e h] by simp
next
  case (spec_move_after e L M x N)
  then show ?case using list_add_after_linked [of x e h] by simp
qed (simp_all add: lists_ok_init lists_ok_remove list_remove_unlinked lists_okD lists_ok_add_before lists_ok_add_after
    lists_ok_splice_before lists_ok_splice_after list_append_def list_prepend_def del: last.simps)

fun list_run :: "list_op list \<Rightarrow> list_heap \<Rightarrow> list_heap" where
  "list_run [] h = h"
| "list_run (op # ops) h = list_run ops (list_exec op h)"

fun list_spec_run :: "list_op list \<Rightarrow> lists \<Rightarrow> lists \<Rightarrow> bool" where
  "list_spec_run [] L M \<longleftrightarrow> M = L"
| "list_spec_run (op # ops) L M \<longleftrightarrow> (\<exists>N. list_spec op L N \<and> list_spec_run ops N M)"

text \<open>
  Property C14. The lists linked through their entries implement a collection of disjoint sequences: after any
  sequence of initialisations, additions, moves, removals and splices, every list head links, forwards and
  backwards, exactly the entries that the specification gives it, in that order, and the lists that an
  operation does not name are as they were.\<close>

theorem list_refines_sequences:
  assumes "lists_ok h L" "list_spec_run ops L M"
  shows "lists_ok (list_run ops h) M"
  using assms by (induction ops arbitrary: h L) (auto dest: list_spec_ok)

text \<open>An entry is appended to one list and then moved to the front of another.\<close>

theorem list_refines_sequences_witness:
  "lists_ok (list_run [List_append 1 7, List_append 1 8, List_prepend 2 7] \<lparr>prev = id, nxt = id\<rparr>)
     (Map.empty(1 \<mapsto> [8], 2 \<mapsto> [7]))"
proof (rule list_refines_sequences)
  let ?L = "Map.empty(1 \<mapsto> [], 2 \<mapsto> [], 7 \<mapsto> [], 8 \<mapsto> []) :: lists"
  show "lists_ok \<lparr>prev = id, nxt = id\<rparr> ?L"
    by (auto simp: lists_ok_def disjoint_lists_def ring_def is_list_def split: if_splits)
  have a: "list_spec (List_append 1 7) ?L ((?L(1 \<mapsto> [7]))(7 := None))"
    using spec_append [OF spec_before [of ?L 7 1 "[]" "[]", simplified]] by simp
  let ?M = "(?L(1 \<mapsto> [7]))(7 := None)"
  have b: "list_spec (List_append 1 8) ?M ((?M(1 \<mapsto> [7, 8]))(8 := None))"
    using spec_append [OF spec_before [of ?M 8 1 "[7]" "[]", simplified]] by simp
  let ?N = "(?M(1 \<mapsto> [7, 8]))(8 := None)"
  have c: "list_spec (List_remove 7) ?N (?N(1 \<mapsto> [8], 7 \<mapsto> []))" using spec_remove [of ?N 1 "[]" 7 "[8]"] by simp
  let ?O = "?N(1 \<mapsto> [8], 7 \<mapsto> [])"
  have "list_spec (List_add_after 2 7) ?O ((?O(2 \<mapsto> [7]))(7 := None))"
    using spec_after [of ?O 7 2 "[]" "[]"] by simp
  then have "list_spec (List_prepend 2 7) ?N ((?O(2 \<mapsto> [7]))(7 := None))"
    by (intro spec_prepend [OF spec_move_after [OF c]]) auto
  moreover have "(?O(2 \<mapsto> [7]))(7 := None) = Map.empty(1 \<mapsto> [8], 2 \<mapsto> [7])" by (auto simp: fun_eq_iff)
  ultimately show "list_spec_run [List_append 1 7, List_append 1 8, List_prepend 2 7] ?L (Map.empty(1 \<mapsto> [8], 2 \<mapsto> [7]))"
    using a b by (simp del: fun_upd_apply) metis
qed

text \<open>
  Further property. The queries of a list return what they say of its entries: whether it is empty, whether it
  has exactly one entry, its first and its last one (the head itself when there is none).\<close>

theorem list_queries:
  assumes "is_list h l xs"
  shows "list_empty l h \<longleftrightarrow> xs = []" "list_is_singular l h \<longleftrightarrow> length xs = 1"
    "list_first l h = hd (xs @ [l])" "list_last l h = last (l # xs)"
  using empty_ok singular_ok first_last_ok assms by simp_all

section \<open>The loops\<close>

lemma foreach_from:
  assumes "is_list h l (us @ ws)"
  shows "list_foreach_loop l body (hd (ws @ [l])) h s = Some (fold body ws s)"
  using assms
proof (induction ws arbitrary: us s)
  case (Cons w ws)
  have w: "w \<noteq> l" "nxt h w = hd (ws @ [l])"
    using Cons.prems is_list_cut [of h l "us @ [w]" ws] by (auto simp: is_list_def)
  show ?case
    using Cons.IH [of "us @ [w]" "body w s"] Cons.prems w by (subst list_foreach_loop.simps) simp
qed (subst list_foreach_loop.simps, simp)

lemma remove_frame:
  "is_list h l (us @ e # vs) \<Longrightarrow> x \<notin> set (l # us @ e # vs) \<Longrightarrow> nxt (list_remove e h) x = nxt h x \<and> prev (list_remove e h) x = prev h x"
  using real_remove_ok(2) [of h l us e vs x] by (simp add: list_remove_def list_init_def)

text \<open>
  The loop rule of \<open>LIST_FOREACH_SAFE\<close>: with the entries \<open>us\<close> behind it and \<open>ws\<close> ahead, reading the \<open>next\<close> field of
  the first entry ahead gives the second.
\<close>

lemma list_foreach_safe_rule:
  assumes start: "I [] xs s" "rd l s = Some (hd (xs @ [l]))"
    and body: "\<And>us w ws s. xs = us @ w # ws \<Longrightarrow> I us (w # ws) s \<Longrightarrow> w \<noteq> l \<and> (\<exists>s'. body w s = Some s' \<and> I (us @ [w]) ws s')"
    and read: "\<And>us ws s. xs = us @ ws \<Longrightarrow> I us ws s \<Longrightarrow> \<exists>n. rd (hd (ws @ [l])) s = Some n \<and> (ws \<noteq> [] \<longrightarrow> n = hd (tl ws @ [l]))"
  shows "\<exists>s'. LIST_FOREACH_SAFE l rd body s = Some s' \<and> I xs [] s'"
proof -
  have loop: "\<exists>s'. list_foreach_safe_loop l rd body (hd (ws @ [l])) y s = Some s' \<and> I xs [] s'"
    if "xs = us @ ws" "I us ws s" "ws \<noteq> [] \<longrightarrow> y = hd (tl ws @ [l])" for us ws y s
    using that
  proof (induction ws arbitrary: us y s)
    case Nil
    then show ?case by (subst list_foreach_safe_loop.simps) simp
  next
    case (Cons w ws)
    obtain s1 where s1: "w \<noteq> l" "body w s = Some s1" "I (us @ [w]) ws s1" using body Cons.prems by blast
    obtain n where n: "rd (hd (ws @ [l])) s1 = Some n" "ws \<noteq> [] \<longrightarrow> n = hd (tl ws @ [l])"
      using read [of "us @ [w]" ws s1] Cons.prems(1) s1(3) by auto
    show ?case
      using Cons.IH [of "us @ [w]" s1 n] Cons.prems(1,3) s1 n
      by (subst list_foreach_safe_loop.simps) (simp del: hd_append)
  qed
  obtain n where "rd (hd (xs @ [l])) s = Some n" "xs \<noteq> [] \<longrightarrow> n = hd (tl xs @ [l])" using read [of "[]" xs s] start(1) by auto
  then show ?thesis using loop [of "[]" xs s n] start by (simp add: LIST_FOREACH_SAFE_def del: hd_append)
qed

definition read_next :: "nat \<Rightarrow> list_heap \<times> 's \<Rightarrow> nat option" where
  "read_next e hs = Some (nxt (fst hs) e)"

definition removing :: "(nat \<Rightarrow> bool) \<Rightarrow> (nat \<Rightarrow> 's \<Rightarrow> 's) \<Rightarrow> nat \<Rightarrow> list_heap \<times> 's \<Rightarrow> (list_heap \<times> 's) option" where
  "removing P f e hs = Some (if P e then list_remove e (fst hs) else fst hs, f e (snd hs))"

text \<open>The entries behind the loop are those that were kept; those that were removed are in no list.\<close>

definition swept :: "nat \<Rightarrow> (nat \<Rightarrow> bool) \<Rightarrow> nat list \<Rightarrow> nat list \<Rightarrow> list_heap \<Rightarrow> bool" where
  "swept l P us ws h \<longleftrightarrow> distinct (l # us @ ws) \<and> is_list h l (filter (\<lambda>e. \<not> P e) us @ ws) \<and> (\<forall>e \<in> set us. P e \<longrightarrow> is_list h e [])"

lemma swept_remove:
  assumes "swept l P us (w # ws) h" "P w"
  shows "swept l P (us @ [w]) ws (list_remove w h)"
proof -
  let ?ks = "filter (\<lambda>e. \<not> P e) us"
  have l: "is_list h l (?ks @ w # ws)" and d: "distinct (l # us @ w # ws)" using assms(1) by (simp_all add: swept_def)
  have "is_list (list_remove w h) e []" if "e \<in> set us" "P e" for e
  proof (rule is_list_frame)
    show "is_list h e []" using assms(1) that by (simp add: swept_def)
    have "e \<notin> set (l # ?ks @ w # ws)" using that d by auto
    then show "\<forall>x \<in> set [e]. nxt (list_remove w h) x = nxt h x \<and> prev (list_remove w h) x = prev h x"
      using remove_frame [OF l] by simp
  qed
  then show ?thesis using list_remove_ok [OF l] d assms(2) by (auto simp: swept_def)
qed

lemma swept_keep: "swept l P us (w # ws) h \<Longrightarrow> \<not> P w \<Longrightarrow> swept l P (us @ [w]) ws h"
  by (simp add: swept_def)

lemma swept_next: "swept l P us ws h \<Longrightarrow> ws \<noteq> [] \<Longrightarrow> nxt h (hd ws) = hd (tl ws @ [l])"
  using is_list_cut [of h l "filter (\<lambda>e. \<not> P e) us @ [hd ws]" "tl ws"] by (cases ws) (auto simp: swept_def)

text \<open>
  Further property. Iterating over a list ends and visits its entries once each, in their order. This holds also for
  \<open>LIST_FOREACH_SAFE\<close> with a body that removes the entries it is called for, or some of them: all entries of the
  list are visited, the list keeps the others in their order, and the removed entries are in no list.\<close>

theorem list_foreach_visits:
  assumes "is_list h l xs"
  shows "LIST_FOREACH l body h s = Some (fold body xs s)
    \<and> (\<exists>h'. LIST_FOREACH_SAFE l read_next (removing P f) (h, s) = Some (h', fold f xs s)
       \<and> is_list h' l (filter (\<lambda>e. \<not> P e) xs) \<and> (\<forall>e \<in> set xs. P e \<longrightarrow> is_list h' e []))"
proof
  have n: "nxt h l = hd (xs @ [l])" using first_last_ok(1) [OF assms] by (simp add: list_first_def)
  then show "LIST_FOREACH l body h s = Some (fold body xs s)"
    using foreach_from [of h l "[]" xs] assms by (simp add: LIST_FOREACH_def)
  have "\<exists>hs. LIST_FOREACH_SAFE l read_next (removing P f) (h, s) = Some hs \<and> swept l P xs [] (fst hs) \<and> snd hs = fold f xs s"
    by (rule list_foreach_safe_rule [where I = "\<lambda>us ws hs. swept l P us ws (fst hs) \<and> snd hs = fold f us s"])
      (use assms n in \<open>auto simp: swept_def [of _ _ "[]"] is_list_def read_next_def removing_def swept_remove swept_keep swept_next
        dest: swept_def [THEN iffD1]\<close>)
  then show "\<exists>h'. LIST_FOREACH_SAFE l read_next (removing P f) (h, s) = Some (h', fold f xs s)
       \<and> is_list h' l (filter (\<lambda>e. \<not> P e) xs) \<and> (\<forall>e \<in> set xs. P e \<longrightarrow> is_list h' e [])"
    by (auto simp: swept_def)
qed

theorem list_foreach_visits_witness:
  "LIST_FOREACH 1 (\<lambda>e acc. acc @ [e]) \<lparr>prev = id(1 := 8, 7 := 1, 8 := 7), nxt = id(1 := 7, 7 := 8, 8 := 1)\<rparr> [] = Some [7, 8]"
  using list_foreach_visits [of "\<lparr>prev = id(1 := 8, 7 := 1, 8 := 7), nxt = id(1 := 7, 7 := 8, 8 := 1)\<rparr>" 1 "[7, 8]" "\<lambda>e acc. acc @ [e]" "[]"]
  by (simp add: is_list_def)

end
