(* ===== verification/Notifier.thy ===== *)
theory Notifier
  imports Linked_List
begin

text \<open>
  \<open>lib/notifier.c\<close>: lists of callbacks. The entries are allocated structures linked by \<open>lib/list.h\<close>; an address that
  is in \<open>entries\<close> is allocated, any access to another is an access to freed memory, which is \<open>None\<close>. The
  callbacks are a parameter, and may call the notifier themselves. The notifier's lock is held during every
  operation and is recursive, so it neither excludes a callback nor lets another thread interfere; it is not
  shown.
\<close>

section \<open>The code\<close>

record notifier_entry =
  entry_func :: nat
  entry_data :: nat

record notifier =
  funcs :: nat
  notifier_data :: nat

record 's notifier_mem =
  links :: list_heap
  entries :: "nat \<rightharpoonup> notifier_entry"
  ext :: 's

type_synonym 's notifier_call = "nat \<Rightarrow> nat \<Rightarrow> nat \<Rightarrow> nat \<Rightarrow> 's notifier_mem \<Rightarrow> 's notifier_mem option"

definition read_link :: "notifier \<Rightarrow> nat \<Rightarrow> 's notifier_mem \<Rightarrow> nat option" where
  "read_link n e w = (if e = funcs n \<or> entries w e \<noteq> None then Some (nxt (links w) e) else None)"

definition remove_and_free :: "nat \<Rightarrow> 's notifier_mem \<Rightarrow> 's notifier_mem option" where
  "remove_and_free e w = do {
     _ \<leftarrow> entries w e;
     Some (w\<lparr>links := list_remove e (links w), entries := (entries w)(e := None)\<rparr>)}"

definition notifier_init :: "nat \<Rightarrow> notifier \<Rightarrow> 's notifier_mem \<Rightarrow> notifier \<times> 's notifier_mem" where
  "notifier_init data n w = (n\<lparr>notifier_data := data\<rparr>, w\<lparr>links := list_init (funcs n) (links w)\<rparr>)"

definition notifier_empty :: "notifier \<Rightarrow> 's notifier_mem \<Rightarrow> bool" where
  "notifier_empty n w \<longleftrightarrow> list_empty (funcs n) (links w)"

partial_function (option) notifier_clear :: "notifier \<Rightarrow> 's notifier_mem \<Rightarrow> 's notifier_mem option" where
  "notifier_clear n w =
     (if \<not> list_empty (funcs n) (links w)
      then do {
        let entry = list_first (funcs n) (links w);
        w \<leftarrow> remove_and_free entry w;
        notifier_clear n w}
      else Some w)"

definition notifier_run_entry ::
  "notifier \<Rightarrow> 's notifier_call \<Rightarrow> nat \<Rightarrow> bool \<Rightarrow> nat \<Rightarrow> 's notifier_mem \<times> bool \<Rightarrow> ('s notifier_mem \<times> bool) option" where
  "notifier_run_entry n call data destroy iter wc = do {
     let w = fst wc;
     entry \<leftarrow> entries w iter;
     w \<leftarrow> call (entry_func entry) (notifier_data n) (entry_data entry) data w;
     w \<leftarrow> (if destroy then remove_and_free iter w else Some w);
     Some (w, True)}"

definition notifier_run_unsafe ::
  "notifier \<Rightarrow> 's notifier_call \<Rightarrow> nat \<Rightarrow> bool \<Rightarrow> 's notifier_mem \<Rightarrow> ('s notifier_mem \<times> bool) option" where
  "notifier_run_unsafe n call data destroy w =
     LIST_FOREACH_SAFE (funcs n) (\<lambda>e wc. read_link n e (fst wc)) (notifier_run_entry n call data destroy) (w, False)"

definition notifier_run ::
  "notifier \<Rightarrow> 's notifier_call \<Rightarrow> nat \<Rightarrow> bool \<Rightarrow> 's notifier_mem \<Rightarrow> ('s notifier_mem \<times> bool) option" where
  "notifier_run n call data destroy w = notifier_run_unsafe n call data destroy w"

definition notifier_register :: "notifier \<Rightarrow> nat \<Rightarrow> nat \<Rightarrow> nat \<Rightarrow> 's notifier_mem \<Rightarrow> 's notifier_mem" where
  "notifier_register n entry func data w =
     w\<lparr>links := list_append (funcs n) entry (list_init entry (links w)),
       entries := (entries w)(entry \<mapsto> \<lparr>entry_func = func, entry_data = data\<rparr>)\<rparr>"

definition notifier_unregister_entry :: "nat \<Rightarrow> nat \<Rightarrow> nat \<Rightarrow> 's notifier_mem \<Rightarrow> 's notifier_mem option" where
  "notifier_unregister_entry func data iter w = do {
     entry \<leftarrow> entries w iter;
     if entry_func entry = func \<and> entry_data entry = data then remove_and_free iter w else Some w}"

definition notifier_unregister :: "notifier \<Rightarrow> nat \<Rightarrow> nat \<Rightarrow> 's notifier_mem \<Rightarrow> 's notifier_mem option" where
  "notifier_unregister n func data w = LIST_FOREACH_SAFE (funcs n) (read_link n) (notifier_unregister_entry func data) w"

declare notifier_clear.simps [code]

section \<open>Registration\<close>

definition notifier_ok :: "notifier \<Rightarrow> nat list \<Rightarrow> 's notifier_mem \<Rightarrow> bool" where
  "notifier_ok n xs w \<longleftrightarrow> is_list (links w) (funcs n) xs \<and> set xs \<subseteq> dom (entries w)"

definition matches :: "nat \<Rightarrow> nat \<Rightarrow> 's notifier_mem \<Rightarrow> nat \<Rightarrow> bool" where
  "matches f d w e \<longleftrightarrow> entries w e = Some \<lparr>entry_func = f, entry_data = d\<rparr>"

text \<open>While a loop runs, with the entries \<open>us\<close> behind it, those with \<open>D\<close> are freed and the list has the others.\<close>

definition sweeping :: "notifier \<Rightarrow> (nat \<rightharpoonup> notifier_entry) \<Rightarrow> (nat \<Rightarrow> bool) \<Rightarrow> nat list \<Rightarrow> nat list \<Rightarrow> 's notifier_mem \<Rightarrow> bool" where
  "sweeping n es D us ws w \<longleftrightarrow> distinct (funcs n # us @ ws) \<and> set (us @ ws) \<subseteq> dom es
     \<and> is_list (links w) (funcs n) (filter (\<lambda>e. \<not> D e) us @ ws) \<and> entries w = es |` (- {e \<in> set us. D e})"

lemma sweeping_start: "notifier_ok n xs w \<Longrightarrow> sweeping n (entries w) D [] xs w"
  by (auto simp: sweeping_def notifier_ok_def is_list_def)

lemma sweeping_at: "sweeping n es D us (w # ws) m \<Longrightarrow> w \<noteq> funcs n \<and> (\<exists>e. es w = Some e \<and> entries m w = Some e)"
  by (auto simp: sweeping_def)

lemma sweeping_keep: "sweeping n es D us (w # ws) m \<Longrightarrow> \<not> D w \<Longrightarrow> sweeping n es D (us @ [w]) ws m"
  by (auto simp: sweeping_def fun_eq_iff restrict_map_def)

lemma sweeping_free:
  assumes "sweeping n es D us (w # ws) m" "D w"
  shows "\<exists>m'. remove_and_free w m = Some m' \<and> ext m' = ext m \<and> sweeping n es D (us @ [w]) ws m'"
proof -
  obtain e where "entries m w = Some e" using sweeping_at [OF assms(1)] by blast
  moreover have "(es |` (- {e \<in> set us. D e}))(w := None) = es |` (- {e \<in> set (us @ [w]). D e})"
    using assms(2) by (auto simp: fun_eq_iff restrict_map_def)
  ultimately show ?thesis
    using assms list_remove_ok(1) [of "links m" "funcs n" "filter (\<lambda>e. \<not> D e) us" w ws]
    by (simp add: remove_and_free_def sweeping_def)
qed

lemma sweeping_read:
  assumes "sweeping n es D us ws m"
  shows "\<exists>x. read_link n (hd (ws @ [funcs n])) m = Some x \<and> (ws \<noteq> [] \<longrightarrow> x = hd (tl ws @ [funcs n]))"
proof (cases ws)
  case (Cons v vs)
  then show ?thesis
    using assms is_list_cut [of "links m" "funcs n" "filter (\<lambda>e. \<not> D e) us @ [v]" vs] by (auto simp: sweeping_def read_link_def)
qed (simp add: read_link_def)

lemma sweeping_first: "sweeping n es D [] xs m \<Longrightarrow> read_link n (funcs n) m = Some (hd (xs @ [funcs n]))"
  using first_last_ok(1) [of "links m" "funcs n" xs] by (simp add: sweeping_def read_link_def list_first_def)

lemma sweeping_end:
  "sweeping n es D xs [] m \<Longrightarrow> set xs \<subseteq> dom es \<Longrightarrow> notifier_ok n (filter (\<lambda>e. \<not> D e) xs) m \<and> entries m = es |` (- {e \<in> set xs. D e})"
  by (auto simp: sweeping_def notifier_ok_def)

lemma unregister_ok:
  fixes f d :: nat
  assumes "notifier_ok n xs w"
  defines "D \<equiv> matches f d w"
  shows "\<exists>w'. notifier_unregister n f d w = Some w' \<and> notifier_ok n (filter (\<lambda>e. \<not> D e) xs) w'
    \<and> entries w' = entries w |` (- {e \<in> set xs. D e}) \<and> ext w' = ext w"
proof -
  have "\<exists>w'. notifier_unregister n f d w = Some w' \<and> sweeping n (entries w) D xs [] w' \<and> ext w' = ext w"
    unfolding notifier_unregister_def
  proof (rule list_foreach_safe_rule [where I = "\<lambda>us ws w'. sweeping n (entries w) D us ws w' \<and> ext w' = ext w"])
    fix us v ws and s :: "'a notifier_mem"
    assume I: "sweeping n (entries w) D us (v # ws) s \<and> ext s = ext w"
    obtain e where e: "v \<noteq> funcs n" "entries w v = Some e" "entries s v = Some e" using sweeping_at I by blast
    have D: "D v \<longleftrightarrow> entry_func e = f \<and> entry_data e = d" using e(2) by (cases e) (auto simp: D_def matches_def)
    show "v \<noteq> funcs n \<and> (\<exists>s'. notifier_unregister_entry f d v s = Some s' \<and> sweeping n (entries w) D (us @ [v]) ws s' \<and> ext s' = ext w)"
    proof (cases "D v")
      case True
      then show ?thesis using sweeping_free [of n "entries w" D us v ws s] I e D by (auto simp: notifier_unregister_entry_def)
    next
      case False
      then show ?thesis using sweeping_keep [of n "entries w" D us v ws s] I e D by (auto simp: notifier_unregister_entry_def)
    qed
  qed (use assms(1) sweeping_start sweeping_first sweeping_read in blast)+
  then show ?thesis using sweeping_end assms(1) by (fastforce simp: notifier_ok_def)
qed

lemma register_ok:
  assumes "notifier_ok n xs w" "entries w e = None" "e \<noteq> funcs n" "funcs n \<notin> dom (entries w)"
  shows "notifier_ok n (xs @ [e]) (notifier_register n e f d w)"
proof -
  have e: "e \<notin> set (funcs n # xs)" using assms by (auto simp: notifier_ok_def)
  have "is_list (list_init e (links w)) (funcs n) (xs @ [])"
    using assms(1) e by (auto simp: notifier_ok_def list_init_def intro: is_list_frame)
  moreover have "is_list (list_init e (links w)) e []" by (simp add: is_list_def list_init_def)
  ultimately have "is_list (list_append (funcs n) e (list_init e (links w))) (funcs n) (xs @ [e])"
    using add_before_unlinked(1) [of _ "funcs n" xs "[]" e] e by (simp add: list_append_def)
  then show ?thesis using assms(1) by (auto simp: notifier_ok_def notifier_register_def)
qed

lemma clear_ok:
  "notifier_ok n xs w \<Longrightarrow> \<exists>w'. notifier_clear n w = Some w' \<and> notifier_ok n [] w' \<and> entries w' = entries w |` (- set xs) \<and> ext w' = ext w"
proof (induction xs arbitrary: w)
  case Nil
  then show ?case using empty_ok [of "links w" "funcs n" "[]"] by (subst notifier_clear.simps) (auto simp: notifier_ok_def restrict_map_def)
next
  case (Cons x xs)
  have l: "is_list (links w) (funcs n) ([] @ x # xs)" "x \<notin> set xs" using Cons.prems by (auto simp: notifier_ok_def is_list_def)
  obtain e where e: "entries w x = Some e" using Cons.prems by (auto simp: notifier_ok_def)
  define w1 where "w1 = w\<lparr>links := list_remove x (links w), entries := (entries w)(x := None)\<rparr>"
  have "notifier_ok n xs w1" using list_remove_ok(1) [OF l(1)] Cons.prems l(2) by (auto simp: notifier_ok_def w1_def)
  from Cons.IH [OF this] obtain w' where
    "notifier_clear n w1 = Some w'" "notifier_ok n [] w'" "entries w' = entries w1 |` (- set xs)" "ext w' = ext w1" by blast
  moreover have "notifier_clear n w = notifier_clear n w1"
    using l(1) empty_ok [OF l(1)] first_last_ok(1) [OF l(1)] e
    by (subst notifier_clear.simps) (simp add: remove_and_free_def w1_def)
  moreover have "entries w1 |` (- set xs) = entries w |` (- set (x # xs))" by (auto simp: w1_def fun_eq_iff restrict_map_def)
  ultimately show ?case by (auto simp: w1_def)
qed

text \<open>
  Further property. The notifier is a list of function and data pairs: registering adds a pair at the end, unregistering
  removes exactly the entries of the pair, clearing removes all, and the removed entries are freed.\<close>

theorem notifier_registration_correct:
  assumes "notifier_ok n xs w" "entries w e = None" "e \<noteq> funcs n" "funcs n \<notin> dom (entries w)"
  shows "notifier_ok n (xs @ [e]) (notifier_register n e f d w)
    \<and> (\<exists>w'. notifier_unregister n f d w = Some w' \<and> notifier_ok n (filter (\<lambda>e. \<not> matches f d w e) xs) w'
         \<and> entries w' = entries w |` (- {e \<in> set xs. matches f d w e}))
    \<and> (\<exists>w'. notifier_clear n w = Some w' \<and> notifier_empty n w' \<and> entries w' = entries w |` (- set xs))"
proof -
  have "notifier_ok n [] w' \<Longrightarrow> notifier_empty n w'" for w' :: "'a notifier_mem"
    using empty_ok [of "links w'" "funcs n" "[]"] by (simp add: notifier_ok_def notifier_empty_def)
  then show ?thesis using register_ok [OF assms] unregister_ok [OF assms(1)] clear_ok [OF assms(1)] by metis
qed

definition example_mem :: "nat list notifier_mem" where
  "example_mem = \<lparr>links = \<lparr>prev = id(1 := 8, 7 := 1, 8 := 7), nxt = id(1 := 7, 7 := 8, 8 := 1)\<rparr>,
     entries = [7 \<mapsto> \<lparr>entry_func = 100, entry_data = 5\<rparr>, 8 \<mapsto> \<lparr>entry_func = 100, entry_data = 6\<rparr>], ext = []\<rparr>"

lemma example_mem_ok: "notifier_ok \<lparr>funcs = 1, notifier_data = 3\<rparr> [7, 8] example_mem"
  by (simp add: notifier_ok_def example_mem_def is_list_def)

theorem notifier_registration_correct_witness:
  "notifier_ok \<lparr>funcs = 1, notifier_data = 3\<rparr> [7, 8, 9] (notifier_register \<lparr>funcs = 1, notifier_data = 3\<rparr> 9 200 4 example_mem)"
  using notifier_registration_correct [OF example_mem_ok, of 9 200 4] by (simp add: example_mem_def)

section \<open>Running the callbacks\<close>

text \<open>A callback that unregisters itself when \<open>P\<close> holds of its function and data, and has an effect of its own.\<close>

definition self_removing :: "notifier \<Rightarrow> (nat \<Rightarrow> nat \<Rightarrow> bool) \<Rightarrow> (nat \<Rightarrow> nat \<Rightarrow> nat \<Rightarrow> nat \<Rightarrow> 's \<Rightarrow> 's) \<Rightarrow> 's notifier_call" where
  "self_removing n P g f arg1 arg2 arg3 w = do {
     w \<leftarrow> (if P f arg2 then notifier_unregister n f arg2 w else Some w);
     Some (w\<lparr>ext := g f arg1 arg2 arg3 (ext w)\<rparr>)}"

definition self_removes :: "(nat \<Rightarrow> nat \<Rightarrow> bool) \<Rightarrow> 's notifier_mem \<Rightarrow> nat \<Rightarrow> bool" where
  "self_removes P w e \<longleftrightarrow> (case entries w e of None \<Rightarrow> False | Some x \<Rightarrow> P (entry_func x) (entry_data x))"

definition effect :: "notifier \<Rightarrow> (nat \<Rightarrow> nat \<Rightarrow> nat \<Rightarrow> nat \<Rightarrow> 's \<Rightarrow> 's) \<Rightarrow> nat \<Rightarrow> 's notifier_mem \<Rightarrow> nat \<Rightarrow> 's \<Rightarrow> 's" where
  "effect n g arg3 w e = (case entries w e of None \<Rightarrow> id | Some x \<Rightarrow> g (entry_func x) (notifier_data n) (entry_data x) arg3)"

text \<open>Unregistering the entry at which the loop is.\<close>

lemma sweeping_unregister:
  assumes "sweeping n es D us (v # ws) m" "D v" "es v = Some e" "distinct (map es (us @ v # ws))"
  shows "\<exists>m'. notifier_unregister n (entry_func e) (entry_data e) m = Some m' \<and> ext m' = ext m \<and> sweeping n es D (us @ [v]) ws m'"
proof -
  define xs where "xs = filter (\<lambda>e. \<not> D e) us @ v # ws"
  define M where "M = matches (entry_func e) (entry_data e) m"
  have d: "distinct (funcs n # us @ v # ws)" "set (us @ v # ws) \<subseteq> dom es" and en: "entries m = es |` (- {e \<in> set us. D e})"
    and ok: "notifier_ok n xs m" using assms(1) by (auto simp: sweeping_def notifier_ok_def xs_def)
  have "inj_on es (set (us @ v # ws))" using assms(4) by (simp only: distinct_map)
  then have one: "es x = es v \<longleftrightarrow> x = v" if "x \<in> set xs" for x
    by (rule inj_on_eq_iff) (use that in \<open>auto simp: xs_def\<close>)
  have M: "M x \<longleftrightarrow> x = v" if x: "x \<in> set xs" for x
  proof -
    have "entries m x = es x" using x d(1) by (auto simp: en xs_def restrict_map_def)
    then have "M x \<longleftrightarrow> es x = es v" using assms(3) by (cases e) (simp add: M_def matches_def)
    then show ?thesis using one [OF x] by simp
  qed
  have "filter (\<lambda>e. \<not> M e) xs = filter (\<lambda>e. e \<noteq> v) xs" by (rule filter_cong) (simp_all add: M)
  moreover have "v \<in> set xs" by (simp add: xs_def)
  then have "{x \<in> set xs. M x} = {v}" using M by blast
  moreover have "filter (\<lambda>e. e \<noteq> v) xs = filter (\<lambda>e. \<not> D e) (us @ [v]) @ ws"
  proof -
    have "filter (\<lambda>e. e \<noteq> v) (filter (\<lambda>e. \<not> D e) us) = filter (\<lambda>e. \<not> D e) us" "filter (\<lambda>e. e \<noteq> v) ws = ws"
      using d(1) by (auto intro!: filter_True simp del: filter_filter)
    then show ?thesis using assms(2) by (simp add: xs_def del: filter_filter)
  qed
  moreover have "es |` (- {e \<in> set us. D e}) |` (- {v}) = es |` (- {e \<in> set (us @ [v]). D e})"
    using assms(2) by (auto simp: fun_eq_iff restrict_map_def)
  ultimately show ?thesis
    using unregister_ok [OF ok, of "entry_func e" "entry_data e"] d en
    by (auto simp: sweeping_def notifier_ok_def simp flip: M_def)
qed

lemma sweeping_ext [simp]: "sweeping n es D us ws (m\<lparr>ext := x\<rparr>) = sweeping n es D us ws m"
  by (simp add: sweeping_def)

lemma run_entry_ok:
  assumes sw: "sweeping n (entries w) D us (v # ws) m" and dist: "distinct (map (entries w) (us @ v # ws))"
    and D: "D v \<longleftrightarrow> destroy \<or> self_removes P w v" and safe: "destroy \<longrightarrow> \<not> self_removes P w v"
  shows "\<exists>m'. notifier_run_entry n (self_removing n P g) data destroy v (m, c) = Some (m', True)
    \<and> sweeping n (entries w) D (us @ [v]) ws m' \<and> ext m' = effect n g data w v (ext m)"
proof -
  obtain e where e: "entries w v = Some e" "entries m v = Some e" using sweeping_at [OF sw] by auto
  have P: "self_removes P w v \<longleftrightarrow> P (entry_func e) (entry_data e)" using e by (simp add: self_removes_def)
  consider (free) "destroy" "D v" "\<not> P (entry_func e) (entry_data e)" | (self) "\<not> destroy" "D v" "P (entry_func e) (entry_data e)"
    | (keep) "\<not> destroy" "\<not> D v" "\<not> P (entry_func e) (entry_data e)" using D safe P by auto
  then show ?thesis
  proof cases
    case free
    then show ?thesis
      using sweeping_free [of n "entries w" D us v ws "m\<lparr>ext := effect n g data w v (ext m)\<rparr>"] sw e
      by (auto simp: notifier_run_entry_def self_removing_def effect_def)
  next
    case self
    then show ?thesis
      using sweeping_unregister [OF sw self(2) e(1) dist] e by (auto simp: notifier_run_entry_def self_removing_def effect_def)
  next
    case keep
    then show ?thesis using sweeping_keep [OF sw] e by (simp add: notifier_run_entry_def self_removing_def effect_def)
  qed
qed



text \<open>
  Property C16. A run with \<open>destroy\<close> set in which a function unregisters itself accesses freed memory: the entry is
  unlinked and freed by \<open>notifier_unregister\<close> and then a second time by the run. This is what the death notifier
  of a thread or process does when it signals a one-shot callback, which \<open>object_event_signal\<close> unregisters.\<close>

theorem notifier_run_double_free:
  assumes "notifier_ok n (x # xs) w" "distinct (map (entries w) (x # xs))" "self_removes P w x"
  shows "notifier_run n (self_removing n P g) data True w = None"
proof -
  have sw: "sweeping n (entries w) (\<lambda>_. True) [] (x # xs) w" using assms(1) by (rule sweeping_start)
  obtain e where e: "x \<noteq> funcs n" "entries w x = Some e" using sweeping_at [OF sw] by blast
  obtain m where m: "notifier_unregister n (entry_func e) (entry_data e) w = Some m" "sweeping n (entries w) (\<lambda>_. True) [x] xs m"
    using sweeping_unregister [OF sw _ e(2)] assms(2) by auto
  have "notifier_run_entry n (self_removing n P g) data True x (w, False) = None"
    using m e assms(3) by (simp add: notifier_run_entry_def self_removing_def self_removes_def remove_and_free_def sweeping_def)
  then show ?thesis
    using sweeping_first [OF sw] sweeping_read [OF sw] e(1)
    by (auto simp: notifier_run_def notifier_run_unsafe_def LIST_FOREACH_SAFE_def list_foreach_safe_loop.simps)
qed

theorem notifier_run_double_free_witness:
  "notifier_run \<lparr>funcs = 1, notifier_data = 3\<rparr> (self_removing \<lparr>funcs = 1, notifier_data = 3\<rparr> (\<lambda>f d. d = 5) (\<lambda>f a b c. (#) b)) 0 True example_mem = None"
  by (rule notifier_run_double_free [OF example_mem_ok]) (simp_all add: example_mem_def self_removes_def)

text \<open>
  Further property. The loop does not allow a function to unregister the entry after its own: the pointer to that
  entry has been read before the call, and the loop goes on from freed memory.\<close>

theorem notifier_run_next_unregistered:
  assumes "notifier_ok n (x # y # xs) w" "matches f d w y"
  shows "notifier_run n (\<lambda>_ _ _ _. notifier_unregister n f d) data False w = None"
proof -
  have sw: "sweeping n (entries w) (\<lambda>_. True) [] (x # y # xs) w" using assms(1) by (rule sweeping_start)
  obtain e where e: "x \<noteq> funcs n" "entries w x = Some e" using sweeping_at [OF sw] by blast
  obtain m where m: "notifier_unregister n f d w = Some m" "entries m = entries w |` (- {e \<in> set (x # y # xs). matches f d w e})"
    using unregister_ok [OF assms(1)] by blast
  have "read_link n y m = None" using m(2) assms by (auto simp: read_link_def notifier_ok_def is_list_def)
  moreover have "notifier_run_entry n (\<lambda>_ _ _ _. notifier_unregister n f d) data False x (w, False) = Some (m, True)"
    using m(1) e by (simp add: notifier_run_entry_def)
  ultimately show ?thesis
    using sweeping_first [OF sw] sweeping_read [OF sw] e(1)
    by (auto simp: notifier_run_def notifier_run_unsafe_def LIST_FOREACH_SAFE_def list_foreach_safe_loop.simps)
qed

end
