(* ===== verification/Spec2Isabelle.thy ===== *)
theory Spec2Isabelle
  imports Id_Allocator Avl_Tree Semaphore Mutex Rwlock Printf Security Radix_Tree Fixed_Heap Kmem Notifier
begin

text \<open>
  Verification of the kernel of Infinity OS (\<open>src/source/kernel\<close>), a small SMP kernel in C for amd64. The
  kernel consists of a library of data structures and string functions (\<open>lib\<close>), scheduling and threads
  (\<open>proc\<close>), timers (\<open>time.c\<close>), synchronisation (\<open>sync\<close>), security (\<open>security\<close>), memory management (\<open>mm\<close>),
  inter-process communication (\<open>ipc\<close>), I/O and file systems (\<open>io\<close>), kernel objects (\<open>object.c\<close>), and the
  architecture, platform and debugger code. Threads block by linking themselves into the wait list of a
  synchronisation object and calling \<open>thread_sleep\<close> with the object's spinlock held; the wakers, the
  timeout of a kernel timer, and interrupts from other threads put them back into a run queue of the
  scheduler. This development models that core, from the bit operations to the mutex, and the library
  components it rests on.

  \<^bold>\<open>Conventions.\<close> Machine integers are words where their width matters. Code that returns is \<open>Some\<close> of
  its result and of the state it leaves; \<open>None\<close> is every way of not returning: \<open>fatal\<close>, a failed \<open>assert\<close>,
  a \<open>NULL\<close> dereference, an access outside an array or the mapped memory, and a loop that does not end. So
  a theorem whose conclusion is \<open>\<dots> = Some \<dots>\<close> states that the code returns and is memory safe. No fuel is
  used: loops are recursive functions with a termination proof or \<open>partial_function\<close>s.

  \<^bold>\<open>Theories.\<close>

  \<^item> \<open>Kernel_Prelude\<close>: machine types, status codes, the macros of \<open>lib/utility.h\<close>, shared lemmas.
  \<^item> \<open>Bitmap\<close>: \<open>arch/bitops.h\<close> and \<open>lib/bitmap.c\<close>. The searches return the first bit of the bitmap, as the
    list search over its bits does.
  \<^item> \<open>Id_Allocator\<close>: \<open>lib/id_allocator.c\<close>, refined to a set of free IDs.
  \<^item> \<open>Avl_Tree\<close>: \<open>lib/avl_tree.c\<close> on locations in a tree with its stored heights. Insertion, removal and
    lookup implement a finite map and keep the tree balanced; iteration is in key order.
  \<^item> \<open>Linked_List\<close>: \<open>lib/list.h\<close> on the two links of every entry. The operations implement disjoint sequences,
    which is how the other theories use lists; the loops visit every entry.
  \<^item> \<open>Notifier\<close>: \<open>lib/notifier.c\<close> on top of it, with callbacks that may unregister themselves.
  \<^item> \<open>Qsort\<close>: \<open>lib/qsort.c\<close>. The sort returns a sorted permutation and its stack suffices; the laws of
    the comparison function are a locale.
  \<^item> \<open>Radix_Tree\<close>: \<open>lib/radix_tree.c\<close>. Any sequence of insertions and removals acts as on a map from names
    to values; the interface of a table of names is a locale. Clearing visits every value.
  \<^item> \<open>Range_Alloc\<close>, \<open>Fixed_Heap\<close>: what a range allocator promises, as a locale over the blocks it handed out,
    and \<open>lib/fixed_heap.c\<close> as an implementation of it on tags in memory.
  \<^item> \<open>Kmem\<close>: \<open>mm/kmem.c\<close> and \<open>lib/fnv.h\<close>, a second implementation of the range allocator: the power-of-two
    free lists and their bitmap, the hash table of the allocations, splitting and merging of ranges, and
    the allocation of backing pages, which is undone when it fails halfway.
  \<^item> \<open>Kernel_Memory\<close>, \<open>Kernel_String\<close>, \<open>Printf\<close>: \<open>lib/string.c\<close>, \<open>lib/ctype.h\<close> and \<open>lib/printf.c\<close> on a
    partial byte memory. The word-wise copies equal their byte-wise specification, the string functions
    have their list counterparts, formatted output stays in its buffer and numbers survive being
    printed and parsed. What a \<open>printf\<close> helper promises is a locale, interpreted by the helper of
    \<open>vsnprintf\<close>.
  \<^item> \<open>Security\<close>: \<open>kernel/security.h\<close>, \<open>security/token.c\<close>, \<open>lib/refcount.h\<close>. No chain of token creations and
    inheritances adds a privilege.
  \<^item> \<open>Spinlock\<close>: \<open>sync/spinlock.c\<close> seen by one CPU, and as a step relation of any number of CPUs with
    mutual exclusion and progress.
  \<^item> \<open>Kernel_State\<close>: the state that time, scheduling and threads share: \<open>thread_t\<close>, \<open>cpu_t\<close>, locks, wait
    lists, the interrupt flag of the current CPU.
  \<^item> \<open>Timer\<close>: \<open>time.c\<close>: calendar time, kernel timers, the tick handler. The timer list of a CPU stays
    sorted by expiry and the device is programmed for its head.
  \<^item> \<open>Sched\<close>: \<open>proc/sched.c\<close>: the bitmap-indexed priority queues refine a list in priority order;
    rescheduling keeps the invariant of the system (\<open>sys_ok\<close>) and runs the first thread of the highest
    priority.
  \<^item> \<open>Thread_Sleep\<close>: sleeping, waking, timeouts, interrupts and kills of \<open>proc/thread.c\<close>, and the tick
    handler with the timer functions of the kernel.
  \<^item> \<open>Wait_Queue\<close>: the contract of a wait list and its lock towards a synchronisation object, from the
    theorems of \<open>Thread_Sleep\<close>.
  \<^item> \<open>Semaphore\<close>, \<open>Mutex\<close>, \<open>Rwlock\<close>: \<open>sync/semaphore.c\<close>, \<open>sync/mutex.c\<close>, \<open>sync/condvar.c\<close>, \<open>sync/rwlock.c\<close>.
    Each operation is the code up to its sleep and, separately, its continuation; \<open>Mutex\<close> has the
    interleaving of threads as a step relation too.

  \<^bold>\<open>State.\<close> \<open>ksys\<close> of \<open>Kernel_State\<close> holds the threads, the CPUs, the locks and the wait lists by number;
  the synchronisation objects are records beside it that name their lock and wait list. Lists linked
  through the structures are HOL lists of numbers, which is what \<open>lib/list.h\<close> implements (\<open>Linked_List\<close>).

  \<^bold>\<open>Parameters.\<close> \<open>kmalloc\<close> and \<open>slab_cache_alloc\<close> (as the block they return), \<open>symbol_from_addr\<close>, the
  functions called by a timer, the copy from user memory, and below \<open>Kmem\<close> the page allocator and the
  page tables.

  \<^bold>\<open>Not modelled.\<close> The architecture and platform code (assembly, page tables, interrupt controllers), the
  page and slab allocators, the address spaces of processes, object handles and the system calls around them, processes,
  IPC, I/O and the file systems, ELF loading, modules, the debugger and the console; the drivers, the user
  libraries (partly C++) and programs; the third-party code. Object handles and pipes are
  the next parts by the plan.
\<close>

end
